(* ===== verification/Trusty_Base.thy ===== *)
theory Trusty_Base
  imports Main "HOL-Library.Word" "HOL-Library.Monad_Syntax"
begin

text \<open>
  Prelude of the development: the machine types of the 32-bit ARM build, the error codes of
  \<^verbatim>\<open>external/lk/include/err.h\<close>, kernel assertions as a failing computation, byte ranges
  of kernel memory and of user memory, the allocation oracle, and the list facts
  that several components share.

  A function that can stop the kernel (a failed \<^verbatim>\<open>ASSERT\<close>, \<^verbatim>\<open>DEBUG_ASSERT\<close> or
  \<^verbatim>\<open>assert\<close>, a call of \<^verbatim>\<open>panic\<close>, the use of a freed object or of a
  NULL pointer) returns an \<open>option\<close>; \<open>None\<close> is the stopped kernel. A function that
  returns a status returns the \<open>int\<close> of the C code, negative for an error.
\<close>

named_theorems kernel_simps \<open>rewrite rules for the monadic kernel operations\<close>
named_theorems inv_intros \<open>introduction rules for the component invariants\<close>

section \<open>Machine types\<close>

type_synonym u8 = "8 word"
type_synonym u16 = "16 word"
type_synonym u32 = "32 word"
type_synonym u64 = "64 word"

text \<open>Kernel memory is total, user memory is the part of it that is mapped for the task.\<close>

type_synonym kmem = "nat \<Rightarrow> u8"
type_synonym umem = "u32 \<Rightarrow> u8 option"

section \<open>Error codes\<close>

abbreviation NO_ERROR :: int where "NO_ERROR \<equiv> 0"
abbreviation ERR_NOT_FOUND :: int where "ERR_NOT_FOUND \<equiv> -2"
abbreviation ERR_NOT_READY :: int where "ERR_NOT_READY \<equiv> -3"
abbreviation ERR_NO_MSG :: int where "ERR_NO_MSG \<equiv> -4"
abbreviation ERR_NO_MEMORY :: int where "ERR_NO_MEMORY \<equiv> -5"
abbreviation ERR_ALREADY_STARTED :: int where "ERR_ALREADY_STARTED \<equiv> -6"
abbreviation ERR_NOT_VALID :: int where "ERR_NOT_VALID \<equiv> -7"
abbreviation ERR_INVALID_ARGS :: int where "ERR_INVALID_ARGS \<equiv> -8"
abbreviation ERR_NOT_ENOUGH_BUFFER :: int where "ERR_NOT_ENOUGH_BUFFER \<equiv> -9"
abbreviation ERR_TIMED_OUT :: int where "ERR_TIMED_OUT \<equiv> -13"
abbreviation ERR_ALREADY_EXISTS :: int where "ERR_ALREADY_EXISTS \<equiv> -14"
abbreviation ERR_CHANNEL_CLOSED :: int where "ERR_CHANNEL_CLOSED \<equiv> -15"
abbreviation ERR_NOT_ALLOWED :: int where "ERR_NOT_ALLOWED \<equiv> -17"
abbreviation ERR_NOT_SUPPORTED :: int where "ERR_NOT_SUPPORTED \<equiv> -24"
abbreviation ERR_TOO_BIG :: int where "ERR_TOO_BIG \<equiv> -25"
abbreviation ERR_BAD_STATE :: int where "ERR_BAD_STATE \<equiv> -31"
abbreviation ERR_BAD_LEN :: int where "ERR_BAD_LEN \<equiv> -32"
abbreviation ERR_NOT_CONFIGURED :: int where "ERR_NOT_CONFIGURED \<equiv> -38"
abbreviation ERR_FAULT :: int where "ERR_FAULT \<equiv> -40"
abbreviation ERR_NO_RESOURCES :: int where "ERR_NO_RESOURCES \<equiv> -41"
abbreviation ERR_BAD_HANDLE :: int where "ERR_BAD_HANDLE \<equiv> -42"
abbreviation ERR_ACCESS_DENIED :: int where "ERR_ACCESS_DENIED \<equiv> -43"

section \<open>Assertions\<close>

definition kassert :: "bool \<Rightarrow> unit option" where
  "kassert b = (if b then Some () else None)"

lemma kassert_simps [simp]: "kassert True = Some ()" "kassert False = None"
  by (simp_all add: kassert_def)

lemma kassert_eq_Some [simp]: "kassert b = Some u \<longleftrightarrow> b"
  by (simp add: kassert_def)

lemma kassert_eq_None [simp]: "kassert b = None \<longleftrightarrow> \<not> b"
  by (simp add: kassert_def)

lemma bind_kassert [simp]: "Option.bind (kassert b) f = (if b then f () else None)"
  by (simp add: kassert_def)

lemmas bind_splits = Option.bind_eq_Some_conv Option.bind_eq_None_conv

section \<open>Byte ranges of memory\<close>

definition mem_read :: "kmem \<Rightarrow> nat \<Rightarrow> nat \<Rightarrow> u8 list" where
  "mem_read m a n = map (\<lambda>i. m (a + i)) [0..<n]"

definition mem_write :: "kmem \<Rightarrow> nat \<Rightarrow> u8 list \<Rightarrow> kmem" where
  "mem_write m a bs = (\<lambda>x. if a \<le> x \<and> x < a + length bs then bs ! (x - a) else m x)"

lemma length_mem_read [simp]: "length (mem_read m a n) = n"
  by (simp add: mem_read_def)

lemma mem_read_0 [simp]: "mem_read m a 0 = []"
  by (simp add: mem_read_def)

lemma mem_read_add: "mem_read m a (n + k) = mem_read m a n @ mem_read m (a + n) k"
  by (rule nth_equalityI) (auto simp: mem_read_def nth_append)

lemma take_mem_read: "take k (mem_read m a n) = mem_read m a (min k n)"
  by (rule nth_equalityI) (auto simp: mem_read_def)

lemma mem_write_Nil [simp]: "mem_write m a [] = m"
  by (rule ext) (auto simp: mem_write_def)

lemma mem_read_write_same [simp]: "mem_read (mem_write m a bs) a (length bs) = bs"
  by (rule nth_equalityI) (auto simp: mem_read_def mem_write_def)

lemma mem_read_write_other:
  "a + n \<le> b \<or> b + length bs \<le> a \<Longrightarrow> mem_read (mem_write m b bs) a n = mem_read m a n"
  by (auto simp: mem_read_def mem_write_def)

text \<open>A window of a byte list, and overwriting one.\<close>

definition window :: "nat \<Rightarrow> nat \<Rightarrow> 'a list \<Rightarrow> 'a list" where
  "window off n xs = take n (drop off xs)"

definition overwrite :: "nat \<Rightarrow> 'a list \<Rightarrow> 'a list \<Rightarrow> 'a list" where
  "overwrite off ys xs = take off xs @ ys @ drop (off + length ys) xs"

lemma length_window [simp]: "off + n \<le> length xs \<Longrightarrow> length (window off n xs) = n"
  by (simp add: window_def)

lemma length_overwrite [simp]: "off + length ys \<le> length xs \<Longrightarrow> length (overwrite off ys xs) = length xs"
  by (simp add: overwrite_def)

lemma window_overwrite_same [simp]:
  "off + length ys \<le> length xs \<Longrightarrow> window off (length ys) (overwrite off ys xs) = ys"
  by (simp add: window_def overwrite_def)

lemma window_overwrite_other:
  assumes "off + length ys \<le> length xs" and "p + n \<le> off \<or> off + length ys \<le> p"
  shows "window p n (overwrite off ys xs) = window p n xs"
proof (rule nth_equalityI)
  show "length (window p n (overwrite off ys xs)) = length (window p n xs)"
    using assms by (simp add: window_def)
next
  fix i assume "i < length (window p n (overwrite off ys xs))"
  then have i: "i < n" "p + i < length xs"
    using assms by (auto simp: window_def)
  have "overwrite off ys xs ! (p + i) = xs ! (p + i)"
    using assms i by (auto simp: overwrite_def nth_append)
  then show "window p n (overwrite off ys xs) ! i = window p n xs ! i"
    using assms i by (simp add: window_def)
qed

section \<open>User copies\<close>

text \<open>
  \<^verbatim>\<open>copy_from_user\<close> and \<^verbatim>\<open>copy_to_user\<close> of \<^verbatim>\<open>uthread.h\<close> call the assembly
  routines of \<^verbatim>\<open>uthread/arch/arm/usercopy.S\<close>: one byte at a time, addresses
  wrap at 32 bits, the first byte that is not mapped stops the copy with \<^verbatim>\<open>ERR_FAULT\<close>.
  A faulting copy from user space fills the rest of the destination with zeros.
\<close>

primrec copy_from_user :: "umem \<Rightarrow> u32 \<Rightarrow> nat \<Rightarrow> int \<times> u8 list" where
  "copy_from_user um a 0 = (NO_ERROR, [])"
| "copy_from_user um a (Suc n) =
     (case um a of
        None \<Rightarrow> (ERR_FAULT, replicate (Suc n) 0)
      | Some b \<Rightarrow> (let (r, bs) = copy_from_user um (a + 1) n in (r, b # bs)))"

primrec copy_to_user :: "umem \<Rightarrow> u32 \<Rightarrow> u8 list \<Rightarrow> int \<times> umem" where
  "copy_to_user um a [] = (NO_ERROR, um)"
| "copy_to_user um a (b # bs) =
     (case um a of
        None \<Rightarrow> (ERR_FAULT, um)
      | Some _ \<Rightarrow> copy_to_user (um(a \<mapsto> b)) (a + 1) bs)"

lemma length_copy_from_user [simp]: "length (snd (copy_from_user um a n)) = n"
  by (induction n arbitrary: a) (auto split: option.splits prod.splits, metis snd_conv)

lemma copy_from_user_result: "fst (copy_from_user um a n) = NO_ERROR \<or> fst (copy_from_user um a n) = ERR_FAULT"
  by (induction n arbitrary: a) (auto split: option.splits prod.splits, (metis fst_conv)+)

lemma copy_to_user_result: "fst (copy_to_user um a bs) = NO_ERROR \<or> fst (copy_to_user um a bs) = ERR_FAULT"
  by (induction bs arbitrary: um a) (auto split: option.splits)

lemma copy_to_user_dom: "dom (snd (copy_to_user um a bs)) = dom um"
proof (induction bs arbitrary: um a)
  case Nil
  then show ?case by simp
next
  case (Cons b bs)
  show ?case
  proof (cases "um a")
    case None
    then show ?thesis by simp
  next
    case (Some x)
    then show ?thesis by (auto simp: Cons.IH split: if_splits)
  qed
qed

section \<open>Allocation\<close>

text \<open>
  \<^verbatim>\<open>malloc\<close>, \<^verbatim>\<open>calloc\<close> and \<^verbatim>\<open>strdup\<close> may return NULL at any call. The oracle
  is the list of the outcomes of the next calls (\<open>True\<close>: memory was found);
  when it is used up every further call succeeds.
\<close>

fun next_alloc :: "bool list \<Rightarrow> bool \<times> bool list" where
  "next_alloc [] = (True, [])"
| "next_alloc (b # bs) = (b, bs)"

section \<open>Rounding\<close>

text \<open>
  The macros \<^verbatim>\<open>ROUNDUP\<close> and \<^verbatim>\<open>ROUNDDOWN\<close> of \<^verbatim>\<open>stdlib.h\<close> on words: add
  and mask, so \<^verbatim>\<open>ROUNDUP\<close> wraps like the C expression does.
\<close>

unbundle bit_operations_syntax

definition ROUNDUP :: "'a::len word \<Rightarrow> 'a word \<Rightarrow> 'a word" where
  "ROUNDUP a b = (a + (b - 1)) AND NOT (b - 1)"

definition ROUNDDOWN :: "'a::len word \<Rightarrow> 'a word \<Rightarrow> 'a word" where
  "ROUNDDOWN a b = a AND NOT (b - 1)"

section \<open>Lists as intrusive queues\<close>

text \<open>Removing one occurrence, as unlinking a node of an intrusive list does.\<close>

lemma set_remove1_distinct [simp]: "distinct xs \<Longrightarrow> set (remove1 x xs) = set xs - {x}"
  by (rule set_remove1_eq)

lemma remove1_hd: "xs \<noteq> [] \<Longrightarrow> remove1 (hd xs) xs = tl xs"
  by (cases xs) auto

lemma length_remove1_mem: "x \<in> set xs \<Longrightarrow> Suc (length (remove1 x xs)) = length xs"
  by (metis Suc_pred' length_pos_if_in_set length_remove1)

end
