(* ===== verification/Bitmap.thy ===== *)
theory Bitmap
  imports Trusty_Base
begin

text \<open>
  The bitmaps of \<^verbatim>\<open>external/lk/include/bits.h\<close>, arrays of 32-bit words with one bit
  per slot. The handle table of a task and the endpoint table of the IPC device
  both allocate slots with them. The locale \<open>slot_bitmap\<close> is what these clients
  rely on; the interpretation at the end proves it of the code.
\<close>

section \<open>Definitions\<close>

type_synonym bitmap = "u32 list"

definition BITMAP_NUM_WORDS :: "nat \<Rightarrow> nat" where
  "BITMAP_NUM_WORDS x = (x + 31) div 32"

text \<open>\<^verbatim>\<open>bitmap_set\<close> and \<^verbatim>\<open>bitmap_clear\<close> also return the old value of the bit.\<close>

definition bitmap_set :: "bitmap \<Rightarrow> nat \<Rightarrow> bitmap \<times> int" where
  "bitmap_set bm b =
     (let mask = push_bit (b mod 32) (1 :: u32); old = bm ! (b div 32)
      in (bm[b div 32 := old OR mask], if old AND mask \<noteq> 0 then 1 else 0))"

definition bitmap_clear :: "bitmap \<Rightarrow> nat \<Rightarrow> bitmap \<times> int" where
  "bitmap_clear bm b =
     (let mask = push_bit (b mod 32) (1 :: u32); old = bm ! (b div 32)
      in (bm[b div 32 := old AND NOT mask], if old AND mask \<noteq> 0 then 1 else 0))"

definition bitmap_test :: "bitmap \<Rightarrow> nat \<Rightarrow> bool" where
  "bitmap_test bm b \<longleftrightarrow> bm ! (b div 32) AND push_bit (b mod 32) 1 \<noteq> 0"

text \<open>\<^verbatim>\<open>__builtin_ffsl\<close>: one plus the index of the least significant set bit, 0 for 0.\<close>

definition builtin_ffsl :: "u32 \<Rightarrow> nat" where
  "builtin_ffsl x = (case find (bit x) [0..<32] of None \<Rightarrow> 0 | Some i \<Rightarrow> Suc i)"

definition ffz_word :: "u32 \<Rightarrow> nat" where
  "ffz_word x = builtin_ffsl (NOT x) - 1"

fun bitmap_ffz_loop :: "u32 list \<Rightarrow> nat \<Rightarrow> nat \<Rightarrow> int" where
  "bitmap_ffz_loop [] i numbits = -1"
| "bitmap_ffz_loop (w # ws) i numbits =
     (if w = NOT 0 then bitmap_ffz_loop ws (Suc i) numbits
      else let b = i * 32 + ffz_word w in if b < numbits then int b else -1)"

definition bitmap_ffz :: "bitmap \<Rightarrow> nat \<Rightarrow> int" where
  "bitmap_ffz bm numbits = bitmap_ffz_loop (take (BITMAP_NUM_WORDS numbits) bm) 0 numbits"

definition bitmap_empty :: "nat \<Rightarrow> bitmap" where
  "bitmap_empty numbits = replicate (BITMAP_NUM_WORDS numbits) 0"

definition bitmap_wf :: "nat \<Rightarrow> bitmap \<Rightarrow> bool" where
  "bitmap_wf numbits bm \<longleftrightarrow> length bm = BITMAP_NUM_WORDS numbits"

section \<open>Single bits\<close>

lemma and_mask_neq_0: "n < 32 \<Longrightarrow> (w AND push_bit n (1 :: u32) \<noteq> 0) = bit w n"
proof -
  assume n: "n < 32"
  have "w AND push_bit n (1 :: u32) = (if bit w n then push_bit n 1 else 0)"
    by (rule bit_word_eqI) (auto simp: bit_simps)
  moreover have "push_bit n (1 :: u32) \<noteq> 0" using n by simp
  ultimately show ?thesis by simp
qed

lemma bitmap_test_bit: "bitmap_test bm b = bit (bm ! (b div 32)) (b mod 32)"
  unfolding bitmap_test_def by (rule and_mask_neq_0) simp

lemma words_index: "b < n \<Longrightarrow> b div 32 < BITMAP_NUM_WORDS n"
  by (simp add: BITMAP_NUM_WORDS_def)

lemma div_mod_32_eq: "(b :: nat) div 32 = c div 32 \<Longrightarrow> b mod 32 = c mod 32 \<Longrightarrow> b = c"
  by (metis div_mult_mod_eq)

lemma bitmap_test_set:
  assumes "bitmap_wf n bm" "b < n" "c < n"
  shows "bitmap_test (fst (bitmap_set bm b)) c = (c = b \<or> bitmap_test bm c)"
proof (cases "c div 32 = b div 32")
  case True
  with assms have "c div 32 < length bm" by (simp add: bitmap_wf_def words_index)
  with True show ?thesis
    by (auto simp: bitmap_test_bit bitmap_set_def Let_def bit_simps dest: div_mod_32_eq)
next
  case False
  then show ?thesis by (auto simp: bitmap_test_bit bitmap_set_def Let_def)
qed

lemma bitmap_test_clear:
  assumes "bitmap_wf n bm" "b < n" "c < n"
  shows "bitmap_test (fst (bitmap_clear bm b)) c = (c \<noteq> b \<and> bitmap_test bm c)"
proof (cases "c div 32 = b div 32")
  case True
  with assms have "c div 32 < length bm" by (simp add: bitmap_wf_def words_index)
  with True show ?thesis
    by (auto simp: bitmap_test_bit bitmap_clear_def Let_def bit_simps dest: div_mod_32_eq)
next
  case False
  then show ?thesis by (auto simp: bitmap_test_bit bitmap_clear_def Let_def)
qed

lemma bitmap_old_value:
  "snd (bitmap_set bm b) = (if bitmap_test bm b then 1 else 0)"
  "snd (bitmap_clear bm b) = (if bitmap_test bm b then 1 else 0)"
  by (simp_all add: bitmap_set_def bitmap_clear_def bitmap_test_def Let_def)

lemma bitmap_wf_set [simp]: "bitmap_wf n (fst (bitmap_set bm b)) = bitmap_wf n bm"
  by (simp add: bitmap_wf_def bitmap_set_def Let_def)

lemma bitmap_wf_clear [simp]: "bitmap_wf n (fst (bitmap_clear bm b)) = bitmap_wf n bm"
  by (simp add: bitmap_wf_def bitmap_clear_def Let_def)

section \<open>First clear bit\<close>

lemma find_upt_first:
  assumes "\<exists>i<n. P i"
  shows "\<exists>i. find P [0..<n] = Some i \<and> i < n \<and> P i \<and> (\<forall>j<i. \<not> P j)"
proof -
  from assms obtain i where "find P [0..<n] = Some i"
    by (cases "find P [0..<n]") (auto simp: find_None_iff)
  then show ?thesis by (auto simp: find_Some_iff)
qed

lemma ffz_word_spec:
  assumes "w \<noteq> NOT 0"
  shows "ffz_word w < 32 \<and> \<not> bit w (ffz_word w) \<and> (\<forall>j < ffz_word w. bit w j)"
proof -
  have "\<exists>i<32. bit (NOT w) i"
  proof (rule ccontr)
    assume "\<not> (\<exists>i<32. bit (NOT w) i)"
    then have "w = NOT 0" by (intro bit_word_eqI) (simp add: bit_simps)
    with assms show False ..
  qed
  from find_upt_first [OF this] obtain i where
    i: "find (bit (NOT w)) [0..<32] = Some i" "i < 32" "bit (NOT w) i" "\<forall>j<i. \<not> bit (NOT w) j"
    by blast
  have "ffz_word w = i" unfolding ffz_word_def builtin_ffsl_def i(1) by simp
  with i(2-4) show ?thesis by (simp add: bit_simps)
qed

text \<open>The bit with number \<open>b\<close>, when the list starts at word \<open>i\<close> of the bitmap.\<close>

definition bit_from :: "u32 list \<Rightarrow> nat \<Rightarrow> nat \<Rightarrow> bool" where
  "bit_from ws i b \<longleftrightarrow> bit (ws ! (b div 32 - i)) (b mod 32)"

lemma bit_from_Cons:
  assumes "32 * Suc i \<le> b"
  shows "bit_from (w # ws) i b = bit_from ws (Suc i) b"
proof -
  have "Suc i \<le> b div 32" using assms by (simp add: less_eq_div_iff_mult_less_eq)
  then have "b div 32 - i = Suc (b div 32 - Suc i)" by arith
  then show ?thesis by (simp add: bit_from_def)
qed

lemma bit_from_hd: "32 * i \<le> b \<Longrightarrow> b < 32 * Suc i \<Longrightarrow> bit_from (w # ws) i b = bit w (b mod 32)"
proof -
  assume "32 * i \<le> b" "b < 32 * Suc i"
  then have "b div 32 = i" by (simp add: div_nat_eqI)
  then show ?thesis by (simp add: bit_from_def)
qed

lemma bitmap_ffz_loop_spec:
  "(\<exists>r. bitmap_ffz_loop ws i n = int r \<and> 32 * i \<le> r \<and> r < n \<and> \<not> bit_from ws i r \<and>
        (\<forall>b. 32 * i \<le> b \<longrightarrow> b < r \<longrightarrow> bit_from ws i b)) \<or>
   (bitmap_ffz_loop ws i n = -1 \<and>
        (\<forall>b. 32 * i \<le> b \<longrightarrow> b < n \<longrightarrow> b < 32 * (i + length ws) \<longrightarrow> bit_from ws i b))"
proof (induction ws i n rule: bitmap_ffz_loop.induct)
  case (1 i numbits)
  then show ?case by simp
next
  case (2 w ws i n)
  show ?case
  proof (cases "w = NOT 0")
    case True
    have hd: "bit_from (w # ws) i b" if "32 * i \<le> b" "b < 32 * Suc i" for b
      using True that by (simp add: bit_from_hd bit_simps)
    have step: "bit_from (w # ws) i b = bit_from ws (Suc i) b" if "32 * Suc i \<le> b" for b
      using that by (rule bit_from_Cons)
    have all: "bit_from (w # ws) i b"
      if "32 * i \<le> b" "32 * Suc i \<le> b \<Longrightarrow> bit_from ws (Suc i) b" for b
    proof (cases "32 * Suc i \<le> b")
      case True
      with that(2) step show ?thesis by simp
    next
      case False
      with that(1) show ?thesis by (intro hd) simp_all
    qed
    from 2 [OF True] consider
      (found) r where "bitmap_ffz_loop ws (Suc i) n = int r" "32 * Suc i \<le> r" "r < n"
        "\<not> bit_from ws (Suc i) r" "\<forall>b. 32 * Suc i \<le> b \<longrightarrow> b < r \<longrightarrow> bit_from ws (Suc i) b"
      | (none) "bitmap_ffz_loop ws (Suc i) n = -1"
        "\<forall>b. 32 * Suc i \<le> b \<longrightarrow> b < n \<longrightarrow> b < 32 * (Suc i + length ws) \<longrightarrow> bit_from ws (Suc i) b"
      by blast
    then show ?thesis
    proof cases
      case found
      have "\<not> bit_from (w # ws) i r" using found(2,4) step by simp
      moreover have "bit_from (w # ws) i b" if "32 * i \<le> b" "b < r" for b
        using that found(5) by (intro all) simp_all
      moreover have "32 * i \<le> r" using found(2) by simp
      ultimately show ?thesis using True found(1,3) by (intro disjI1 exI [of _ r]) simp
    next
      case none
      have "bit_from (w # ws) i b"
        if "32 * i \<le> b" "b < n" "b < 32 * (i + length (w # ws))" for b
        using that none(2) by (intro all) simp_all
      then show ?thesis using True none(1) by (intro disjI2) simp
    qed
  next
    case False
    have f: "ffz_word w < 32" "\<not> bit w (ffz_word w)"
      and f3: "\<And>j. j < ffz_word w \<Longrightarrow> bit w j"
      using ffz_word_spec [OF False] by simp_all
    let ?b = "i * 32 + ffz_word w"
    have b: "32 * i \<le> ?b" "?b < 32 * Suc i" "?b mod 32 = ffz_word w"
      using f(1) by simp_all
    have at: "\<not> bit_from (w # ws) i ?b"
      using bit_from_hd [OF b(1,2), of w ws] f(2) b(3) by simp
    have below: "bit_from (w # ws) i c" if "32 * i \<le> c" "c < ?b" for c
    proof -
      have c: "c < 32 * Suc i" using that b by linarith
      then have "c div 32 = i" using that by (simp add: div_nat_eqI)
      then have "c = 32 * i + c mod 32" by (metis mult_div_mod_eq)
      then have "c mod 32 < ffz_word w" using that by linarith
      then have "bit w (c mod 32)" by (rule f3)
      with bit_from_hd [OF that(1) c, of w ws] show ?thesis by simp
    qed
    show ?thesis
    proof (cases "?b < n")
      case True
      with False b(1) at below show ?thesis
        by (intro disjI1 exI [of _ ?b]) (simp add: Let_def)
    next
      case ge: False
      have "bit_from (w # ws) i c" if "32 * i \<le> c" "c < n" for c
        using that ge by (intro below) simp_all
      with False ge show ?thesis by (intro disjI2) (simp add: Let_def)
    qed
  qed
qed

lemma bitmap_ffz_spec:
  assumes "bitmap_wf n bm"
  shows "(\<exists>r. bitmap_ffz bm n = int r \<and> r < n \<and> \<not> bitmap_test bm r \<and> (\<forall>b<r. bitmap_test bm b)) \<or>
    (bitmap_ffz bm n = -1 \<and> (\<forall>b<n. bitmap_test bm b))"
proof -
  have bf: "bit_from bm 0 b = bitmap_test bm b" for b
    by (simp add: bit_from_def bitmap_test_bit)
  have len: "b < 32 * length bm" if "b < n" for b
    using words_index [OF that] assms by (simp add: bitmap_wf_def)
  have "bitmap_ffz bm n = bitmap_ffz_loop bm 0 n"
    using assms by (simp add: bitmap_ffz_def bitmap_wf_def)
  with bitmap_ffz_loop_spec [of bm 0 n] len show ?thesis by (auto simp: bf)
qed

section \<open>The interface of a slot bitmap\<close>

locale slot_bitmap =
  fixes invar :: "'b \<Rightarrow> bool"
    and test :: "'b \<Rightarrow> nat \<Rightarrow> bool"
    and set_slot :: "'b \<Rightarrow> nat \<Rightarrow> 'b"
    and clear_slot :: "'b \<Rightarrow> nat \<Rightarrow> 'b"
    and first_free :: "'b \<Rightarrow> int"
    and n :: nat
  assumes test_set: "invar b \<Longrightarrow> i < n \<Longrightarrow> j < n \<Longrightarrow> test (set_slot b i) j = (j = i \<or> test b j)"
    and test_clear: "invar b \<Longrightarrow> i < n \<Longrightarrow> j < n \<Longrightarrow> test (clear_slot b i) j = (j \<noteq> i \<and> test b j)"
    and first_free_law: "invar b \<Longrightarrow>
      (\<exists>r. first_free b = int r \<and> r < n \<and> \<not> test b r \<and> (\<forall>j<r. test b j)) \<or>
      (first_free b = -1 \<and> (\<forall>j<n. test b j))"
    and invar_set: "invar b \<Longrightarrow> invar (set_slot b i)"
    and invar_clear: "invar b \<Longrightarrow> invar (clear_slot b i)"
begin

definition slots :: "'b \<Rightarrow> nat set" where
  "slots b = {i. i < n \<and> test b i}"

lemma finite_slots [simp]: "finite (slots b)"
  by (simp add: slots_def)

lemma slots_set: "invar b \<Longrightarrow> i < n \<Longrightarrow> slots (set_slot b i) = insert i (slots b)"
  by (auto simp: slots_def test_set)

lemma slots_clear: "invar b \<Longrightarrow> i < n \<Longrightarrow> slots (clear_slot b i) = slots b - {i}"
  by (auto simp: slots_def test_clear)

lemma first_free_cases:
  assumes "invar b"
  obtains (free) r where "first_free b = int r" "r < n" "\<not> test b r" "\<And>j. j < r \<Longrightarrow> test b j"
  | (full) "first_free b = -1" "\<And>j. j < n \<Longrightarrow> test b j"
  using first_free_law [OF assms] by blast

lemma first_free_neg: "invar b \<Longrightarrow> first_free b < 0 \<longleftrightarrow> slots b = {..<n}"
proof (erule first_free_cases)
  fix r assume "first_free b = int r" "r < n" "\<not> test b r"
  moreover from this have "r \<in> {..<n}" "r \<notin> slots b" by (simp_all add: slots_def)
  ultimately show ?thesis by auto
next
  assume "first_free b = -1" "\<And>j. j < n \<Longrightarrow> test b j"
  then show ?thesis by (auto simp: slots_def)
qed

lemma first_free_nonneg:
  assumes "invar b" "0 \<le> first_free b"
  shows "nat (first_free b) < n" "nat (first_free b) \<notin> slots b" "\<not> test b (nat (first_free b))"
  using assms by (auto elim!: first_free_cases simp: slots_def)

lemma first_free_least:
  assumes "invar b" "0 \<le> first_free b" "j < nat (first_free b)"
  shows "j \<in> slots b"
  using assms by (auto elim!: first_free_cases simp: slots_def)

text \<open>An allocation succeeds exactly when fewer than \<open>n\<close> slots are in use.\<close>

lemma first_free_iff: "invar b \<Longrightarrow> 0 \<le> first_free b \<longleftrightarrow> card (slots b) < n"
proof -
  assume b: "invar b"
  have sub: "slots b \<subseteq> {..<n}" by (auto simp: slots_def)
  have "slots b = {..<n}" if "card (slots b) = n"
    by (rule card_subset_eq [OF finite_lessThan sub]) (simp add: that)
  then have "slots b = {..<n} \<longleftrightarrow> card (slots b) = n" by (metis card_lessThan)
  moreover have "card (slots b) \<le> n" using card_mono [OF finite_lessThan sub] by simp
  ultimately have "slots b = {..<n} \<longleftrightarrow> \<not> card (slots b) < n" by linarith
  with first_free_neg [OF b] show ?thesis by linarith
qed

end

text \<open>The bitmaps of \<^verbatim>\<open>bits.h\<close> meet the interface, for every number of bits.\<close>

interpretation bm: slot_bitmap "bitmap_wf n" bitmap_test
  "\<lambda>b i. fst (bitmap_set b i)" "\<lambda>b i. fst (bitmap_clear b i)" "\<lambda>b. bitmap_ffz b n" n for n
  by unfold_locales (simp_all add: bitmap_test_set bitmap_test_clear bitmap_ffz_spec)

lemma bitmap_clear_set:
  assumes "bitmap_wf n bm" "b < n" "\<not> bitmap_test bm b"
  shows "fst (bitmap_clear (fst (bitmap_set bm b)) b) = bm"
proof -
  have l: "b div 32 < length bm" using assms(1,2) by (simp add: bitmap_wf_def words_index)
  let ?w = "bm ! (b div 32)"
  have "(?w OR push_bit (b mod 32) 1) AND NOT (push_bit (b mod 32) 1) = ?w"
    using assms(3) l by (intro bit_word_eqI) (auto simp: bit_simps bitmap_test_bit)
  with l show ?thesis by (simp add: bitmap_clear_def bitmap_set_def Let_def)
qed

lemma bitmap_wf_empty [simp]: "bitmap_wf n (bitmap_empty n)"
  by (simp add: bitmap_wf_def bitmap_empty_def)

lemma bitmap_test_empty [simp]: "i < n \<Longrightarrow> \<not> bitmap_test (bitmap_empty n) i"
  by (simp add: bitmap_test_bit bitmap_empty_def words_index)

lemma slots_bitmap_empty [simp]: "bm.slots n (bitmap_empty n) = {}"
  by (auto simp: bm.slots_def)

end
