(* ===== verification/Handle.thy ===== *)
theory Handle
  imports Trusty_Base
begin

text \<open>
  Kernel handles and handle lists: \<^verbatim>\<open>lib/trusty/handle.c\<close> and \<^verbatim>\<open>include/refcount.h\<close>.

  A handle is embedded in a port or a channel; the map \<open>handles\<close> gives the contents of
  the handle at each address \<open>'h\<close>, and a lookup that finds nothing is an access to freed
  memory. The operation table of a handle is named by \<open>'o\<close>; the routines that call
  through it take the functions of the tables as arguments. The state is an extensible
  record, so that the objects the handles are embedded in can be added to it. Routines
  return \<open>None\<close> where the code asserts or faults.

  A thread that blocks lets other threads run. The waiting routines take the list of what
  happens at each wait: the result of \<^verbatim>\<open>event_wait_timeout\<close> and the state the other
  threads leave. A wait beyond the end of the list has not returned yet (\<open>Blocked\<close>).
\<close>

section \<open>Definitions\<close>

record 'o handle =
  refcnt :: int
  ops :: "'o option"
  wait_event :: "nat option"
  hlist_node :: "nat option"
  cookie :: u32

record 'h handle_list =
  hl_handles :: "'h list"
  hl_wait_event :: "nat option"

record ('h, 'o) hstate =
  handles :: "'h \<rightharpoonup> 'o handle"
  hlists :: "nat \<rightharpoonup> 'h handle_list"
  events :: "nat \<Rightarrow> bool"
  next_event :: nat

type_synonym 's wait_env = "('s \<Rightarrow> int \<times> 's) list"

datatype ('s, 'a) waiting = Blocked 's | Returned 's 'a

text \<open>The event bits a poll returns.\<close>

abbreviation IPC_HANDLE_POLL_NONE :: u32 where "IPC_HANDLE_POLL_NONE \<equiv> 0x0"
abbreviation IPC_HANDLE_POLL_READY :: u32 where "IPC_HANDLE_POLL_READY \<equiv> 0x1"
abbreviation IPC_HANDLE_POLL_ERROR :: u32 where "IPC_HANDLE_POLL_ERROR \<equiv> 0x2"
abbreviation IPC_HANDLE_POLL_HUP :: u32 where "IPC_HANDLE_POLL_HUP \<equiv> 0x4"
abbreviation IPC_HANDLE_POLL_MSG :: u32 where "IPC_HANDLE_POLL_MSG \<equiv> 0x8"
abbreviation IPC_HANDLE_POLL_SEND_UNBLOCKED :: u32 where "IPC_HANDLE_POLL_SEND_UNBLOCKED \<equiv> 0x10"

definition zero_handle :: "'o handle" where
  "zero_handle = \<lparr>refcnt = 0, ops = None, wait_event = None, hlist_node = None, cookie = 0\<rparr>"

definition update_handle ::
  "'h \<Rightarrow> ('o handle \<Rightarrow> 'o handle) \<Rightarrow> ('h, 'o, 'z) hstate_scheme \<Rightarrow> ('h, 'o, 'z) hstate_scheme option" where
  "update_handle h f k = (case handles k h of
     None \<Rightarrow> None
   | Some hn \<Rightarrow> Some (k\<lparr>handles := (handles k)(h \<mapsto> f hn)\<rparr>))"

definition event_init :: "('h, 'o, 'z) hstate_scheme \<Rightarrow> nat \<times> ('h, 'o, 'z) hstate_scheme" where
  "event_init k = (next_event k,
     k\<lparr>next_event := Suc (next_event k), events := (events k)(next_event k := False)\<rparr>)"

definition event_signal :: "nat \<Rightarrow> ('h, 'o, 'z) hstate_scheme \<Rightarrow> ('h, 'o, 'z) hstate_scheme" where
  "event_signal ev k = k\<lparr>events := (events k)(ev := True)\<rparr>"

text \<open>Reference counts.\<close>

definition refcount_init :: "'o handle \<Rightarrow> 'o handle" where
  "refcount_init hn = hn\<lparr>refcnt := 1\<rparr>"

definition refcount_inc :: "'o handle \<Rightarrow> 'o handle" where
  "refcount_inc hn = hn\<lparr>refcnt := refcnt hn + 1\<rparr>"

text \<open>The decrement returns the old value, as \<^verbatim>\<open>atomic_add\<close> does.\<close>

definition refcount_dec :: "'o handle \<Rightarrow> 'o handle \<times> bool" where
  "refcount_dec hn = (hn\<lparr>refcnt := refcnt hn - 1\<rparr>, refcnt hn = 1)"

definition handle_init :: "'h \<Rightarrow> 'o \<Rightarrow> ('h, 'o, 'z) hstate_scheme \<Rightarrow> ('h, 'o, 'z) hstate_scheme option" where
  "handle_init h ops_tab k = update_handle h
     (\<lambda>hn. (refcount_init hn)\<lparr>ops := Some ops_tab, wait_event := None, cookie := 0, hlist_node := None\<rparr>) k"

definition handle_destroy_ref ::
  "('o \<Rightarrow> 'h \<Rightarrow> ('h, 'o, 'z) hstate_scheme \<Rightarrow> ('h, 'o, 'z) hstate_scheme option) \<Rightarrow>
   'h \<Rightarrow> ('h, 'o, 'z) hstate_scheme \<Rightarrow> ('h, 'o, 'z) hstate_scheme option" where
  "handle_destroy_ref destroy h k = do {
     hn \<leftarrow> handles k h;
     tab \<leftarrow> ops hn;
     destroy tab h k
   }"

definition handle_incref :: "'h \<Rightarrow> ('h, 'o, 'z) hstate_scheme \<Rightarrow> ('h, 'o, 'z) hstate_scheme option" where
  "handle_incref h k = update_handle h refcount_inc k"

definition handle_decref ::
  "('o \<Rightarrow> 'h \<Rightarrow> ('h, 'o, 'z) hstate_scheme \<Rightarrow> ('h, 'o, 'z) hstate_scheme option) \<Rightarrow>
   'h \<Rightarrow> ('h, 'o, 'z) hstate_scheme \<Rightarrow> ('h, 'o, 'z) hstate_scheme option" where
  "handle_decref destroy h k = do {
     hn \<leftarrow> handles k h;
     let (hn', lst) = refcount_dec hn;
     let k = k\<lparr>handles := (handles k)(h \<mapsto> hn')\<rparr>;
     (if lst then handle_destroy_ref destroy h k else Some k)
   }"

text \<open>Both operation tables of the kernel have a shutdown function.\<close>

definition handle_close ::
  "('o \<Rightarrow> 'h \<Rightarrow> ('h, 'o, 'z) hstate_scheme \<Rightarrow> ('h, 'o, 'z) hstate_scheme option) \<Rightarrow>
   ('o \<Rightarrow> 'h \<Rightarrow> ('h, 'o, 'z) hstate_scheme \<Rightarrow> ('h, 'o, 'z) hstate_scheme option) \<Rightarrow>
   'h \<Rightarrow> ('h, 'o, 'z) hstate_scheme \<Rightarrow> ('h, 'o, 'z) hstate_scheme option" where
  "handle_close shutdown destroy h k = do {
     hn \<leftarrow> handles k h;
     tab \<leftarrow> ops hn;
     k \<leftarrow> shutdown tab h k;
     handle_decref destroy h k
   }"

definition handle_set_cookie ::
  "'h \<Rightarrow> u32 \<Rightarrow> ('h, 'o, 'z) hstate_scheme \<Rightarrow> ('h, 'o, 'z) hstate_scheme option" where
  "handle_set_cookie h c k = update_handle h (\<lambda>hn. hn\<lparr>cookie := c\<rparr>) k"

definition handle_get_cookie :: "'h \<Rightarrow> ('h, 'o, 'z) hstate_scheme \<Rightarrow> u32 option" where
  "handle_get_cookie h k = map_option cookie (handles k h)"

subsection \<open>Waiting for one handle\<close>

definition prepare_wait_handle ::
  "nat \<Rightarrow> 'h \<Rightarrow> ('h, 'o, 'z) hstate_scheme \<Rightarrow> (int \<times> ('h, 'o, 'z) hstate_scheme) option" where
  "prepare_wait_handle ev h k = do {
     hn \<leftarrow> handles k h;
     (if wait_event hn \<noteq> None then Some (ERR_ALREADY_STARTED, k)
      else do {
        k \<leftarrow> update_handle h (\<lambda>hn. hn\<lparr>wait_event := Some ev\<rparr>) k;
        Some (0, k)
      })
   }"

definition finish_wait_handle ::
  "'h \<Rightarrow> ('h, 'o, 'z) hstate_scheme \<Rightarrow> ('h, 'o, 'z) hstate_scheme option" where
  "finish_wait_handle h k = update_handle h (\<lambda>hn. hn\<lparr>wait_event := None\<rparr>) k"

definition handle_notify ::
  "'h \<Rightarrow> ('h, 'o, 'z) hstate_scheme \<Rightarrow> ('h, 'o, 'z) hstate_scheme option" where
  "handle_notify h k = do {
     hn \<leftarrow> handles k h;
     Some (case wait_event hn of None \<Rightarrow> k | Some ev \<Rightarrow> event_signal ev k)
   }"

text \<open>Polling and finalising through the operation table of the handle.\<close>

definition poll_handle ::
  "('o \<Rightarrow> 'h \<Rightarrow> ('h, 'o, 'z) hstate_scheme \<Rightarrow> u32 option) \<Rightarrow>
   'h \<Rightarrow> ('h, 'o, 'z) hstate_scheme \<Rightarrow> u32 option" where
  "poll_handle poll h k = do { hn \<leftarrow> handles k h; tab \<leftarrow> ops hn; poll tab h k }"

definition finalize_handle ::
  "('o \<Rightarrow> 'h \<Rightarrow> u32 \<Rightarrow> ('h, 'o, 'z) hstate_scheme \<Rightarrow> ('h, 'o, 'z) hstate_scheme option) \<Rightarrow>
   'h \<Rightarrow> u32 \<Rightarrow> ('h, 'o, 'z) hstate_scheme \<Rightarrow> ('h, 'o, 'z) hstate_scheme option" where
  "finalize_handle fin h event k = do { hn \<leftarrow> handles k h; tab \<leftarrow> ops hn; fin tab h event k }"

primrec handle_wait_loop ::
  "('o \<Rightarrow> 'h \<Rightarrow> ('h, 'o, 'z) hstate_scheme \<Rightarrow> u32 option) \<Rightarrow>
   ('o \<Rightarrow> 'h \<Rightarrow> u32 \<Rightarrow> ('h, 'o, 'z) hstate_scheme \<Rightarrow> ('h, 'o, 'z) hstate_scheme option) \<Rightarrow> 'h \<Rightarrow>
   ('h, 'o, 'z) hstate_scheme wait_env \<Rightarrow> ('h, 'o, 'z) hstate_scheme \<Rightarrow>
   (('h, 'o, 'z) hstate_scheme, int \<times> u32 option) waiting option" where
  "handle_wait_loop poll fin h [] k = do {
     event \<leftarrow> poll_handle poll h k;
     (if event \<noteq> 0 then do {
        k \<leftarrow> finalize_handle fin h event k;
        k \<leftarrow> finish_wait_handle h k;
        Some (Returned k (NO_ERROR, Some event))
      } else Some (Blocked k))
   }"
| "handle_wait_loop poll fin h (w # ws) k = do {
     event \<leftarrow> poll_handle poll h k;
     (if event \<noteq> 0 then do {
        k \<leftarrow> finalize_handle fin h event k;
        k \<leftarrow> finish_wait_handle h k;
        Some (Returned k (NO_ERROR, Some event))
      } else do {
        let (ret, k) = w k;
        (if ret < 0 then do {
           k \<leftarrow> finish_wait_handle h k;
           Some (Returned k (ret, None))
         } else handle_wait_loop poll fin h ws k)
      })
   }"

definition handle_wait ::
  "('o \<Rightarrow> 'h \<Rightarrow> ('h, 'o, 'z) hstate_scheme \<Rightarrow> u32 option) \<Rightarrow>
   ('o \<Rightarrow> 'h \<Rightarrow> u32 \<Rightarrow> ('h, 'o, 'z) hstate_scheme \<Rightarrow> ('h, 'o, 'z) hstate_scheme option) \<Rightarrow>
   ('h, 'o, 'z) hstate_scheme wait_env \<Rightarrow> 'h option \<Rightarrow> ('h, 'o, 'z) hstate_scheme \<Rightarrow>
   (('h, 'o, 'z) hstate_scheme, int \<times> u32 option) waiting option" where
  "handle_wait poll fin ws h_opt k = (case h_opt of
     None \<Rightarrow> Some (Returned k (ERR_INVALID_ARGS, None))
   | Some h \<Rightarrow> do {
       let (ev, k) = event_init k;
       (ret, k) \<leftarrow> prepare_wait_handle ev h k;
       (if ret \<noteq> 0 then Some (Returned k (ret, None))
        else handle_wait_loop poll fin h ws k)
     })"

subsection \<open>Handle lists\<close>

definition update_hlist ::
  "nat \<Rightarrow> ('h handle_list \<Rightarrow> 'h handle_list) \<Rightarrow> ('h, 'o, 'z) hstate_scheme \<Rightarrow> ('h, 'o, 'z) hstate_scheme option" where
  "update_hlist l f k = (case hlists k l of
     None \<Rightarrow> None
   | Some hl \<Rightarrow> Some (k\<lparr>hlists := (hlists k)(l \<mapsto> f hl)\<rparr>))"

definition handle_list_init :: "nat \<Rightarrow> ('h, 'o, 'z) hstate_scheme \<Rightarrow> ('h, 'o, 'z) hstate_scheme" where
  "handle_list_init l k = k\<lparr>hlists := (hlists k)(l \<mapsto> \<lparr>hl_handles = [], hl_wait_event = None\<rparr>)\<rparr>"

definition handle_list_add ::
  "('o \<Rightarrow> 'h \<Rightarrow> ('h, 'o, 'z) hstate_scheme \<Rightarrow> u32 option) \<Rightarrow> nat \<Rightarrow> 'h \<Rightarrow>
   ('h, 'o, 'z) hstate_scheme \<Rightarrow> ('h, 'o, 'z) hstate_scheme option" where
  "handle_list_add poll l h k = do {
     hn \<leftarrow> handles k h;
     kassert (hlist_node hn = None);
     k \<leftarrow> handle_incref h k;
     k \<leftarrow> update_hlist l (\<lambda>hl. hl\<lparr>hl_handles := hl_handles hl @ [h]\<rparr>) k;
     k \<leftarrow> update_handle h (\<lambda>hn. hn\<lparr>hlist_node := Some l\<rparr>) k;
     hl \<leftarrow> hlists k l;
     (case hl_wait_event hl of
        None \<Rightarrow> Some k
      | Some ev \<Rightarrow> do {
          (_, k) \<leftarrow> prepare_wait_handle ev h k;
          event \<leftarrow> poll_handle poll h k;
          (if event \<noteq> 0 then handle_notify h k else Some k)
        })
   }"

definition handle_list_del_locked ::
  "('o \<Rightarrow> 'h \<Rightarrow> ('h, 'o, 'z) hstate_scheme \<Rightarrow> ('h, 'o, 'z) hstate_scheme option) \<Rightarrow> nat \<Rightarrow> 'h \<Rightarrow>
   ('h, 'o, 'z) hstate_scheme \<Rightarrow> ('h, 'o, 'z) hstate_scheme option" where
  "handle_list_del_locked destroy l h k = do {
     hn \<leftarrow> handles k h;
     kassert (hlist_node hn \<noteq> None);
     k \<leftarrow> update_hlist (the (hlist_node hn)) (\<lambda>hl. hl\<lparr>hl_handles := remove1 h (hl_handles hl)\<rparr>) k;
     k \<leftarrow> update_handle h (\<lambda>hn. hn\<lparr>hlist_node := None\<rparr>) k;
     hl \<leftarrow> hlists k l;
     k \<leftarrow> (case hl_wait_event hl of
        None \<Rightarrow> Some k
      | Some ev \<Rightarrow> do {
          k \<leftarrow> finish_wait_handle h k;
          Some (if hl_handles hl = [] then event_signal ev k else k)
        });
     handle_decref destroy h k
   }"

definition handle_list_del ::
  "('o \<Rightarrow> 'h \<Rightarrow> ('h, 'o, 'z) hstate_scheme \<Rightarrow> ('h, 'o, 'z) hstate_scheme option) \<Rightarrow> nat \<Rightarrow> 'h \<Rightarrow>
   ('h, 'o, 'z) hstate_scheme \<Rightarrow> ('h, 'o, 'z) hstate_scheme option" where
  "handle_list_del destroy l h k = handle_list_del_locked destroy l h k"

text \<open>
  The loop removes the head until the list is empty; the fuel is the length of the list
  when the loop starts, which \<open>Ipc_Wait\<close> shows to be enough.
\<close>

primrec delete_all_loop ::
  "('o \<Rightarrow> 'h \<Rightarrow> ('h, 'o, 'z) hstate_scheme \<Rightarrow> ('h, 'o, 'z) hstate_scheme option) \<Rightarrow> nat \<Rightarrow> nat \<Rightarrow>
   ('h, 'o, 'z) hstate_scheme \<Rightarrow> ('h, 'o, 'z) hstate_scheme option" where
  "delete_all_loop destroy l 0 k = do {
     hl \<leftarrow> hlists k l;
     (if hl_handles hl = [] then Some k else None)
   }"
| "delete_all_loop destroy l (Suc n) k = do {
     hl \<leftarrow> hlists k l;
     (case hl_handles hl of
        [] \<Rightarrow> Some k
      | h # _ \<Rightarrow> do {
          k \<leftarrow> handle_list_del_locked destroy l h k;
          delete_all_loop destroy l n k
        })
   }"

definition handle_list_delete_all ::
  "('o \<Rightarrow> 'h \<Rightarrow> ('h, 'o, 'z) hstate_scheme \<Rightarrow> ('h, 'o, 'z) hstate_scheme option) \<Rightarrow> nat \<Rightarrow>
   ('h, 'o, 'z) hstate_scheme \<Rightarrow> ('h, 'o, 'z) hstate_scheme option" where
  "handle_list_delete_all destroy l k = do {
     hl \<leftarrow> hlists k l;
     delete_all_loop destroy l (length (hl_handles hl)) k
   }"

primrec hlist_finish_loop ::
  "'h option \<Rightarrow> 'h list \<Rightarrow> ('h, 'o, 'z) hstate_scheme \<Rightarrow> ('h, 'o, 'z) hstate_scheme option" where
  "hlist_finish_loop lst [] k = Some k"
| "hlist_finish_loop lst (h # hs) k = do {
     k \<leftarrow> finish_wait_handle h k;
     (if lst = Some h then Some k else hlist_finish_loop lst hs k)
   }"

definition hlist_finish_wait_locked ::
  "nat \<Rightarrow> 'h option \<Rightarrow> ('h, 'o, 'z) hstate_scheme \<Rightarrow> ('h, 'o, 'z) hstate_scheme option" where
  "hlist_finish_wait_locked l lst k = do {
     hl \<leftarrow> hlists k l;
     hlist_finish_loop lst (hl_handles hl) k
   }"

text \<open>
  The poll loop carries \<open>ret\<close>, the last prepared handle and the handle found with its
  event. \<open>ret\<close> is not initialised by the code; the argument is the value it happens to
  have, which the first prepared handle overwrites.
\<close>

primrec hlist_poll_loop ::
  "('o \<Rightarrow> 'h \<Rightarrow> ('h, 'o, 'z) hstate_scheme \<Rightarrow> u32 option) \<Rightarrow> nat \<Rightarrow> bool \<Rightarrow> 'h list \<Rightarrow>
   int \<Rightarrow> 'h option \<Rightarrow> ('h, 'o, 'z) hstate_scheme \<Rightarrow>
   (int \<times> 'h option \<times> ('h \<times> u32) option \<times> ('h, 'o, 'z) hstate_scheme) option" where
  "hlist_poll_loop poll ev prepare [] ret last_prep k = Some (ret, last_prep, None, k)"
| "hlist_poll_loop poll ev prepare (h # hs) ret last_prep k = do {
     (ret, k) \<leftarrow> (if prepare then prepare_wait_handle ev h k else Some (ret, k));
     (if prepare \<and> ret \<noteq> 0 then Some (ret, last_prep, None, k)
      else do {
        let last_prep = (if prepare then Some h else last_prep);
        event \<leftarrow> poll_handle poll h k;
        (if event \<noteq> 0 then Some (1, last_prep, Some (h, event), k)
         else hlist_poll_loop poll ev prepare hs ret last_prep k)
      })
   }"

definition hlist_do_poll_locked ::
  "('o \<Rightarrow> 'h \<Rightarrow> ('h, 'o, 'z) hstate_scheme \<Rightarrow> u32 option) \<Rightarrow> nat \<Rightarrow> bool \<Rightarrow> int \<Rightarrow>
   ('h, 'o, 'z) hstate_scheme \<Rightarrow> (int \<times> ('h \<times> u32) option \<times> ('h, 'o, 'z) hstate_scheme) option" where
  "hlist_do_poll_locked poll l prepare uninit k = do {
     hl \<leftarrow> hlists k l;
     ev \<leftarrow> hl_wait_event hl;
     (if hl_handles hl = [] then Some (ERR_NOT_FOUND, None, k)
      else do {
        (ret, last_prep, found, k) \<leftarrow> hlist_poll_loop poll ev prepare (hl_handles hl) uninit None k;
        k \<leftarrow> (if ret \<noteq> 0 \<and> prepare \<and> last_prep \<noteq> None
              then hlist_finish_wait_locked l last_prep k else Some k);
        Some (ret, found, k)
      })
   }"

text \<open>The wait loop: each round has what the wait returns and the value \<open>ret\<close> has before the poll.\<close>

primrec hlist_wait_loop ::
  "('o \<Rightarrow> 'h \<Rightarrow> ('h, 'o, 'z) hstate_scheme \<Rightarrow> u32 option) \<Rightarrow> nat \<Rightarrow>
   (int \<times> (('h, 'o, 'z) hstate_scheme \<Rightarrow> int \<times> ('h, 'o, 'z) hstate_scheme)) list \<Rightarrow>
   ('h, 'o, 'z) hstate_scheme \<Rightarrow>
   (('h, 'o, 'z) hstate_scheme, int \<times> ('h \<times> u32) option) waiting option" where
  "hlist_wait_loop poll l [] k = Some (Blocked k)"
| "hlist_wait_loop poll l (w # ws) k = do {
     let (ret, k) = snd w k;
     (if ret < 0 then Some (Returned k (ret, None))
      else do {
        (ret, found, k) \<leftarrow> hlist_do_poll_locked poll l False (fst w) k;
        (if ret = 0 then hlist_wait_loop poll l ws k else Some (Returned k (ret, found)))
      })
   }"

text \<open>Moving the list head behind the handle that was found.\<close>

definition rotate_after :: "'h \<Rightarrow> 'h list \<Rightarrow> 'h list" where
  "rotate_after h hs =
     drop 1 (dropWhile (\<lambda>x. x \<noteq> h) hs) @ takeWhile (\<lambda>x. x \<noteq> h) hs @ [h]"

definition hlist_found ::
  "('o \<Rightarrow> 'h \<Rightarrow> u32 \<Rightarrow> ('h, 'o, 'z) hstate_scheme \<Rightarrow> ('h, 'o, 'z) hstate_scheme option) \<Rightarrow> nat \<Rightarrow>
   int \<Rightarrow> ('h \<times> u32) option \<Rightarrow> ('h, 'o, 'z) hstate_scheme \<Rightarrow>
   (int \<times> ('h \<times> u32) option \<times> ('h, 'o, 'z) hstate_scheme) option" where
  "hlist_found fin l ret found k =
     (if ret = 1 then do {
        (h, event) \<leftarrow> found;
        k \<leftarrow> finalize_handle fin h event k;
        k \<leftarrow> handle_incref h k;
        k \<leftarrow> update_hlist l (\<lambda>hl. hl\<lparr>hl_handles := rotate_after h (hl_handles hl)\<rparr>) k;
        Some (NO_ERROR, found, k)
      } else Some (ret, found, k))"

definition handle_list_wait ::
  "('o \<Rightarrow> 'h \<Rightarrow> ('h, 'o, 'z) hstate_scheme \<Rightarrow> u32 option) \<Rightarrow>
   ('o \<Rightarrow> 'h \<Rightarrow> u32 \<Rightarrow> ('h, 'o, 'z) hstate_scheme \<Rightarrow> ('h, 'o, 'z) hstate_scheme option) \<Rightarrow>
   int \<Rightarrow> (int \<times> (('h, 'o, 'z) hstate_scheme \<Rightarrow> int \<times> ('h, 'o, 'z) hstate_scheme)) list \<Rightarrow> nat \<Rightarrow>
   ('h, 'o, 'z) hstate_scheme \<Rightarrow>
   (('h, 'o, 'z) hstate_scheme, int \<times> ('h \<times> u32) option) waiting option" where
  "handle_list_wait poll fin uninit ws l k = do {
     let (ev, k) = event_init k;
     hl \<leftarrow> hlists k l;
     kassert (hl_wait_event hl = None);
     k \<leftarrow> update_hlist l (\<lambda>hl. hl\<lparr>hl_wait_event := Some ev\<rparr>) k;
     (ret, found, k) \<leftarrow> hlist_do_poll_locked poll l True uninit k;
     r \<leftarrow> (if ret < 0 then Some (Returned k (ret, found))
       else do {
         w \<leftarrow> (if ret = 0 then hlist_wait_loop poll l ws k else Some (Returned k (ret, found)));
         (case w of
            Blocked k \<Rightarrow> Some (Blocked k)
          | Returned k (ret', found') \<Rightarrow> do {
              k \<leftarrow> (if ret = 0 then hlist_finish_wait_locked l None k else Some k);
              (ret'', found'', k) \<leftarrow> hlist_found fin l ret' found' k;
              Some (Returned k (ret'', found''))
            })
       });
     (case r of
        Blocked k \<Rightarrow> Some (Blocked k)
      | Returned k (ret, found) \<Rightarrow> do {
          k \<leftarrow> update_hlist l (\<lambda>hl. hl\<lparr>hl_wait_event := None\<rparr>) k;
          Some (Returned k (ret, found))
        })
   }"

section \<open>Basic facts\<close>

lemma update_handle_Some_iff [kernel_simps]:
  "update_handle h f k = Some k' \<longleftrightarrow>
     (\<exists>hn. handles k h = Some hn \<and> k' = k\<lparr>handles := (handles k)(h \<mapsto> f hn)\<rparr>)"
  by (auto simp: update_handle_def split: option.splits)

lemma update_handle_Some [simp]:
  "handles k h = Some hn \<Longrightarrow> update_handle h f k = Some (k\<lparr>handles := (handles k)(h \<mapsto> f hn)\<rparr>)"
  by (simp add: update_handle_def)

lemma update_hlist_Some_iff [kernel_simps]:
  "update_hlist l f k = Some k' \<longleftrightarrow>
     (\<exists>hl. hlists k l = Some hl \<and> k' = k\<lparr>hlists := (hlists k)(l \<mapsto> f hl)\<rparr>)"
  by (auto simp: update_hlist_def split: option.splits)

lemma update_hlist_Some [simp]:
  "hlists k l = Some hl \<Longrightarrow> update_hlist l f k = Some (k\<lparr>hlists := (hlists k)(l \<mapsto> f hl)\<rparr>)"
  by (simp add: update_hlist_def)

lemma event_signal_sel [simp]:
  "handles (event_signal ev k) = handles k" "hlists (event_signal ev k) = hlists k"
  "hstate.more (event_signal ev k) = hstate.more k" "events (event_signal ev k) ev"
  "next_event (event_signal ev k) = next_event k"
  by (simp_all add: event_signal_def)

lemma handle_incref_Some [simp]:
  "handles k h = Some hn \<Longrightarrow>
   handle_incref h k = Some (k\<lparr>handles := (handles k)(h \<mapsto> hn\<lparr>refcnt := refcnt hn + 1\<rparr>)\<rparr>)"
  by (simp add: handle_incref_def refcount_inc_def)

lemma handle_decref_shared:
  "handles k h = Some hn \<Longrightarrow> refcnt hn \<noteq> 1 \<Longrightarrow>
   handle_decref destroy h k = Some (k\<lparr>handles := (handles k)(h \<mapsto> hn\<lparr>refcnt := refcnt hn - 1\<rparr>)\<rparr>)"
  by (simp add: handle_decref_def refcount_dec_def)

lemma handle_decref_last:
  "handles k h = Some hn \<Longrightarrow> refcnt hn = 1 \<Longrightarrow> ops hn = Some tab \<Longrightarrow>
   handle_decref destroy h k = destroy tab h (k\<lparr>handles := (handles k)(h \<mapsto> hn\<lparr>refcnt := 0\<rparr>)\<rparr>)"
  by (simp add: handle_decref_def refcount_dec_def handle_destroy_ref_def)

lemma handle_notify_Some [simp]:
  "handles k h = Some hn \<Longrightarrow>
   handle_notify h k = Some (case wait_event hn of None \<Rightarrow> k | Some ev \<Rightarrow> event_signal ev k)"
  by (simp add: handle_notify_def)

lemma handle_notify_frame:
  assumes "handle_notify h k = Some k'"
  shows "handles k' = handles k" "hlists k' = hlists k" "hstate.more k' = hstate.more k"
    "next_event k' = next_event k" "events k ev \<Longrightarrow> events k' ev"
    "handles k h = Some hn \<Longrightarrow> wait_event hn = Some ev \<Longrightarrow> events k' ev"
  using assms by (auto simp: handle_notify_def event_signal_def bind_eq_Some_conv split: option.splits)

section \<open>Rotation\<close>

fun index_of :: "'a \<Rightarrow> 'a list \<Rightarrow> nat" where
  "index_of x [] = 0"
| "index_of x (y # ys) = (if x = y then 0 else Suc (index_of x ys))"

lemma index_of_less: "x \<in> set xs \<Longrightarrow> index_of x xs < length xs"
  by (induction xs) auto

lemma index_of_append: "index_of x (xs @ ys) = (if x \<in> set xs then index_of x xs else length xs + index_of x ys)"
  by (induction xs) auto

lemma rotate_after_split:
  "h \<notin> set xs \<Longrightarrow> rotate_after h (xs @ h # ys) = ys @ xs @ [h]"
  by (simp add: rotate_after_def dropWhile_append takeWhile_append)

lemma rotate_after_closer:
  assumes "distinct (xs @ g # ys)" "h \<in> set ys"
  shows "index_of h (rotate_after g (xs @ g # ys)) < index_of h (xs @ g # ys)"
  using assms by (auto simp: rotate_after_split index_of_append)

section \<open>The interface of polling\<close>

text \<open>
  A poll may look at the objects behind the handles and at the operation table of a
  handle, not at who waits for it or at its count.
\<close>

locale pollable =
  fixes poll :: "'o \<Rightarrow> 'h \<Rightarrow> ('h, 'o, 'z) hstate_scheme \<Rightarrow> u32 option"
  assumes poll_frame: "hstate.more k' = hstate.more k \<Longrightarrow>
    (\<And>x. map_option ops (handles k' x) = map_option ops (handles k x)) \<Longrightarrow> poll tab h k' = poll tab h k"
begin

lemma poll_handle_frame:
  assumes "hstate.more k' = hstate.more k" "\<And>x. map_option ops (handles k' x) = map_option ops (handles k x)"
  shows "poll_handle poll h k' = poll_handle poll h k"
proof (cases "handles k h")
  case None
  with assms(2) [of h] show ?thesis by (simp add: poll_handle_def)
next
  case (Some hn)
  with assms(2) [of h] obtain hn' where "handles k' h = Some hn'" "ops hn' = ops hn" by auto
  with Some show ?thesis using poll_frame [OF assms] by (simp add: poll_handle_def)
qed

text \<open>The state with a set of handles prepared for the event.\<close>

definition prepared :: "nat \<Rightarrow> 'h set \<Rightarrow> ('h, 'o, 'z) hstate_scheme \<Rightarrow> ('h, 'o, 'z) hstate_scheme" where
  "prepared ev H k = k\<lparr>handles := (\<lambda>h. if h \<in> H
     then map_option (\<lambda>hn. hn\<lparr>wait_event := Some ev\<rparr>) (handles k h) else handles k h)\<rparr>"

lemma prepared_empty [simp]: "prepared ev {} k = k"
  by (simp add: prepared_def)

lemma poll_prepared [simp]: "poll_handle poll h (prepared ev H k) = poll_handle poll h k"
  by (rule poll_handle_frame) (auto simp: prepared_def option.map_comp comp_def)

lemma prepare_step:
  assumes "handles k h = Some hn" "wait_event hn = None" "h \<notin> H"
  shows "prepare_wait_handle ev h (prepared ev H k) = Some (0, prepared ev (insert h H) k)"
  using assms by (auto simp: prepare_wait_handle_def prepared_def intro!: hstate.equality)

lemma poll_loop_first:
  assumes "distinct (xs @ h # ys)" "H \<inter> set (xs @ [h]) = {}"
    and "\<And>x. x \<in> set (xs @ [h]) \<Longrightarrow> \<exists>hn. handles k x = Some hn \<and> wait_event hn = None"
    and "\<And>x. x \<in> set xs \<Longrightarrow> poll_handle poll x k = Some 0"
    and "poll_handle poll h k = Some event" "event \<noteq> 0"
  shows "hlist_poll_loop poll ev True (xs @ h # ys) ret lp (prepared ev H k) =
    Some (1, Some h, Some (h, event), prepared ev (H \<union> set (xs @ [h])) k)"
  using assms
proof (induction xs arbitrary: ret lp H)
  case Nil
  then obtain hn where "handles k h = Some hn" "wait_event hn = None" by auto
  with Nil show ?case by (simp add: prepare_step)
next
  case (Cons x xs)
  from Cons.prems(3) [of x] obtain hn where x: "handles k x = Some hn" "wait_event hn = None" by auto
  have "hlist_poll_loop poll ev True (xs @ h # ys) 0 (Some x) (prepared ev (insert x H) k) =
    Some (1, Some h, Some (h, event), prepared ev (insert x H \<union> set (xs @ [h])) k)"
    using Cons.prems by (intro Cons.IH) auto
  with x Cons.prems show ?case by (simp add: prepare_step insert_commute)
qed

lemma finish_loop_prefix:
  assumes "h \<notin> set xs" "distinct xs" "\<And>x. x \<in> set (xs @ [h]) \<Longrightarrow> \<exists>hn. handles k x = Some hn"
  shows "hlist_finish_loop (Some h) (xs @ h # ys) k =
    Some (k\<lparr>handles := (\<lambda>x. if x \<in> set (xs @ [h])
      then map_option (\<lambda>hn. hn\<lparr>wait_event := None\<rparr>) (handles k x) else handles k x)\<rparr>)"
  using assms
proof (induction xs arbitrary: k)
  case Nil
  then obtain hn where "handles k h = Some hn" by auto
  then show ?case by (auto simp: finish_wait_handle_def intro!: hstate.equality)
next
  case (Cons x xs)
  then obtain hn where x: "handles k x = Some hn" by auto
  let ?k = "k\<lparr>handles := (handles k)(x \<mapsto> hn\<lparr>wait_event := None\<rparr>)\<rparr>"
  have "hlist_finish_loop (Some h) (xs @ h # ys) ?k =
    Some (?k\<lparr>handles := (\<lambda>x. if x \<in> set (xs @ [h])
      then map_option (\<lambda>hn. hn\<lparr>wait_event := None\<rparr>) (handles ?k x) else handles ?k x)\<rparr>)"
    using Cons.prems by (intro Cons.IH) auto
  with x Cons.prems show ?case
    by (auto simp: finish_wait_handle_def intro!: hstate.equality)
qed

text \<open>Polling an idle list finds the first ready handle and leaves no trace.\<close>

lemma do_poll_first:
  assumes "hlists k l = Some hl" "hl_wait_event hl = Some ev" "hl_handles hl = xs @ h # ys"
    and "distinct (xs @ h # ys)"
    and idle: "\<And>x. x \<in> set (xs @ [h]) \<Longrightarrow> \<exists>hn. handles k x = Some hn \<and> wait_event hn = None"
    and "\<And>x. x \<in> set xs \<Longrightarrow> poll_handle poll x k = Some 0"
    and "poll_handle poll h k = Some event" "event \<noteq> 0"
  shows "hlist_do_poll_locked poll l True uninit k = Some (1, Some (h, event), k)"
proof -
  have loop: "hlist_poll_loop poll ev True (xs @ h # ys) uninit None k =
    Some (1, Some h, Some (h, event), prepared ev (set (xs @ [h])) k)"
    using poll_loop_first [of xs h ys "{}" k event ev uninit None] assms(4-8) by simp
  let ?k = "prepared ev (set (xs @ [h])) k"
  have "hlist_finish_loop (Some h) (xs @ h # ys) ?k =
    Some (?k\<lparr>handles := (\<lambda>x. if x \<in> set (xs @ [h])
      then map_option (\<lambda>hn. hn\<lparr>wait_event := None\<rparr>) (handles ?k x) else handles ?k x)\<rparr>)"
    using assms(4) idle by (intro finish_loop_prefix) (fastforce simp: prepared_def)+
  also have "?k\<lparr>handles := (\<lambda>x. if x \<in> set (xs @ [h])
      then map_option (\<lambda>hn. hn\<lparr>wait_event := None\<rparr>) (handles ?k x) else handles ?k x)\<rparr> = k"
  proof -
    have "(if x \<in> set (xs @ [h]) then map_option (\<lambda>hn. hn\<lparr>wait_event := None\<rparr>) (handles ?k x)
        else handles ?k x) = handles k x" for x
      using idle [of x] by (auto simp: prepared_def)
    then show ?thesis by (simp add: prepared_def)
  qed
  finally have fin: "hlist_finish_loop (Some h) (xs @ h # ys) ?k = Some k" .
  have "hlists ?k = hlists k" by (simp add: prepared_def)
  with assms(1-3) loop fin show ?thesis
    by (simp add: hlist_do_poll_locked_def hlist_finish_wait_locked_def del: set_append)
qed

end

end
