(* ===== verification/Iovec.thy ===== *)
theory Iovec
  imports Trusty_Base
begin

text \<open>
  The scatter and gather routines of \<^verbatim>\<open>lib/trusty/iovec.c\<close>, between a linear message
  buffer and the io vectors of the kernel or of a user task. Kernel vectors are
  lists of base and length in kernel memory (base 0 is NULL); user vectors are read
  from user memory, eight bytes per entry, and every access can fault. Message
  buffers are byte lists (\<open>None\<close> is NULL); they are private to the message queues, so
  no io vector overlaps one.

  The locale \<open>gather\<close> is what the message queue relies on: a gather never
  writes outside the window it is given. Both gather routines are shown to meet it.
\<close>

section \<open>Definitions\<close>

record iovec_kern =
  ik_base :: nat
  ik_len :: nat

record iovec_user =
  iu_base :: u32
  iu_len :: u32

text \<open>A little-endian 32-bit value in memory, and the layout of \<^verbatim>\<open>iovec_user_t\<close>.\<close>

fun le32 :: "u8 list \<Rightarrow> u32" where
  "le32 [] = 0"
| "le32 (b # bs) = ucast b + 256 * le32 bs"

definition decode_iovec_user :: "u8 list \<Rightarrow> iovec_user" where
  "decode_iovec_user bs = \<lparr>iu_base = le32 (take 4 bs), iu_len = le32 (take 4 (drop 4 bs))\<rparr>"

fun membuf_to_kern_iovec_loop ::
  "kmem \<Rightarrow> iovec_kern list \<Rightarrow> u8 list \<Rightarrow> nat \<Rightarrow> nat \<Rightarrow> int \<times> kmem" where
  "membuf_to_kern_iovec_loop m [] buf len copied = (int copied, m)"
| "membuf_to_kern_iovec_loop m (v # vs) buf len copied =
     (let to_copy = (if len > ik_len v then ik_len v else len) in
      if to_copy = 0 then membuf_to_kern_iovec_loop m vs buf len copied
      else if ik_base v = 0 then (ERR_INVALID_ARGS, m)
      else
        let m' = mem_write m (ik_base v) (take to_copy buf) in
        if len - to_copy = 0 then (int (copied + to_copy), m')
        else membuf_to_kern_iovec_loop m' vs (drop to_copy buf) (len - to_copy) (copied + to_copy))"

definition membuf_to_kern_iovec ::
  "kmem \<Rightarrow> iovec_kern list option \<Rightarrow> nat \<Rightarrow> u8 list option \<Rightarrow> nat \<Rightarrow> int \<times> kmem" where
  "membuf_to_kern_iovec m iov iov_cnt buf len =
     (if iov_cnt = 0 \<or> len = 0 then (0, m)
      else case (iov, buf) of
        (Some vs, Some bs) \<Rightarrow> membuf_to_kern_iovec_loop m (take iov_cnt vs) bs len 0
      | _ \<Rightarrow> (ERR_INVALID_ARGS, m))"

fun kern_iovec_to_membuf_loop ::
  "kmem \<Rightarrow> u8 list \<Rightarrow> nat \<Rightarrow> iovec_kern list \<Rightarrow> nat \<Rightarrow> int \<times> u8 list" where
  "kern_iovec_to_membuf_loop m buf len [] copied = (int copied, buf)"
| "kern_iovec_to_membuf_loop m buf len (v # vs) copied =
     (let to_copy = (if len > ik_len v then ik_len v else len) in
      if to_copy = 0 then kern_iovec_to_membuf_loop m buf len vs copied
      else if ik_base v = 0 then (ERR_INVALID_ARGS, buf)
      else
        let buf' = overwrite copied (mem_read m (ik_base v) to_copy) buf in
        if len - to_copy = 0 then (int (copied + to_copy), buf')
        else kern_iovec_to_membuf_loop m buf' (len - to_copy) vs (copied + to_copy))"

definition kern_iovec_to_membuf ::
  "kmem \<Rightarrow> u8 list option \<Rightarrow> nat \<Rightarrow> iovec_kern list option \<Rightarrow> nat \<Rightarrow> int \<times> u8 list option" where
  "kern_iovec_to_membuf m buf len iov iov_cnt =
     (if iov_cnt = 0 \<or> len = 0 then (0, buf)
      else case (buf, iov) of
        (Some bs, Some vs) \<Rightarrow>
          (let (r, bs') = kern_iovec_to_membuf_loop m bs len (take iov_cnt vs) 0 in (r, Some bs'))
      | _ \<Rightarrow> (ERR_INVALID_ARGS, buf))"

text \<open>
  The user variants count entries: \<open>i\<close> is the index of the entry, \<open>todo\<close> how many are
  left, so the recursion is on \<open>todo\<close>.
\<close>

fun membuf_to_user_iovec_loop ::
  "umem \<Rightarrow> u32 \<Rightarrow> nat \<Rightarrow> nat \<Rightarrow> u8 list \<Rightarrow> nat \<Rightarrow> nat \<Rightarrow> int \<times> umem" where
  "membuf_to_user_iovec_loop um iov_uaddr i 0 buf len copied = (int copied, um)"
| "membuf_to_user_iovec_loop um iov_uaddr i (Suc todo) buf len copied =
     (let (ret, raw) = copy_from_user um (iov_uaddr + of_nat i * 8) 8 in
      if ret \<noteq> NO_ERROR then (ret, um)
      else
        let uiov = decode_iovec_user raw;
            to_copy = (if len > unat (iu_len uiov) then unat (iu_len uiov) else len);
            (ret', um') = copy_to_user um (iu_base uiov) (take to_copy buf) in
        if ret' \<noteq> NO_ERROR then (ret', um')
        else if len - to_copy = 0 then (int (copied + to_copy), um')
        else membuf_to_user_iovec_loop um' iov_uaddr (Suc i) todo (drop to_copy buf)
               (len - to_copy) (copied + to_copy))"

definition membuf_to_user_iovec ::
  "umem \<Rightarrow> u32 \<Rightarrow> nat \<Rightarrow> u8 list option \<Rightarrow> nat \<Rightarrow> int \<times> umem" where
  "membuf_to_user_iovec um iov_uaddr iov_cnt buf len =
     (if iov_cnt = 0 \<or> len = 0 then (0, um)
      else case buf of
        None \<Rightarrow> (ERR_INVALID_ARGS, um)
      | Some bs \<Rightarrow> membuf_to_user_iovec_loop um iov_uaddr 0 iov_cnt bs len 0)"

fun user_iovec_to_membuf_loop ::
  "umem \<Rightarrow> u8 list \<Rightarrow> nat \<Rightarrow> u32 \<Rightarrow> nat \<Rightarrow> nat \<Rightarrow> nat \<Rightarrow> int \<times> u8 list" where
  "user_iovec_to_membuf_loop um buf len iov_uaddr i 0 copied = (int copied, buf)"
| "user_iovec_to_membuf_loop um buf len iov_uaddr i (Suc todo) copied =
     (let (ret, raw) = copy_from_user um (iov_uaddr + of_nat i * 8) 8 in
      if ret \<noteq> NO_ERROR then (ret, buf)
      else
        let uiov = decode_iovec_user raw;
            to_copy = (if len > unat (iu_len uiov) then unat (iu_len uiov) else len);
            (ret', bytes) = copy_from_user um (iu_base uiov) to_copy;
            buf' = overwrite copied bytes buf in
        if ret' \<noteq> NO_ERROR then (ret', buf')
        else if len - to_copy = 0 then (int (copied + to_copy), buf')
        else user_iovec_to_membuf_loop um buf' (len - to_copy) iov_uaddr (Suc i) todo
               (copied + to_copy))"

definition user_iovec_to_membuf ::
  "umem \<Rightarrow> u8 list option \<Rightarrow> nat \<Rightarrow> u32 \<Rightarrow> nat \<Rightarrow> int \<times> u8 list option" where
  "user_iovec_to_membuf um buf len iov_uaddr iov_cnt =
     (if iov_cnt = 0 \<or> len = 0 then (0, buf)
      else case buf of
        None \<Rightarrow> (ERR_INVALID_ARGS, buf)
      | Some bs \<Rightarrow>
          (let (r, bs') = user_iovec_to_membuf_loop um bs len iov_uaddr 0 iov_cnt 0
           in (r, Some bs')))"

section \<open>What a kernel vector denotes\<close>

definition iov_data :: "kmem \<Rightarrow> iovec_kern list \<Rightarrow> u8 list" where
  "iov_data m vs = concat (map (\<lambda>v. mem_read m (ik_base v) (ik_len v)) vs)"

definition iov_valid :: "iovec_kern list \<Rightarrow> bool" where
  "iov_valid vs \<longleftrightarrow> list_all (\<lambda>v. ik_len v = 0 \<or> ik_base v \<noteq> 0) vs"

definition iov_apart :: "iovec_kern \<Rightarrow> iovec_kern \<Rightarrow> bool" where
  "iov_apart v w \<longleftrightarrow> ik_base v + ik_len v \<le> ik_base w \<or> ik_base w + ik_len w \<le> ik_base v"

fun iov_disjoint :: "iovec_kern list \<Rightarrow> bool" where
  "iov_disjoint [] = True"
| "iov_disjoint (v # vs) = (list_all (iov_apart v) vs \<and> iov_disjoint vs)"

lemma iov_data_Nil [simp]: "iov_data m [] = []"
  by (simp add: iov_data_def)

lemma iov_data_Cons [simp]:
  "iov_data m (v # vs) = mem_read m (ik_base v) (ik_len v) @ iov_data m vs"
  by (simp add: iov_data_def)

section \<open>Gathering from kernel vectors\<close>

lemma overwrite_overwrite_append:
  "off + length xs + length ys \<le> length b \<Longrightarrow>
   overwrite (off + length xs) ys (overwrite off xs b) = overwrite off (xs @ ys) b"
  by (simp add: overwrite_def min_absorb2 ac_simps)

lemma take_overwrite_before: "off \<le> length b \<Longrightarrow> take off (overwrite off xs b) = take off b"
  by (simp add: overwrite_def)

lemma drop_overwrite_after:
  "off \<le> length b \<Longrightarrow> off + length xs \<le> p \<Longrightarrow> drop p (overwrite off xs b) = drop p b"
  by (simp add: overwrite_def min_absorb2)

lemma kern_iovec_to_membuf_loop_data:
  assumes "iov_valid vs" "0 < len" "copied + len \<le> length buf"
  shows "kern_iovec_to_membuf_loop m buf len vs copied =
    (int (copied + min len (length (iov_data m vs))),
     overwrite copied (take len (iov_data m vs)) buf)"
  using assms
proof (induction vs arbitrary: buf len copied)
  case Nil
  then show ?case by (simp add: overwrite_def)
next
  case (Cons v vs)
  then have valid: "iov_valid vs" "ik_len v = 0 \<or> ik_base v \<noteq> 0" by (simp_all add: iov_valid_def)
  show ?case
  proof (cases "ik_len v = 0")
    case True
    with Cons.IH [OF valid(1) Cons.prems(2,3)] Cons.prems(2) show ?thesis by simp
  next
    case nz: False
    with valid have base: "ik_base v \<noteq> 0" by simp
    show ?thesis
    proof (cases "len \<le> ik_len v")
      case True
      with nz base Cons.prems(2) show ?thesis
        by (simp add: take_mem_read min_def)
    next
      case False
      let ?d = "mem_read m (ik_base v) (ik_len v)"
      let ?buf = "overwrite copied ?d buf"
      have "copied + ik_len v + (len - ik_len v) \<le> length ?buf"
        using False Cons.prems(3) by simp
      from Cons.IH [OF valid(1) _ this] False
      have "kern_iovec_to_membuf_loop m ?buf (len - ik_len v) vs (copied + ik_len v) =
        (int (copied + ik_len v + min (len - ik_len v) (length (iov_data m vs))),
         overwrite (copied + ik_len v) (take (len - ik_len v) (iov_data m vs)) ?buf)"
        by simp
      moreover have "overwrite (copied + ik_len v) (take (len - ik_len v) (iov_data m vs)) ?buf =
          overwrite copied (?d @ take (len - ik_len v) (iov_data m vs)) buf"
        using overwrite_overwrite_append [of copied ?d "take (len - ik_len v) (iov_data m vs)" buf]
          False Cons.prems(3) by simp
      moreover have "min len (ik_len v + l) = ik_len v + min (len - ik_len v) l" for l
        using False by simp
      ultimately show ?thesis using False nz base by (simp add: Let_def)
    qed
  qed
qed

section \<open>Scattering to kernel vectors\<close>

lemma membuf_to_kern_iovec_loop_frame:
  assumes "list_all (\<lambda>v. a + n \<le> ik_base v \<or> ik_base v + ik_len v \<le> a) vs"
  shows "mem_read (snd (membuf_to_kern_iovec_loop m vs buf len copied)) a n = mem_read m a n"
  using assms
proof (induction vs arbitrary: m buf len copied)
  case Nil
  then show ?case by simp
next
  case (Cons v vs)
  have "mem_read (mem_write m (ik_base v) (take k buf)) a n = mem_read m a n" if "k \<le> ik_len v" for k
    using Cons.prems that by (intro mem_read_write_other) auto
  with Cons show ?case by (auto simp: Let_def)
qed

lemma membuf_to_kern_iovec_loop_data:
  assumes "iov_valid vs" "iov_disjoint vs" "0 < len" "len \<le> length buf"
  shows "\<exists>m'. membuf_to_kern_iovec_loop m vs buf len copied =
      (int (copied + min len (length (iov_data m vs))), m') \<and>
    take len (iov_data m' vs) = take (min len (length (iov_data m vs))) buf"
  using assms
proof (induction vs arbitrary: m buf len copied)
  case Nil
  then show ?case by simp
next
  case (Cons v vs)
  then have valid: "iov_valid vs" "ik_len v = 0 \<or> ik_base v \<noteq> 0"
    and apart: "list_all (iov_apart v) vs" "iov_disjoint vs" by (simp_all add: iov_valid_def)
  show ?case
  proof (cases "ik_len v = 0")
    case True
    with Cons.IH [OF valid(1) apart(2) Cons.prems(3,4)] Cons.prems(3) show ?thesis by simp
  next
    case nz: False
    with valid have base: "ik_base v \<noteq> 0" by simp
    show ?thesis
    proof (cases "len \<le> ik_len v")
      case True
      let ?m = "mem_write m (ik_base v) (take len buf)"
      have "take len (mem_read ?m (ik_base v) (ik_len v)) = take len buf"
        using mem_read_write_same [of m "ik_base v" "take len buf"] True Cons.prems(4)
        by (simp add: take_mem_read min_absorb1 min_absorb2)
      with True nz base Cons.prems(3) show ?thesis by (simp add: min_def)
    next
      case False
      let ?k = "ik_len v"
      let ?m = "mem_write m (ik_base v) (take ?k buf)"
      have len_eq: "length (iov_data x ws) = length (iov_data y ws)" for x y ws
        by (induction ws) simp_all
      have "0 < len - ?k" "len - ?k \<le> length (drop ?k buf)" using False Cons.prems(4) by simp_all
      from Cons.IH [OF valid(1) apart(2) this, of ?m "copied + ?k"]
      obtain m' where m': "membuf_to_kern_iovec_loop ?m vs (drop ?k buf) (len - ?k) (copied + ?k) =
          (int (copied + ?k + min (len - ?k) (length (iov_data ?m vs))), m')"
        "take (len - ?k) (iov_data m' vs) =
           take (min (len - ?k) (length (iov_data ?m vs))) (drop ?k buf)"
        by blast
      have "mem_read m' (ik_base v) ?k = mem_read ?m (ik_base v) ?k"
        using membuf_to_kern_iovec_loop_frame [of "ik_base v" ?k vs ?m "drop ?k buf" "len - ?k" "copied + ?k"]
          m'(1) apart(1) by (simp add: iov_apart_def list_all_iff)
      also have "\<dots> = take ?k buf"
        using mem_read_write_same [of m "ik_base v" "take ?k buf"] False Cons.prems(4)
        by (simp add: min_absorb1 min_absorb2)
      finally have hd: "mem_read m' (ik_base v) ?k = take ?k buf" .
      have split: "min len (?k + l) = ?k + min (len - ?k) l" for l using False by simp
      have "take len (iov_data m' (v # vs)) = take ?k buf @ take (len - ?k) (iov_data m' vs)"
        using hd False Cons.prems(4) by simp
      also have "\<dots> = take (min len (length (iov_data m (v # vs)))) buf"
        using m'(2) len_eq [of ?m vs m] by (simp add: split take_add)
      finally show ?thesis
        using m'(1) False nz base len_eq [of ?m vs m] by (simp add: Let_def split add.assoc)
    qed
  qed
qed

section \<open>User vectors\<close>

lemma user_iovec_to_membuf_loop_bounds:
  assumes "copied + len \<le> length buf"
    and "user_iovec_to_membuf_loop um buf len iov_uaddr i todo copied = (r, buf')"
  shows "length buf' = length buf \<and> take copied buf' = take copied buf \<and>
    drop (copied + len) buf' = drop (copied + len) buf \<and> (0 \<le> r \<longrightarrow> int copied \<le> r) \<and>
    r \<le> int (copied + len) \<and> (r < 0 \<longrightarrow> r = ERR_FAULT)"
  using assms
proof (induction um buf len iov_uaddr i todo copied rule: user_iovec_to_membuf_loop.induct)
  case (1 um buf len iov_uaddr i copied)
  then show ?case by auto
next
  case (2 um buf len iov_uaddr i todo copied)
  obtain ret raw where raw: "copy_from_user um (iov_uaddr + of_nat i * 8) 8 = (ret, raw)" by force
  have ret: "ret = NO_ERROR \<or> ret = ERR_FAULT"
    using copy_from_user_result [of um "iov_uaddr + of_nat i * 8" 8] raw by simp
  show ?case
  proof (cases "ret = NO_ERROR")
    case False
    with 2(3) raw ret 2(2) show ?thesis by auto
  next
    case True
    define uiov where "uiov = decode_iovec_user raw"
    define k where "k = (if len > unat (iu_len uiov) then unat (iu_len uiov) else len)"
    have k: "k \<le> len" by (simp add: k_def)
    obtain ret' bytes where bytes: "copy_from_user um (iu_base uiov) k = (ret', bytes)" by force
    have ret': "ret' = NO_ERROR \<or> ret' = ERR_FAULT"
      using copy_from_user_result [of um "iu_base uiov" k] bytes by simp
    have len_bytes: "length bytes = k" using length_copy_from_user [of um "iu_base uiov" k] bytes by simp
    let ?b = "overwrite copied bytes buf"
    have b: "length ?b = length buf" "take copied ?b = take copied buf"
      "drop (copied + len) ?b = drop (copied + len) buf"
      using k 2(2) len_bytes by (simp_all add: take_overwrite_before drop_overwrite_after)
    note step = 2(3) [simplified user_iovec_to_membuf_loop.simps raw prod.case True Let_def
        uiov_def [symmetric] k_def [symmetric] bytes]
    show ?thesis
    proof (cases "ret' = NO_ERROR \<and> len - k \<noteq> 0")
      case False
      with step ret' b k show ?thesis by (auto simp: Let_def split: if_splits)
    next
      case cont: True
      then have eq: "user_iovec_to_membuf_loop um ?b (len - k) iov_uaddr (Suc i) todo (copied + k) = (r, buf')"
        using step by simp
      have "copied + k + (len - k) \<le> length ?b" using b(1) k 2(2) by simp
      with 2(1) [OF refl raw [symmetric] _ uiov_def k_def refl bytes [symmetric] refl] cont True eq
      have IH: "length buf' = length ?b" "take (copied + k) buf' = take (copied + k) ?b"
        "drop (copied + k + (len - k)) buf' = drop (copied + k + (len - k)) ?b"
        "0 \<le> r \<longrightarrow> int (copied + k) \<le> r" "r \<le> int (copied + k + (len - k))" "r < 0 \<longrightarrow> r = ERR_FAULT"
        by auto
      have "take copied buf' = take copied (take (copied + k) buf')" by simp
      also have "\<dots> = take copied buf" using IH(2) b(2) by (simp del: take_take) (simp add: min_def)
      finally show ?thesis using IH b k by auto
    qed
  qed
qed

lemma kern_iovec_to_membuf_loop_bounds:
  assumes "copied + len \<le> length buf"
    and "kern_iovec_to_membuf_loop m buf len vs copied = (r, buf')"
  shows "length buf' = length buf \<and> take copied buf' = take copied buf \<and>
    drop (copied + len) buf' = drop (copied + len) buf \<and> (0 \<le> r \<longrightarrow> int copied \<le> r) \<and>
    r \<le> int (copied + len)"
  using assms
proof (induction m buf len vs copied rule: kern_iovec_to_membuf_loop.induct)
  case (1 m buf len copied)
  then show ?case by auto
next
  case (2 m buf len v vs copied)
  define k where "k = (if len > ik_len v then ik_len v else len)"
  have k: "k \<le> len" by (simp add: k_def)
  let ?b = "overwrite copied (mem_read m (ik_base v) k) buf"
  have b: "length ?b = length buf" "take copied ?b = take copied buf"
    "drop (copied + len) ?b = drop (copied + len) buf"
    using k 2(3) by (simp_all add: take_overwrite_before drop_overwrite_after)
  note step = 2(4) [simplified kern_iovec_to_membuf_loop.simps Let_def k_def [symmetric]]
  consider (skip) "k = 0" | (null) "k \<noteq> 0" "ik_base v = 0"
    | (last) "k \<noteq> 0" "ik_base v \<noteq> 0" "len - k = 0"
    | (cont) "k \<noteq> 0" "ik_base v \<noteq> 0" "len - k \<noteq> 0" by blast
  then show ?case
  proof cases
    case skip
    with 2(1) [OF k_def skip 2(3)] step show ?thesis by simp
  next
    case null
    with step show ?thesis by auto
  next
    case last
    with step b k show ?thesis by auto
  next
    case cont
    then have eq: "kern_iovec_to_membuf_loop m ?b (len - k) vs (copied + k) = (r, buf')"
      using step by simp
    have "copied + k + (len - k) \<le> length ?b" using b(1) k 2(3) by simp
    with 2(2) [OF k_def cont(1,2) refl cont(3)] eq
    have IH: "length buf' = length ?b" "take (copied + k) buf' = take (copied + k) ?b"
      "drop (copied + k + (len - k)) buf' = drop (copied + k + (len - k)) ?b"
      "0 \<le> r \<longrightarrow> int (copied + k) \<le> r" "r \<le> int (copied + k + (len - k))"
      by auto
    have "take copied buf' = take copied (take (copied + k) buf')" by simp
    also have "\<dots> = take copied buf" using IH(2) b(2) by (simp del: take_take) (simp add: min_def)
    finally show ?thesis using IH b k by auto
  qed
qed

section \<open>The interface of a gather routine\<close>

text \<open>
  \<open>g src buf len\<close> fills the first \<open>len\<close> bytes of \<open>buf\<close> at most and returns
  the number of bytes, or an error.
\<close>

locale gather =
  fixes g :: "'src \<Rightarrow> u8 list \<Rightarrow> nat \<Rightarrow> int \<times> u8 list"
  assumes g_bounds: "len \<le> length buf \<Longrightarrow> g src buf len = (r, buf') \<Longrightarrow>
    length buf' = length buf \<and> drop len buf' = drop len buf \<and> r \<le> int len"
begin

lemma g_length: "len \<le> length buf \<Longrightarrow> length (snd (g src buf len)) = length buf"
  using g_bounds [of len buf src] by (cases "g src buf len") auto

lemma g_count: "len \<le> length buf \<Longrightarrow> fst (g src buf len) \<le> int len"
  using g_bounds [of len buf src] by (cases "g src buf len") auto

lemma g_window_other:
  assumes "len \<le> length buf" "len \<le> p"
  shows "window p n (snd (g src buf len)) = window p n buf"
proof -
  obtain r buf' where g: "g src buf len = (r, buf')" by force
  with g_bounds [OF assms(1)] have "drop len buf' = drop len buf" by blast
  then have "drop (p - len) (drop len buf') = drop (p - len) (drop len buf)" by simp
  with assms(2) have "drop p buf' = drop p buf" by simp
  with g show ?thesis by (simp add: window_def)
qed

end

text \<open>Both gather routines meet it; a NULL buffer never reaches them here.\<close>

definition kern_gather :: "kmem \<times> iovec_kern list option \<times> nat \<Rightarrow> u8 list \<Rightarrow> nat \<Rightarrow> int \<times> u8 list" where
  "kern_gather = (\<lambda>(m, iov, cnt) buf len.
     let (r, b) = kern_iovec_to_membuf m (Some buf) len iov cnt in (r, the b))"

definition user_gather :: "umem \<times> u32 \<times> nat \<Rightarrow> u8 list \<Rightarrow> nat \<Rightarrow> int \<times> u8 list" where
  "user_gather = (\<lambda>(um, uaddr, cnt) buf len.
     let (r, b) = user_iovec_to_membuf um (Some buf) len uaddr cnt in (r, the b))"

interpretation kg: gather kern_gather
proof
  fix len buf src r buf'
  assume *: "len \<le> length buf" "kern_gather src buf len = (r, buf')"
  then show "length buf' = length buf \<and> drop len buf' = drop len buf \<and> r \<le> int len"
    by (cases src)
      (auto simp: kern_gather_def kern_iovec_to_membuf_def split: if_splits option.splits prod.splits
        dest!: kern_iovec_to_membuf_loop_bounds [rotated])
qed

interpretation ug: gather user_gather
proof
  fix len buf src r buf'
  assume *: "len \<le> length buf" "user_gather src buf len = (r, buf')"
  then show "length buf' = length buf \<and> drop len buf' = drop len buf \<and> r \<le> int len"
    by (cases src)
      (auto simp: user_gather_def user_iovec_to_membuf_def split: if_splits option.splits prod.splits
        dest!: user_iovec_to_membuf_loop_bounds [rotated])
qed

section \<open>Properties\<close>

definition ex_mem :: kmem where
  "ex_mem a = (if a = 16 then 1 else if a = 17 then 2 else if a = 32 then 3 else 0)"

definition ex_iov :: "iovec_kern list" where
  "ex_iov = [\<lparr>ik_base = 16, ik_len = 2\<rparr>, \<lparr>ik_base = 0, ik_len = 0\<rparr>, \<lparr>ik_base = 32, ik_len = 1\<rparr>]"

text \<open>
  C15: scattering a buffer to disjoint kernel vectors and gathering the same vectors
  gives back the bytes that were scattered, whose number is the returned count.
\<close>

theorem kern_iovec_scatter_gather:
  assumes "iov_valid (take n vs)" "iov_disjoint (take n vs)" "len \<le> length buf"
    and "len \<le> length dst" "membuf_to_kern_iovec m (Some vs) n (Some buf) len = (r, m')"
  shows "r = int (min len (length (iov_data m (take n vs)))) \<and>
    kern_iovec_to_membuf m' (Some dst) len (Some vs) n = (r, Some (overwrite 0 (take (nat r) buf) dst))"
proof (cases "n = 0 \<or> len = 0")
  case True
  with assms(5) show ?thesis
    by (auto simp: kern_iovec_to_membuf_def membuf_to_kern_iovec_def overwrite_def)
next
  case False
  have len_eq: "length (iov_data m' ws) = length (iov_data m ws)" for ws by (induction ws) simp_all
  from membuf_to_kern_iovec_loop_data [OF assms(1,2) _ assms(3), of m 0] False assms(5)
  have r: "r = int (min len (length (iov_data m (take n vs))))"
    and d: "take len (iov_data m' (take n vs)) = take (nat r) buf"
    by (auto simp: membuf_to_kern_iovec_def)
  have "kern_iovec_to_membuf_loop m' dst len (take n vs) 0 = (r, overwrite 0 (take (nat r) buf) dst)"
    using kern_iovec_to_membuf_loop_data [OF assms(1), of len 0 dst m'] False assms(4) r d len_eq by simp
  with False r show ?thesis by (simp add: kern_iovec_to_membuf_def)
qed

theorem kern_iovec_scatter_gather_witness:
  "iov_disjoint (take 3 ex_iov) \<and>
   (case membuf_to_kern_iovec ex_mem (Some ex_iov) 3 (Some [7, 8]) 2 of
      (r, m') \<Rightarrow> r = 2 \<and> kern_iovec_to_membuf m' (Some [0, 0, 0]) 2 (Some ex_iov) 3 = (2, Some [7, 8, 0]))"
proof -
  obtain r m' where eq: "membuf_to_kern_iovec ex_mem (Some ex_iov) 3 (Some [7, 8]) 2 = (r, m')" by force
  have "iov_disjoint (take 3 ex_iov)" "iov_valid (take 3 ex_iov)"
    by (simp_all add: ex_iov_def iov_apart_def iov_valid_def)
  with kern_iovec_scatter_gather [OF _ _ _ _ eq, of "[0, 0, 0]"] eq show ?thesis
    by (simp add: ex_iov_def iov_data_def overwrite_def)
qed

text \<open>
  C16: gathering from a user task is confined to the window it is given, whatever the task
  put in its vectors and whichever access faults: the buffer keeps its length and every byte
  from \<open>len\<close> on, the count is at most \<open>len\<close>, and the only error is a fault.
\<close>

theorem user_iovec_to_membuf_confined:
  assumes "len \<le> length buf" "user_iovec_to_membuf um (Some buf) len uaddr n = (r, Some buf')"
  shows "length buf' = length buf \<and> drop len buf' = drop len buf \<and> r \<le> int len \<and>
    (r < 0 \<longrightarrow> r = ERR_FAULT)"
  using assms user_iovec_to_membuf_loop_bounds [of 0 len buf um uaddr 0 n r buf']
  by (auto simp: user_iovec_to_membuf_def split: if_splits prod.splits)

definition ex_umem :: umem where
  "ex_umem a = (if a = 0x100 then Some 0 else if a = 0x101 then Some 2 else if a = 0x104 then Some 3
     else if 0x100 \<le> a \<and> a < 0x108 then Some 0 else if 0x200 \<le> a \<and> a < 0x202 then Some 5 else None)"

theorem user_iovec_to_membuf_confined_witness:
  "user_iovec_to_membuf ex_umem (Some [1, 1, 1, 1]) 2 0x100 1 = (2, Some [5, 5, 1, 1]) \<and>
   (case user_iovec_to_membuf ex_umem (Some [1, 1, 1, 1]) 3 0x100 1 of
      (r, Some b) \<Rightarrow> r = ERR_FAULT \<and> drop 3 b = [1] | _ \<Rightarrow> False)"
proof -
  have "user_iovec_to_membuf ex_umem (Some [1, 1, 1, 1]) 2 0x100 1 = (2, Some [5, 5, 1, 1])"
    by code_simp
  moreover have b: "user_iovec_to_membuf ex_umem (Some [1, 1, 1, 1]) 3 0x100 1 = (ERR_FAULT, Some [5, 5, 0, 1])"
    by code_simp
  moreover have "drop 3 [5, 5, 0, 1 :: u8] = drop 3 [1, 1, 1, 1]"
    using user_iovec_to_membuf_confined [OF _ b] by simp
  ultimately show ?thesis by simp
qed

end
