(* ===== verification/Msg_Queue.thy ===== *)
theory Msg_Queue
  imports Iovec
begin

text \<open>
  The message queue of a channel endpoint: the queue half of \<^verbatim>\<open>lib/trusty/ipc_msg.c\<close>.
  A queue has a fixed number of equal-sized items; each item is on one of three
  intrusive lists (free, filled, read) and its bytes are the window of the shared
  buffer at \<open>id * item_sz\<close>. Lists hold item indices in list order.

  The locale \<open>msg_fifo\<close> is the contract: accepted messages are handed out in order,
  and a message that was handed out keeps its bytes until it is put back. The
  interpretation shows the queue implements it.
\<close>

section \<open>Definitions\<close>

datatype msg_item_state = MSG_ITEM_STATE_FREE | MSG_ITEM_STATE_FILLED | MSG_ITEM_STATE_READ

record msg_item =
  mi_id :: u8
  mi_state :: msg_item_state
  mi_num_handles :: nat
  mi_handles :: "u32 list"
  mi_len :: nat

record ipc_msg_queue =
  free_list :: "nat list"
  filled_list :: "nat list"
  read_list :: "nat list"
  num_items :: nat
  item_sz :: nat
  mq_buf :: "u8 list"
  items :: "msg_item list"

datatype msg_desc =
    KernMsg (km_iov: "iovec_kern list option") (km_num_iov: nat) (km_num_handles: nat)
  | UserMsg (um_iov: u32) (um_num_iov: nat) (um_num_handles: nat)
  | UnknownMsg

record ipc_msg_info =
  info_len :: u32
  info_id :: u32

abbreviation MAX_MSG_HANDLES :: nat where "MAX_MSG_HANDLES \<equiv> 8"

definition calloc_item :: msg_item where
  "calloc_item = \<lparr>mi_id = 0, mi_state = MSG_ITEM_STATE_FREE, mi_num_handles = 0,
     mi_handles = replicate MAX_MSG_HANDLES 0, mi_len = 0\<rparr>"

text \<open>
  Creation makes two allocations. The buffer has \<open>num_items * item_sz\<close> bytes in
  \<^verbatim>\<open>size_t\<close> arithmetic, so the product wraps at 32 bits.
\<close>

definition ipc_msg_queue_create :: "bool list \<Rightarrow> nat \<Rightarrow> nat \<Rightarrow> (int \<times> ipc_msg_queue option) \<times> bool list" where
  "ipc_msg_queue_create al n sz =
     (let (ok, al) = next_alloc al in
      if \<not> ok then ((ERR_NO_MEMORY, None), al)
      else
        let (ok', al) = next_alloc al in
        if \<not> ok' then ((ERR_NO_MEMORY, None), al)
        else ((NO_ERROR, Some
          \<lparr>free_list = [0..<n], filled_list = [], read_list = [],
           num_items = n, item_sz = sz,
           mq_buf = replicate (n * sz mod 2 ^ 32) 0,
           items = map (\<lambda>i. calloc_item\<lparr>mi_id := of_nat i\<rparr>) [0..<n]\<rparr>), al))"

definition ipc_msg_queue_is_empty :: "ipc_msg_queue \<Rightarrow> bool" where
  "ipc_msg_queue_is_empty mq = (filled_list mq = [])"

definition ipc_msg_queue_is_full :: "ipc_msg_queue \<Rightarrow> bool" where
  "ipc_msg_queue_is_full mq = (free_list mq = [])"

definition msg_queue_get_buf :: "ipc_msg_queue \<Rightarrow> msg_item \<Rightarrow> nat" where
  "msg_queue_get_buf mq item = unat (mi_id item) * item_sz mq"

definition msg_queue_get_item :: "ipc_msg_queue \<Rightarrow> u32 \<Rightarrow> nat option" where
  "msg_queue_get_item mq msg_id = (if unat msg_id < num_items mq then Some (unat msg_id) else None)"

definition list_peek_head :: "'a list \<Rightarrow> 'a option" where
  "list_peek_head xs = (case xs of [] \<Rightarrow> None | x # _ \<Rightarrow> Some x)"

text \<open>\<^verbatim>\<open>list_delete\<close> unlinks the node of an item from whichever list it is on.\<close>

definition item_list_delete :: "nat \<Rightarrow> ipc_msg_queue \<Rightarrow> ipc_msg_queue" where
  "item_list_delete i mq = mq
     \<lparr>free_list := remove1 i (free_list mq), filled_list := remove1 i (filled_list mq),
      read_list := remove1 i (read_list mq)\<rparr>"

definition update_item :: "nat \<Rightarrow> (msg_item \<Rightarrow> msg_item) \<Rightarrow> ipc_msg_queue \<Rightarrow> ipc_msg_queue" where
  "update_item i f mq = mq\<lparr>items := (items mq)[i := f (items mq ! i)]\<rparr>"

text \<open>
  The gather step of \<^verbatim>\<open>msg_write_locked\<close>: the destination is the tail of the queue
  buffer from the item on.
\<close>

definition msg_gather :: "kmem \<Rightarrow> umem \<Rightarrow> msg_desc \<Rightarrow> nat \<Rightarrow> ipc_msg_queue \<Rightarrow> int \<times> ipc_msg_queue" where
  "msg_gather m um msg off mq =
     (case msg of
        KernMsg iov n h \<Rightarrow>
          if h \<noteq> 0 then (ERR_NOT_SUPPORTED, mq)
          else let (r, w) = kern_gather (m, iov, n) (drop off (mq_buf mq)) (item_sz mq)
               in (r, mq\<lparr>mq_buf := take off (mq_buf mq) @ w\<rparr>)
      | UserMsg iov n h \<Rightarrow>
          if h \<noteq> 0 then (ERR_NOT_SUPPORTED, mq)
          else let (r, w) = user_gather (um, iov, n) (drop off (mq_buf mq)) (item_sz mq)
               in (r, mq\<lparr>mq_buf := take off (mq_buf mq) @ w\<rparr>)
      | UnknownMsg \<Rightarrow> (ERR_INVALID_ARGS, mq))"

text \<open>
  \<^verbatim>\<open>msg_write_locked\<close> on the queue of the peer. The last component says whether
  the sender is marked blocked.
\<close>

definition msg_queue_write ::
  "kmem \<Rightarrow> umem \<Rightarrow> msg_desc \<Rightarrow> ipc_msg_queue \<Rightarrow> (int \<times> ipc_msg_queue \<times> bool) option" where
  "msg_queue_write m um msg mq =
     (case list_peek_head (free_list mq) of
        None \<Rightarrow> Some (ERR_NOT_ENOUGH_BUFFER, mq, True)
      | Some i \<Rightarrow> do {
          kassert (mi_state (items mq ! i) = MSG_ITEM_STATE_FREE);
          let mq = update_item i (\<lambda>it. it\<lparr>mi_num_handles := 0, mi_len := 0\<rparr>) mq;
          let (ret, mq) = msg_gather m um msg (msg_queue_get_buf mq (items mq ! i)) mq;
          (if ret < 0 then Some (ret, mq, False)
           else do {
             let mq = update_item i (\<lambda>it. it\<lparr>mi_len := nat ret\<rparr>) mq;
             let mq = item_list_delete i mq;
             let mq = mq\<lparr>filled_list := filled_list mq @ [i]\<rparr>;
             let mq = update_item i (\<lambda>it. it\<lparr>mi_state := MSG_ITEM_STATE_FILLED\<rparr>) mq;
             Some (int (mi_len (items mq ! i)), mq, False)
           })
        })"

definition msg_read_locked ::
  "kmem \<Rightarrow> umem \<Rightarrow> ipc_msg_queue \<Rightarrow> u32 \<Rightarrow> u32 \<Rightarrow> msg_desc \<Rightarrow> int \<times> kmem \<times> umem" where
  "msg_read_locked m um mq msg_id offset msg =
     (case msg_queue_get_item mq msg_id of
        None \<Rightarrow> (ERR_INVALID_ARGS, m, um)
      | Some i \<Rightarrow>
          let item = items mq ! i in
          if mi_state item \<noteq> MSG_ITEM_STATE_READ then (ERR_INVALID_ARGS, m, um)
          else if mi_num_handles item \<noteq> 0 then (ERR_NOT_SUPPORTED, m, um)
          else if unat offset > mi_len item then (ERR_INVALID_ARGS, m, um)
          else
            let buf = drop (msg_queue_get_buf mq item + unat offset) (mq_buf mq);
                bytes_left = mi_len item - unat offset in
            case msg of
              KernMsg iov n h \<Rightarrow>
                if h \<noteq> 0 then (ERR_NOT_SUPPORTED, m, um)
                else let (r, m') = membuf_to_kern_iovec m iov n (Some buf) bytes_left in (r, m', um)
            | UserMsg iov n h \<Rightarrow>
                if h \<noteq> 0 then (ERR_NOT_SUPPORTED, m, um)
                else let (r, um') = membuf_to_user_iovec um iov n (Some buf) bytes_left in (r, m, um')
            | UnknownMsg \<Rightarrow> (ERR_INVALID_ARGS, m, um))"

definition msg_peek_next_filled_locked :: "ipc_msg_queue \<Rightarrow> ipc_msg_info \<Rightarrow> int \<times> ipc_msg_info" where
  "msg_peek_next_filled_locked mq info =
     (case list_peek_head (filled_list mq) of
        None \<Rightarrow> (ERR_NO_MSG, info)
      | Some i \<Rightarrow> (NO_ERROR, info\<lparr>info_len := of_nat (mi_len (items mq ! i)),
                                info_id := ucast (mi_id (items mq ! i))\<rparr>))"

definition msg_get_filled_locked :: "ipc_msg_queue \<Rightarrow> ipc_msg_queue option" where
  "msg_get_filled_locked mq =
     (case list_peek_head (filled_list mq) of
        None \<Rightarrow> None
      | Some i \<Rightarrow>
          let mq = item_list_delete i mq;
              mq = mq\<lparr>read_list := read_list mq @ [i]\<rparr> in
          Some (update_item i (\<lambda>it. it\<lparr>mi_state := MSG_ITEM_STATE_READ\<rparr>) mq))"

text \<open>The queue half of \<^verbatim>\<open>msg_put_read_locked\<close>; waking the peer is in the channel layer.\<close>

definition msg_queue_put_read :: "ipc_msg_queue \<Rightarrow> u32 \<Rightarrow> int \<times> ipc_msg_queue" where
  "msg_queue_put_read mq msg_id =
     (case msg_queue_get_item mq msg_id of
        None \<Rightarrow> (ERR_INVALID_ARGS, mq)
      | Some i \<Rightarrow>
          if mi_state (items mq ! i) \<noteq> MSG_ITEM_STATE_READ then (ERR_INVALID_ARGS, mq)
          else
            let mq = item_list_delete i mq;
                mq = mq\<lparr>free_list := i # free_list mq\<rparr> in
            (NO_ERROR, update_item i (\<lambda>it. it\<lparr>mi_state := MSG_ITEM_STATE_FREE\<rparr>) mq))"

section \<open>Well-formedness\<close>

definition mq_item_ok :: "ipc_msg_queue \<Rightarrow> nat \<Rightarrow> bool" where
  "mq_item_ok mq i \<longleftrightarrow> mi_id (items mq ! i) = of_nat i \<and> mi_len (items mq ! i) \<le> item_sz mq \<and>
     mi_num_handles (items mq ! i) = 0 \<and>
     mi_state (items mq ! i) =
       (if i \<in> set (free_list mq) then MSG_ITEM_STATE_FREE
        else if i \<in> set (filled_list mq) then MSG_ITEM_STATE_FILLED else MSG_ITEM_STATE_READ)"

definition mq_wf :: "ipc_msg_queue \<Rightarrow> bool" where
  "mq_wf mq \<longleftrightarrow> num_items mq \<le> 256 \<and> length (items mq) = num_items mq \<and>
     length (mq_buf mq) = num_items mq * item_sz mq \<and>
     distinct (free_list mq @ filled_list mq @ read_list mq) \<and>
     set (free_list mq @ filled_list mq @ read_list mq) = {..<num_items mq} \<and>
     list_all (mq_item_ok mq) [0..<num_items mq]"

definition msg_bytes :: "ipc_msg_queue \<Rightarrow> nat \<Rightarrow> u8 list" where
  "msg_bytes mq i = window (i * item_sz mq) (mi_len (items mq ! i)) (mq_buf mq)"

definition mq_pending :: "ipc_msg_queue \<Rightarrow> u8 list list" where
  "mq_pending mq = map (msg_bytes mq) (filled_list mq)"

definition mq_held :: "ipc_msg_queue \<Rightarrow> nat \<rightharpoonup> u8 list" where
  "mq_held mq i = (if i \<in> set (read_list mq) then Some (msg_bytes mq i) else None)"

lemma mq_wfD:
  assumes "mq_wf mq"
  shows "num_items mq \<le> 256" "length (items mq) = num_items mq"
    "length (mq_buf mq) = num_items mq * item_sz mq"
    "distinct (free_list mq)" "distinct (filled_list mq)" "distinct (read_list mq)"
    "set (free_list mq) \<inter> set (filled_list mq) = {}" "set (free_list mq) \<inter> set (read_list mq) = {}"
    "set (filled_list mq) \<inter> set (read_list mq) = {}"
    "set (free_list mq) \<union> set (filled_list mq) \<union> set (read_list mq) = {..<num_items mq}"
    "i < num_items mq \<Longrightarrow> mq_item_ok mq i"
  using assms by (auto simp: mq_wf_def list_all_iff)

lemma mq_wf_member:
  assumes "mq_wf mq"
  shows "i \<in> set (free_list mq) \<Longrightarrow> i < num_items mq" "i \<in> set (filled_list mq) \<Longrightarrow> i < num_items mq"
    "i \<in> set (read_list mq) \<Longrightarrow> i < num_items mq"
  using mq_wfD(10) [OF assms] by auto

lemma mq_id [simp]:
  assumes "mq_wf mq" "i < num_items mq"
  shows "unat (mi_id (items mq ! i)) = i" "msg_queue_get_buf mq (items mq ! i) = i * item_sz mq"
proof -
  have "mi_id (items mq ! i) = of_nat i" using mq_wfD(11) [OF assms] by (simp add: mq_item_ok_def)
  moreover have "i < 2 ^ LENGTH(8)" using mq_wfD(1) [OF assms(1)] assms(2) by simp
  ultimately show "unat (mi_id (items mq ! i)) = i" by (simp add: unat_of_nat take_bit_eq_mod)
  then show "msg_queue_get_buf mq (items mq ! i) = i * item_sz mq" by (simp add: msg_queue_get_buf_def)
qed

lemma mq_read_state:
  assumes "mq_wf mq" "i < num_items mq"
  shows "mi_state (items mq ! i) = MSG_ITEM_STATE_READ \<longleftrightarrow> i \<in> set (read_list mq)"
    and "mi_state (items mq ! i) = MSG_ITEM_STATE_FREE \<longleftrightarrow> i \<in> set (free_list mq)"
    and "mi_state (items mq ! i) = MSG_ITEM_STATE_FILLED \<longleftrightarrow> i \<in> set (filled_list mq)"
  using mq_wfD(7-11) [OF assms(1)] assms(2) by (auto simp: mq_item_ok_def split: if_splits)

lemma item_window_bound:
  "i < n \<Longrightarrow> i * sz + sz \<le> n * (sz :: nat)"
  by (metis Suc_leI add.commute mult_Suc mult_le_mono1)

lemma item_windows_apart:
  "i \<noteq> j \<Longrightarrow> i * sz + sz \<le> j * sz \<or> j * sz + sz \<le> i * (sz :: nat)"
  by (metis item_window_bound linorder_neqE_nat)

text \<open>Creation gives a well-formed, empty queue.\<close>

lemma ipc_msg_queue_create_wf:
  assumes "n \<le> 256" "n * sz < 2 ^ 32" "ipc_msg_queue_create al n sz = ((r, Some mq), al')"
  shows "mq_wf mq \<and> mq_pending mq = [] \<and> mq_held mq = Map.empty \<and> r = NO_ERROR \<and> num_items mq = n
    \<and> item_sz mq = sz \<and> free_list mq = [0..<n]"
  using assms
  by (auto simp: ipc_msg_queue_create_def mq_wf_def mq_item_ok_def calloc_item_def mq_pending_def
      mq_held_def list_all_iff Let_def split: prod.splits if_splits)

section \<open>Writing\<close>

text \<open>What a gather leaves in the queue: the item's window changes, nothing else.\<close>

definition gathered :: "kmem \<Rightarrow> umem \<Rightarrow> msg_desc \<Rightarrow> nat \<Rightarrow> ipc_msg_queue \<Rightarrow> u8 list" where
  "gathered m um msg i mq =
     (let (r, mq') = msg_gather m um msg (i * item_sz mq) mq
      in window (i * item_sz mq) (nat r) (mq_buf mq'))"

lemma msg_gather_frame:
  assumes "msg_gather m um msg off mq = (r, mq')" "off + item_sz mq \<le> length (mq_buf mq)"
  shows "mq' = mq\<lparr>mq_buf := mq_buf mq'\<rparr>" "length (mq_buf mq') = length (mq_buf mq)"
    "r \<le> int (item_sz mq)"
    "p + n \<le> off \<or> off + item_sz mq \<le> p \<Longrightarrow> window p n (mq_buf mq') = window p n (mq_buf mq)"
proof -
  let ?d = "drop off (mq_buf mq)"
  have sz: "item_sz mq \<le> length ?d" using assms(2) by simp
  have glue: "window p n (take off b @ w) = window p n b"
    if "length w = length (drop off b)" "off \<le> length b" "p + n \<le> off \<or> off + k \<le> p"
      "\<And>q n. k \<le> q \<Longrightarrow> window q n w = window q n (drop off b)"
    for b w :: "u8 list" and k
  proof (cases "p + n \<le> off")
    case True
    with that(2) show ?thesis by (simp add: window_def drop_take min_absorb1)
  next
    case False
    with that(3) have "off + k \<le> p" by simp
    with that(4) [of "p - off" n] that(2) show ?thesis
      by (simp add: window_def)
  qed
  have kern: "length w = length ?d \<and> r \<le> int (item_sz mq) \<and>
      (\<forall>q n. item_sz mq \<le> q \<longrightarrow> window q n w = window q n ?d)"
    if "kern_gather src ?d (item_sz mq) = (r, w)" for src r w
    using kg.g_length [OF sz, of src] kg.g_count [OF sz, of src] kg.g_window_other [OF sz, of _ _ src] that
    by simp
  have user: "length w = length ?d \<and> r \<le> int (item_sz mq) \<and>
      (\<forall>q n. item_sz mq \<le> q \<longrightarrow> window q n w = window q n ?d)"
    if "user_gather src ?d (item_sz mq) = (r, w)" for src r w
    using ug.g_length [OF sz, of src] ug.g_count [OF sz, of src] ug.g_window_other [OF sz, of _ _ src] that
    by simp
  have off: "off \<le> length (mq_buf mq)" using assms(2) by simp
  show "mq' = mq\<lparr>mq_buf := mq_buf mq'\<rparr>"
    using assms(1) by (auto simp: msg_gather_def split: msg_desc.splits if_splits prod.splits)
  show "length (mq_buf mq') = length (mq_buf mq)" "r \<le> int (item_sz mq)"
    using assms off by (auto simp: msg_gather_def split: msg_desc.splits if_splits prod.splits
        dest!: kern user)
  show "window p n (mq_buf mq') = window p n (mq_buf mq)"
    if "p + n \<le> off \<or> off + item_sz mq \<le> p"
    using assms(1) off that
    by (auto simp: msg_gather_def split: msg_desc.splits if_splits prod.splits
        dest!: kern user intro!: glue [where k = "item_sz mq"])
qed

text \<open>
  The three outcomes of a write: the queue is full; the gather fails and the head
  of the free list stays there, empty; or the head moves to the tail of the filled
  list with the bytes of the message.
\<close>

definition write_failed :: "nat \<Rightarrow> u8 list \<Rightarrow> ipc_msg_queue \<Rightarrow> ipc_msg_queue" where
  "write_failed i b mq = mq
     \<lparr>items := (items mq)[i := (items mq ! i)\<lparr>mi_num_handles := 0, mi_len := 0\<rparr>], mq_buf := b\<rparr>"

definition write_done :: "nat \<Rightarrow> nat \<Rightarrow> u8 list \<Rightarrow> ipc_msg_queue \<Rightarrow> ipc_msg_queue" where
  "write_done i len b mq = mq
     \<lparr>items := (items mq)[i := (items mq ! i)
        \<lparr>mi_num_handles := 0, mi_len := len, mi_state := MSG_ITEM_STATE_FILLED\<rparr>],
      mq_buf := b, free_list := tl (free_list mq), filled_list := filled_list mq @ [i]\<rparr>"

definition buf_changed_at :: "nat \<Rightarrow> ipc_msg_queue \<Rightarrow> u8 list \<Rightarrow> bool" where
  "buf_changed_at i mq b \<longleftrightarrow> length b = length (mq_buf mq) \<and>
     (\<forall>p n. p + n \<le> i * item_sz mq \<or> i * item_sz mq + item_sz mq \<le> p \<longrightarrow>
        window p n b = window p n (mq_buf mq))"

lemma msg_gather_items [simp]:
  "msg_gather m um msg off (mq\<lparr>items := x\<rparr>) =
     (case msg_gather m um msg off mq of (r, mq') \<Rightarrow> (r, mq'\<lparr>items := x\<rparr>))"
  by (auto simp: msg_gather_def split: msg_desc.splits prod.splits)

lemma msg_queue_write_cases [consumes 1, case_names full failed written]:
  assumes wf: "mq_wf mq"
  obtains "free_list mq = []" "msg_queue_write m um msg mq = Some (ERR_NOT_ENOUGH_BUFFER, mq, True)"
  | i fs r mq' where "free_list mq = i # fs" "i < num_items mq"
      "msg_gather m um msg (i * item_sz mq) mq = (r, mq')" "r < 0" "buf_changed_at i mq (mq_buf mq')"
      "msg_queue_write m um msg mq = Some (r, write_failed i (mq_buf mq') mq, False)"
  | i fs len mq' where "free_list mq = i # fs" "i < num_items mq" "len \<le> item_sz mq"
      "msg_gather m um msg (i * item_sz mq) mq = (int len, mq')" "buf_changed_at i mq (mq_buf mq')"
      "msg_queue_write m um msg mq = Some (int len, write_done i len (mq_buf mq') mq, False)"
proof (cases "free_list mq")
  case Nil
  then show ?thesis using that(1) by (simp add: msg_queue_write_def list_peek_head_def)
next
  case (Cons i fs)
  then have i: "i < num_items mq" "i \<in> set (free_list mq)" using mq_wf_member [OF wf] by auto
  have free: "mi_state (items mq ! i) = MSG_ITEM_STATE_FREE" using mq_read_state(2) [OF wf i(1)] i(2) by simp
  have notin: "i \<notin> set fs" "i \<notin> set (filled_list mq)" "i \<notin> set (read_list mq)"
    using mq_wfD(4,7,8) [OF wf] Cons by auto
  have len: "i < length (items mq)" using mq_wfD(2) [OF wf] i by simp
  have id: "unat (mi_id (items mq ! i)) = i" using wf i by simp
  obtain r mq' where g: "msg_gather m um msg (i * item_sz mq) mq = (r, mq')" by force
  have bound: "i * item_sz mq + item_sz mq \<le> length (mq_buf mq)"
    using item_window_bound [OF i(1)] mq_wfD(3) [OF wf] by simp
  note frame = msg_gather_frame [OF g bound]
  have ch: "buf_changed_at i mq (mq_buf mq')" using frame(2,4) by (simp add: buf_changed_at_def)
  define b where "b = mq_buf mq'"
  have mq': "mq' = mq\<lparr>mq_buf := b\<rparr>" using frame(1) b_def by simp
  show ?thesis
  proof (cases "r < 0")
    case True
    have "msg_queue_write m um msg mq = Some (r, write_failed i (mq_buf mq') mq, False)"
      using True Cons free len id g mq'
      by (simp add: msg_queue_write_def list_peek_head_def update_item_def msg_queue_get_buf_def
          write_failed_def)
    with that(2) Cons i(1) g True ch show ?thesis by blast
  next
    case False
    have "msg_queue_write m um msg mq = Some (int (nat r), write_done i (nat r) (mq_buf mq') mq, False)"
      using False Cons free len id g mq' notin
      by (simp add: msg_queue_write_def list_peek_head_def update_item_def msg_queue_get_buf_def
          write_done_def item_list_delete_def remove1_idem)
    with that(3) [of i fs "nat r" mq'] Cons i(1) g False ch frame(3) show ?thesis by auto
  qed
qed

lemma mq_wf_write_failed:
  assumes wf: "mq_wf mq" and "i < num_items mq" "length b = length (mq_buf mq)"
  shows "mq_wf (write_failed i b mq)"
proof -
  have "mq_item_ok (write_failed i b mq) j" if "j < num_items mq" for j
    using mq_wfD(11) [OF wf that] assms(2) mq_wfD(2) [OF wf] that
    by (cases "j = i") (auto simp: mq_item_ok_def write_failed_def)
  with wf assms show ?thesis by (auto simp: mq_wf_def write_failed_def list_all_iff)
qed

lemma mq_wf_write_done:
  assumes wf: "mq_wf mq" and "free_list mq = i # fs" "len \<le> item_sz mq" "length b = length (mq_buf mq)"
  shows "mq_wf (write_done i len b mq)"
proof -
  have i: "i < num_items mq" using mq_wf_member(1) [OF wf] assms(2) by simp
  have "mq_item_ok (write_done i len b mq) j" if "j < num_items mq" for j
    using mq_wfD(11) [OF wf that] i mq_wfD(2,4) [OF wf] that assms(2,3)
    by (cases "j = i") (auto simp: mq_item_ok_def write_done_def)
  with wf assms show ?thesis by (auto simp: mq_wf_def write_done_def list_all_iff)
qed

lemma msg_bytes_buf_changed:
  assumes "mq_wf mq" "buf_changed_at i mq b" "j < num_items mq" "j \<noteq> i"
  shows "window (j * item_sz mq) (mi_len (items mq ! j)) b = msg_bytes mq j"
proof -
  have "mi_len (items mq ! j) \<le> item_sz mq"
    using mq_wfD(11) [OF assms(1,3)] by (simp add: mq_item_ok_def)
  with item_windows_apart [OF assms(4), of "item_sz mq"]
  have "j * item_sz mq + mi_len (items mq ! j) \<le> i * item_sz mq \<or>
      i * item_sz mq + item_sz mq \<le> j * item_sz mq" by linarith
  with assms(2) show ?thesis unfolding msg_bytes_def buf_changed_at_def by blast
qed

lemma write_failed_abs:
  assumes "mq_wf mq" "free_list mq = i # fs" "buf_changed_at i mq b"
  shows "mq_pending (write_failed i b mq) = mq_pending mq" "mq_held (write_failed i b mq) = mq_held mq"
proof -
  have "msg_bytes (write_failed i b mq) j = msg_bytes mq j"
    if "j \<in> set (filled_list mq) \<union> set (read_list mq)" for j
  proof -
    have "j \<noteq> i" "j < num_items mq"
      using that assms(2) mq_wfD(7,8) [OF assms(1)] mq_wf_member [OF assms(1)] by auto
    with msg_bytes_buf_changed [OF assms(1,3)] show ?thesis
      by (simp add: msg_bytes_def write_failed_def)
  qed
  then show "mq_pending (write_failed i b mq) = mq_pending mq"
    "mq_held (write_failed i b mq) = mq_held mq"
    by (auto simp: mq_pending_def mq_held_def write_failed_def fun_eq_iff)
qed

lemma write_done_abs:
  assumes "mq_wf mq" "free_list mq = i # fs" "buf_changed_at i mq b"
  shows "mq_pending (write_done i len b mq) = mq_pending mq @ [window (i * item_sz mq) len b]"
    "mq_held (write_done i len b mq) = mq_held mq"
proof -
  have i: "i < length (items mq)" using mq_wf_member(1) [OF assms(1)] assms(2) mq_wfD(2) [OF assms(1)] by simp
  have "msg_bytes (write_done i len b mq) j = msg_bytes mq j"
    if "j \<in> set (filled_list mq) \<union> set (read_list mq)" for j
  proof -
    have "j \<noteq> i" "j < num_items mq"
      using that assms(2) mq_wfD(7,8) [OF assms(1)] mq_wf_member [OF assms(1)] by auto
    with msg_bytes_buf_changed [OF assms(1,3)] show ?thesis
      by (simp add: msg_bytes_def write_done_def)
  qed
  moreover have "msg_bytes (write_done i len b mq) i = window (i * item_sz mq) len b"
    using i by (simp add: msg_bytes_def write_done_def)
  ultimately show "mq_pending (write_done i len b mq) = mq_pending mq @ [window (i * item_sz mq) len b]"
    "mq_held (write_done i len b mq) = mq_held mq"
    by (auto simp: mq_pending_def mq_held_def write_done_def fun_eq_iff)
qed

section \<open>Taking the head and putting it back\<close>

definition get_done :: "nat \<Rightarrow> ipc_msg_queue \<Rightarrow> ipc_msg_queue" where
  "get_done i mq = mq
     \<lparr>items := (items mq)[i := (items mq ! i)\<lparr>mi_state := MSG_ITEM_STATE_READ\<rparr>],
      filled_list := tl (filled_list mq), read_list := read_list mq @ [i]\<rparr>"

definition put_done :: "nat \<Rightarrow> ipc_msg_queue \<Rightarrow> ipc_msg_queue" where
  "put_done i mq = mq
     \<lparr>items := (items mq)[i := (items mq ! i)\<lparr>mi_state := MSG_ITEM_STATE_FREE\<rparr>],
      free_list := i # free_list mq, read_list := remove1 i (read_list mq)\<rparr>"

lemma msg_get_filled_eq:
  assumes wf: "mq_wf mq" and hd: "filled_list mq = i # fs"
  shows "msg_get_filled_locked mq = Some (get_done i mq)"
proof -
  have "i \<notin> set (free_list mq)" "i \<notin> set (read_list mq)" using mq_wfD(7,9) [OF wf] hd by auto
  with hd show ?thesis
    by (simp add: msg_get_filled_locked_def list_peek_head_def item_list_delete_def update_item_def
        get_done_def remove1_idem)
qed

lemma mq_wf_get_done:
  assumes wf: "mq_wf mq" and hd: "filled_list mq = i # fs"
  shows "mq_wf (get_done i mq)"
proof -
  have i: "i < num_items mq" using mq_wf_member(2) [OF wf] hd by simp
  have "mq_item_ok (get_done i mq) j" if "j < num_items mq" for j
    using mq_wfD(11) [OF wf that] i mq_wfD(2,5,7) [OF wf] that hd
    by (cases "j = i") (auto simp: mq_item_ok_def get_done_def)
  with wf hd show ?thesis by (auto simp: mq_wf_def get_done_def list_all_iff)
qed

lemma get_done_abs:
  assumes wf: "mq_wf mq" and hd: "filled_list mq = i # fs"
  shows "mq_pending mq = msg_bytes mq i # mq_pending (get_done i mq)"
    "mq_held (get_done i mq) = (mq_held mq)(i \<mapsto> msg_bytes mq i)"
proof -
  have "msg_bytes (get_done i mq) j = msg_bytes mq j" for j
    using mq_wfD(2) [OF wf] mq_wf_member(2) [OF wf] hd
    by (cases "j = i") (simp_all add: msg_bytes_def get_done_def)
  then show "mq_pending mq = msg_bytes mq i # mq_pending (get_done i mq)"
    "mq_held (get_done i mq) = (mq_held mq)(i \<mapsto> msg_bytes mq i)"
    using hd by (auto simp: mq_pending_def mq_held_def get_done_def fun_eq_iff)
qed

lemma msg_queue_put_read_eq:
  assumes wf: "mq_wf mq"
  shows "msg_queue_put_read mq msg_id =
    (if unat msg_id \<in> set (read_list mq) then (NO_ERROR, put_done (unat msg_id) mq)
     else (ERR_INVALID_ARGS, mq))"
proof (cases "unat msg_id \<in> set (read_list mq)")
  case True
  then have "unat msg_id < num_items mq" using mq_wf_member(3) [OF wf] by simp
  moreover have "unat msg_id \<notin> set (free_list mq)" "unat msg_id \<notin> set (filled_list mq)"
    using mq_wfD(8,9) [OF wf] True by auto
  ultimately show ?thesis using True mq_read_state(1) [OF wf]
    by (simp add: msg_queue_put_read_def msg_queue_get_item_def item_list_delete_def update_item_def
        put_done_def remove1_idem)
next
  case False
  with mq_read_state(1) [OF wf] show ?thesis
    by (simp add: msg_queue_put_read_def msg_queue_get_item_def)
qed

lemma mq_wf_put_done:
  assumes wf: "mq_wf mq" and i: "i \<in> set (read_list mq)"
  shows "mq_wf (put_done i mq)"
proof -
  have lt: "i < num_items mq" using mq_wf_member(3) [OF wf i] .
  have nf: "i \<notin> set (free_list mq)" "i \<notin> set (filled_list mq)" using mq_wfD(8,9) [OF wf] i by auto
  have rd: "set (remove1 i (read_list mq)) = set (read_list mq) - {i}"
    using mq_wfD(6) [OF wf] by simp
  have "mq_item_ok (put_done i mq) j" if "j < num_items mq" for j
    using mq_wfD(11) [OF wf that] lt mq_wfD(2) [OF wf] that nf
    by (cases "j = i") (auto simp: mq_item_ok_def put_done_def)
  moreover have "distinct (i # free_list mq @ filled_list mq @ remove1 i (read_list mq))"
    using mq_wfD(4-9) [OF wf] nf rd by (auto intro: distinct_remove1)
  moreover have "set (i # free_list mq @ filled_list mq @ remove1 i (read_list mq)) = {..<num_items mq}"
    using mq_wfD(10) [OF wf] rd lt by auto
  ultimately show ?thesis using wf
    by (simp add: mq_wf_def put_done_def list_all_iff del: set_remove1_eq)
qed

lemma put_done_abs:
  assumes wf: "mq_wf mq" and i: "i \<in> set (read_list mq)"
  shows "mq_pending (put_done i mq) = mq_pending mq"
    "mq_held (put_done i mq) = (mq_held mq)(i := None)"
proof -
  have "msg_bytes (put_done i mq) j = msg_bytes mq j" for j
    using mq_wfD(2) [OF wf] mq_wf_member(3) [OF wf i]
    by (cases "j = i") (simp_all add: msg_bytes_def put_done_def)
  moreover have "set (remove1 i (read_list mq)) = set (read_list mq) - {i}"
    using mq_wfD(6) [OF wf] by simp
  ultimately show "mq_pending (put_done i mq) = mq_pending mq"
    "mq_held (put_done i mq) = (mq_held mq)(i := None)"
    by (auto simp: mq_pending_def mq_held_def put_done_def fun_eq_iff)
qed

section \<open>The contract of a message queue\<close>

text \<open>
  \<open>send d q\<close> returns the message it accepted, if any; \<open>get q\<close> the id and the bytes of
  the message it handed out; \<open>put i q\<close> whether the id was handed out.
\<close>

datatype 'd mq_op = Send 'd | Get | Put nat

locale msg_fifo =
  fixes invar :: "'q \<Rightarrow> bool"
    and pending :: "'q \<Rightarrow> 'm list"
    and held :: "'q \<Rightarrow> nat \<rightharpoonup> 'm"
    and send :: "'d \<Rightarrow> 'q \<Rightarrow> 'm option \<times> 'q"
    and get :: "'q \<Rightarrow> (nat \<times> 'm) option \<times> 'q"
    and put :: "nat \<Rightarrow> 'q \<Rightarrow> bool \<times> 'q"
  assumes send_law: "invar q \<Longrightarrow> send d q = (a, q') \<Longrightarrow>
      invar q' \<and> pending q' = pending q @ (case a of None \<Rightarrow> [] | Some x \<Rightarrow> [x]) \<and> held q' = held q"
    and get_law: "invar q \<Longrightarrow> get q = (h, q') \<Longrightarrow>
      invar q' \<and> (case h of None \<Rightarrow> pending q = [] \<and> q' = q
        | Some (i, x) \<Rightarrow> pending q = x # pending q' \<and> held q i = None \<and> held q' = (held q)(i \<mapsto> x))"
    and put_law: "invar q \<Longrightarrow> put i q = (b, q') \<Longrightarrow>
      invar q' \<and> b = (held q i \<noteq> None) \<and> pending q' = pending q \<and> held q' = (held q)(i := None)"
begin

text \<open>A run: the final queue, the accepted messages and the delivered ones, in order.\<close>

fun run :: "'d mq_op list \<Rightarrow> 'q \<Rightarrow> 'q \<times> 'm list \<times> 'm list" where
  "run [] q = (q, [], [])"
| "run (Send d # ops) q =
     (let (a, q') = send d q; (q'', s, g) = run ops q'
      in (q'', (case a of None \<Rightarrow> s | Some x \<Rightarrow> x # s), g))"
| "run (Get # ops) q =
     (let (a, q') = get q; (q'', s, g) = run ops q'
      in (q'', s, (case a of None \<Rightarrow> g | Some (i, x) \<Rightarrow> x # g)))"
| "run (Put i # ops) q = (let (b, q') = put i q in run ops q')"

lemma run_invar: "invar q \<Longrightarrow> invar (fst (run ops q))"
proof (induction ops q rule: run.induct)
  case (2 d ops q)
  then show ?case using send_law by (auto split: prod.splits option.splits)
next
  case (3 ops q)
  then show ?case using get_law by (auto split: prod.splits option.splits)
next
  case (4 i ops q)
  then show ?case using put_law by (auto split: prod.splits)
qed simp

lemma run_fifo:
  "invar q \<Longrightarrow> run ops q = (q', sent, got) \<Longrightarrow> pending q @ sent = got @ pending q'"
proof (induction ops q arbitrary: q' sent got rule: run.induct)
  case (2 d ops q)
  then show ?case using send_law by (fastforce split: prod.splits option.splits)
next
  case (3 ops q)
  then show ?case using get_law by (fastforce split: prod.splits option.splits)
next
  case (4 i ops q)
  then show ?case using put_law by (fastforce split: prod.splits)
qed simp

lemma run_held:
  "invar q \<Longrightarrow> held q i = Some x \<Longrightarrow> Put i \<notin> set ops \<Longrightarrow> held (fst (run ops q)) i = Some x"
proof (induction ops q rule: run.induct)
  case (2 d ops q)
  then show ?case using send_law by (auto split: prod.splits option.splits)
next
  case (3 ops q)
  obtain a q' where g: "get q = (a, q')" by force
  with 3(2) get_law have inv: "invar q'" by blast
  have "held q' i = Some x" using get_law [OF 3(2) g] 3(3) by (cases a) auto
  with 3(1) [OF refl g [symmetric] inv] 3(4) g inv show ?case
    by (auto split: prod.splits option.splits)
next
  case (4 j ops q)
  then show ?case using put_law by (auto split: prod.splits)
qed simp

end

text \<open>The queue as such a component, by its own operations.\<close>

definition mq_send :: "kmem \<times> umem \<times> msg_desc \<Rightarrow> ipc_msg_queue \<Rightarrow> u8 list option \<times> ipc_msg_queue" where
  "mq_send d mq = (case d of (m, um, msg) \<Rightarrow>
     case msg_queue_write m um msg mq of
       None \<Rightarrow> (None, mq)
     | Some (r, mq', _) \<Rightarrow>
         (if r < 0 then None else Some (gathered m um msg (hd (free_list mq)) mq), mq'))"

definition mq_get :: "ipc_msg_queue \<Rightarrow> (nat \<times> u8 list) option \<times> ipc_msg_queue" where
  "mq_get mq = (case msg_get_filled_locked mq of
       None \<Rightarrow> (None, mq)
     | Some mq' \<Rightarrow> (let i = hd (filled_list mq) in (Some (i, msg_bytes mq i), mq')))"

definition mq_put :: "nat \<Rightarrow> ipc_msg_queue \<Rightarrow> bool \<times> ipc_msg_queue" where
  "mq_put i mq = (if i < 2 ^ 32 then
       let (r, mq') = msg_queue_put_read mq (of_nat i) in (r = NO_ERROR, mq') else (False, mq))"

interpretation mqf: msg_fifo mq_wf mq_pending mq_held mq_send mq_get mq_put
proof
  fix q d a q'
  assume wf: "mq_wf q" and s: "mq_send d q = (a, q')"
  obtain m um msg where d: "d = (m, um, msg)" by (cases d) auto
  from wf show "mq_wf q' \<and> mq_pending q' = mq_pending q @ (case a of None \<Rightarrow> [] | Some x \<Rightarrow> [x])
      \<and> mq_held q' = mq_held q"
  proof (cases rule: msg_queue_write_cases [where m = m and um = um and msg = msg])
    case full
    with s d wf show ?thesis by (auto simp: mq_send_def)
  next
    case (failed i fs r mq')
    then have eq: "a = None" "q' = write_failed i (mq_buf mq') q"
      using s d by (auto simp: mq_send_def)
    moreover have "length (mq_buf mq') = length (mq_buf q)" using failed(5) by (simp add: buf_changed_at_def)
    ultimately show ?thesis
      using mq_wf_write_failed [OF wf failed(2)] write_failed_abs [OF wf failed(1,5)] by simp
  next
    case (written i fs len mq')
    then have eq: "a = Some (gathered m um msg i q)" "q' = write_done i len (mq_buf mq') q"
      using s d by (auto simp: mq_send_def)
    moreover have "gathered m um msg i q = window (i * item_sz q) len (mq_buf mq')"
      using written(4) by (simp add: gathered_def)
    moreover have "length (mq_buf mq') = length (mq_buf q)" using written(5) by (simp add: buf_changed_at_def)
    ultimately show ?thesis
      using mq_wf_write_done [OF wf written(1,3)] write_done_abs [OF wf written(1,5)] by simp
  qed
next
  fix q a q'
  assume wf: "mq_wf q" and g: "mq_get q = (a, q')"
  show "mq_wf q' \<and> (case a of None \<Rightarrow> mq_pending q = [] \<and> q' = q
      | Some (i, x) \<Rightarrow> mq_pending q = x # mq_pending q' \<and> mq_held q i = None \<and> mq_held q' = (mq_held q)(i \<mapsto> x))"
  proof (cases "filled_list q")
    case Nil
    with g wf show ?thesis
      by (auto simp: mq_get_def msg_get_filled_locked_def list_peek_head_def mq_pending_def)
  next
    case (Cons i fs)
    have "mq_held q i = None" using mq_wfD(9) [OF wf] Cons by (auto simp: mq_held_def)
    with g msg_get_filled_eq [OF wf Cons] mq_wf_get_done [OF wf Cons] get_done_abs [OF wf Cons] Cons
    show ?thesis by (auto simp: mq_get_def)
  qed
next
  fix q i b q'
  assume wf: "mq_wf q" and p: "mq_put i q = (b, q')"
  have big: "mq_held q i = None" if "\<not> i < 2 ^ 32"
    using that mq_wf_member(3) [OF wf, of i] mq_wfD(1) [OF wf] by (auto simp: mq_held_def)
  show "mq_wf q' \<and> b = (mq_held q i \<noteq> None) \<and> mq_pending q' = mq_pending q \<and> mq_held q' = (mq_held q)(i := None)"
  proof (cases "i < 2 ^ 32")
    case True
    then have id: "unat (of_nat i :: u32) = i" by (simp add: unat_of_nat take_bit_eq_mod)
    show ?thesis
    proof (cases "i \<in> set (read_list q)")
      case rd: True
      with p True id msg_queue_put_read_eq [OF wf, of "of_nat i"] mq_wf_put_done [OF wf rd] put_done_abs [OF wf rd]
      show ?thesis by (auto simp: mq_put_def mq_held_def [of q i])
    next
      case False
      with p True id msg_queue_put_read_eq [OF wf, of "of_nat i"] wf show ?thesis
        by (auto simp: mq_put_def mq_held_def fun_eq_iff)
    qed
  next
    case False
    with p big wf show ?thesis by (auto simp: mq_put_def fun_eq_iff)
  qed
qed

section \<open>Properties\<close>

text \<open>
  C3: in every run of sends (from kernel or user memory, accepted or refused), gets and
  puts on a freshly created queue, the messages handed out, followed by those still queued,
  are exactly the accepted messages in the order they were sent, and the queue stays
  well-formed.
\<close>

theorem msg_queue_fifo:
  assumes "n \<le> 256" "n * sz < 2 ^ 32" "ipc_msg_queue_create al n sz = ((r, Some mq), al')"
    and "mqf.run ops mq = (mq', sent, got)"
  shows "sent = got @ mq_pending mq' \<and> mq_wf mq'"
  using ipc_msg_queue_create_wf [OF assms(1-3)] mqf.run_fifo [OF _ assms(4)]
    mqf.run_invar [of mq ops] assms(4) by simp

definition ex_msg :: msg_desc where
  "ex_msg = KernMsg (Some [\<lparr>ik_base = 16, ik_len = 2\<rparr>]) 1 0"

theorem msg_queue_fifo_witness:
  "case ipc_msg_queue_create [] 2 4 of ((r, Some mq), _) \<Rightarrow>
     (case mqf.run [Send (ex_mem, Map.empty, ex_msg), Get] mq of
        (mq', sent, got) \<Rightarrow> sent = got @ mq_pending mq' \<and> mq_wf mq')
   | _ \<Rightarrow> False"
proof -
  have "\<exists>mq. ipc_msg_queue_create [] 2 4 = ((0, Some mq), [])"
    by (simp add: ipc_msg_queue_create_def)
  then obtain mq where mq: "ipc_msg_queue_create [] 2 4 = ((0, Some mq), [])" by blast
  obtain mq' sent got where
    run: "mqf.run [Send (ex_mem, Map.empty, ex_msg), Get] mq = (mq', sent, got)"
    by (cases "mqf.run [Send (ex_mem, Map.empty, ex_msg), Get] mq") auto
  from msg_queue_fifo [OF _ _ mq run] mq run show ?thesis by simp
qed

text \<open>
  C13: a message that was handed out keeps its bytes until it is put back: no later send,
  get or put of another message changes them, so a reader never sees another message.
\<close>

theorem msg_queue_held_stable:
  assumes "mq_wf mq" "mq_held mq i = Some bytes" "Put i \<notin> set ops"
  shows "mq_held (fst (mqf.run ops mq)) i = Some bytes"
  using assms by (rule mqf.run_held)

definition ex_mq :: ipc_msg_queue where
  "ex_mq = \<lparr>free_list = [1], filled_list = [], read_list = [0], num_items = 2, item_sz = 2,
     mq_buf = [4, 5, 0, 0],
     items = [calloc_item\<lparr>mi_len := 2, mi_state := MSG_ITEM_STATE_READ\<rparr>, calloc_item\<lparr>mi_id := 1\<rparr>]\<rparr>"

lemma ex_mq_wf: "mq_wf ex_mq"
proof -
  have "{..<2::nat} = {1, 0}" by auto
  then show ?thesis
    by (simp add: mq_wf_def ex_mq_def mq_item_ok_def calloc_item_def numeral_2_eq_2)
qed

theorem msg_queue_held_stable_witness:
  "mq_held (fst (mqf.run [Send (ex_mem, Map.empty, ex_msg), Get, Put 1] ex_mq)) 0 = Some [4, 5]"
proof -
  have "mq_held ex_mq 0 = Some [4, 5]"
    by (simp add: mq_held_def ex_mq_def msg_bytes_def window_def calloc_item_def)
  then show ?thesis by (intro msg_queue_held_stable [OF ex_mq_wf]) simp_all
qed

text \<open>
  C14: reading a handed-out message into disjoint kernel vectors delivers its bytes from
  the requested offset, as many as the vectors hold, and leaves user memory alone.
\<close>

theorem msg_read_locked_delivers:
  assumes "mq_wf mq" "mq_held mq (unat msg_id) = Some bytes" "unat offset \<le> length bytes"
    and "iov_valid (take n vs)" "iov_disjoint (take n vs)"
    and "msg_read_locked m um mq msg_id offset (KernMsg (Some vs) n 0) = (r, m', um')"
  shows "r = int (min (length bytes - unat offset) (length (iov_data m (take n vs)))) \<and>
    take (nat r) (iov_data m' (take n vs)) = take (nat r) (drop (unat offset) bytes) \<and> um' = um"
proof -
  let ?i = "unat msg_id" and ?item = "items mq ! unat msg_id" and ?o = "unat offset"
  have rd: "?i \<in> set (read_list mq)" and bytes: "bytes = msg_bytes mq ?i"
    using assms(2) by (auto simp: mq_held_def split: if_splits)
  have i: "?i < num_items mq" using mq_wf_member(3) [OF assms(1) rd] .
  have ok: "mi_len ?item \<le> item_sz mq" "mi_num_handles ?item = 0"
    using mq_wfD(11) [OF assms(1) i] by (simp_all add: mq_item_ok_def)
  have fit: "?i * item_sz mq + item_sz mq \<le> length (mq_buf mq)"
    using item_window_bound [OF i] mq_wfD(3) [OF assms(1)] by simp
  have len: "length bytes = mi_len ?item" using ok fit by (simp add: bytes msg_bytes_def window_def)
  let ?src = "drop (?i * item_sz mq + ?o) (mq_buf mq)" and ?k = "mi_len ?item - ?o"
  have read: "membuf_to_kern_iovec m (Some vs) n (Some ?src) ?k = (r, m')" and um: "um' = um"
    using assms(3,6) mq_read_state(1) [OF assms(1) i] rd i ok len assms(1)
    by (auto simp: msg_read_locked_def msg_queue_get_item_def split: prod.splits)
  have src: "take ?k ?src = drop ?o bytes"
    by (simp add: bytes msg_bytes_def window_def drop_take add.commute)
  show ?thesis
  proof (cases "n = 0 \<or> ?k = 0")
    case True
    with read have "r = 0" by (auto simp: membuf_to_kern_iovec_def)
    with True um len show ?thesis by auto
  next
    case False
    have "?k \<le> length ?src" using fit ok(1) by simp
    from membuf_to_kern_iovec_loop_data [OF assms(4,5) _ this, of m 0] False read
    have r: "r = int (min ?k (length (iov_data m (take n vs))))"
      and d: "take ?k (iov_data m' (take n vs)) = take (nat r) ?src"
      by (auto simp: membuf_to_kern_iovec_def)
    have "take (nat r) (iov_data m' (take n vs)) = take (nat r) (take ?k (iov_data m' (take n vs)))"
      using r by (simp add: min_def)
    also have "\<dots> = take (nat r) (take ?k ?src)" using d r by (simp add: min_def)
    finally show ?thesis using r um src len by simp
  qed
qed

theorem msg_read_locked_delivers_witness:
  "case msg_read_locked ex_mem Map.empty ex_mq 0 1 (KernMsg (Some [\<lparr>ik_base = 64, ik_len = 8\<rparr>]) 1 0) of
     (r, m', um') \<Rightarrow> r = 1 \<and> mem_read m' 64 1 = [5] \<and> um' = Map.empty"
proof -
  let ?vs = "[\<lparr>ik_base = 64, ik_len = 8\<rparr>] :: iovec_kern list"
  obtain r m' um' where
    read: "msg_read_locked ex_mem Map.empty ex_mq 0 1 (KernMsg (Some ?vs) 1 0) = (r, m', um')"
    by (cases "msg_read_locked ex_mem Map.empty ex_mq 0 1 (KernMsg (Some ?vs) 1 0)") auto
  have held: "mq_held ex_mq (unat (0 :: u32)) = Some [4, 5]"
    by (simp add: mq_held_def ex_mq_def msg_bytes_def window_def calloc_item_def)
  have "iov_valid (take 1 ?vs)" "iov_disjoint (take 1 ?vs)"
    by (simp_all add: iov_valid_def)
  from msg_read_locked_delivers [OF ex_mq_wf held _ this read] read show ?thesis
    by (auto simp: take_mem_read)
qed

end
