(* ===== verification/Ipc.thy ===== *)
theory Ipc
  imports Handle Msg_Queue
begin

text \<open>
  Ports and channels: \<^verbatim>\<open>lib/trusty/ipc.c\<close> and \<^verbatim>\<open>include/reflist.h\<close>.

  The kernel state extends the handle state with the heap of ports and channels, the
  list of published ports, the list of channels waiting for a port to appear, and the
  allocation oracle. Every routine runs under \<^verbatim>\<open>ipc_lock\<close>, so it is one step on the
  state; a failed assertion, a NULL dereference and an access to freed memory are \<open>None\<close>.
  Objects are named by numbers that are never reused.

  The references to a channel are the reference list of its object: the handle, the
  list node and the local variable of the running routine refer to the channel itself,
  \<open>PeerRef d\<close> is the peer reference embedded in channel \<open>d\<close>.
\<close>

section \<open>Definitions\<close>

datatype hid = PortH nat | ChanH nat

datatype ipc_ops = ipc_port_handle_ops | ipc_chan_handle_ops

text \<open>Identities are compared by address: \<^verbatim>\<open>&zero_uuid\<close> is the identity of non-secure clients.\<close>

datatype uuid_ptr = NullUuid | ZeroUuid | AppUuid nat

datatype port_state = IPC_PORT_STATE_INVALID | IPC_PORT_STATE_LISTENING | IPC_PORT_STATE_CLOSING

datatype chan_state = IPC_CHAN_STATE_INVALID | IPC_CHAN_STATE_ACCEPTING | IPC_CHAN_STATE_CONNECTING
  | IPC_CHAN_STATE_CONNECTED | IPC_CHAN_STATE_DISCONNECTING | IPC_CHAN_STATE_WAITING_FOR_PORT

datatype chan_ref = TmpRef | HandleRef | NodeRef | PeerRef nat

datatype node_link = Unlinked | OnWaiting | OnPending nat

abbreviation IPC_PORT_ALLOW_TA_CONNECT :: u32 where "IPC_PORT_ALLOW_TA_CONNECT \<equiv> 0x1"
abbreviation IPC_PORT_ALLOW_NS_CONNECT :: u32 where "IPC_PORT_ALLOW_NS_CONNECT \<equiv> 0x2"
abbreviation IPC_CHAN_FLAG_SERVER :: u32 where "IPC_CHAN_FLAG_SERVER \<equiv> 0x1"
abbreviation IPC_CHAN_AUX_STATE_SEND_BLOCKED :: u32 where "IPC_CHAN_AUX_STATE_SEND_BLOCKED \<equiv> 0x1"
abbreviation IPC_CHAN_AUX_STATE_SEND_UNBLOCKED :: u32 where "IPC_CHAN_AUX_STATE_SEND_UNBLOCKED \<equiv> 0x2"
abbreviation IPC_CHAN_AUX_STATE_CONNECTED :: u32 where "IPC_CHAN_AUX_STATE_CONNECTED \<equiv> 0x4"
abbreviation IPC_CONNECT_WAIT_FOR_PORT :: u32 where "IPC_CONNECT_WAIT_FOR_PORT \<equiv> 0x1"
abbreviation IPC_CONNECT_ASYNC :: u32 where "IPC_CONNECT_ASYNC \<equiv> 0x2"
abbreviation IPC_CHAN_MAX_BUFS :: nat where "IPC_CHAN_MAX_BUFS \<equiv> 32"
abbreviation IPC_CHAN_MAX_BUF_SIZE :: nat where "IPC_CHAN_MAX_BUF_SIZE \<equiv> 4096"
abbreviation IPC_PORT_PATH_MAX :: nat where "IPC_PORT_PATH_MAX \<equiv> 64"

record ipc_port =
  po_path :: string
  po_uuid :: uuid_ptr
  po_state :: port_state
  po_flags :: u32
  num_recv_bufs :: nat
  recv_buf_size :: nat
  pending_list :: "nat list"

record ipc_chan =
  refobj :: "chan_ref list"
  peer_ref :: bool
  peer :: "nat option"
  ch_uuid :: uuid_ptr
  ch_state :: chan_state
  ch_flags :: u32
  aux_state :: u32
  ch_node :: node_link
  msg_queue :: "ipc_msg_queue option"
  ch_path :: "string option"

record kern = "(hid, ipc_ops) hstate" +
  chans :: "nat \<rightharpoonup> ipc_chan"
  ports :: "nat \<rightharpoonup> ipc_port"
  waiting_for_port_chan_list :: "nat list"
  ipc_port_list :: "nat list"
  next_chan :: nat
  next_port :: nat
  alloc :: "bool list"

definition update_chan :: "nat \<Rightarrow> (ipc_chan \<Rightarrow> ipc_chan) \<Rightarrow> kern \<Rightarrow> kern option" where
  "update_chan c f k = (case chans k c of
     None \<Rightarrow> None | Some ch \<Rightarrow> Some (k\<lparr>chans := (chans k)(c \<mapsto> f ch)\<rparr>))"

definition update_port :: "nat \<Rightarrow> (ipc_port \<Rightarrow> ipc_port) \<Rightarrow> kern \<Rightarrow> kern option" where
  "update_port p f k = (case ports k p of
     None \<Rightarrow> None | Some po \<Rightarrow> Some (k\<lparr>ports := (ports k)(p \<mapsto> f po)\<rparr>))"

definition ipc_is_channel :: "hid \<Rightarrow> kern \<Rightarrow> bool option" where
  "ipc_is_channel h k = do { hn \<leftarrow> handles k h; Some (ops hn = Some ipc_chan_handle_ops) }"

definition ipc_is_port :: "hid \<Rightarrow> kern \<Rightarrow> bool option" where
  "ipc_is_port h k = do { hn \<leftarrow> handles k h; Some (ops hn = Some ipc_port_handle_ops) }"

text \<open>\<^verbatim>\<open>containerof\<close>: the object a handle is embedded in.\<close>

fun port_of :: "hid \<Rightarrow> nat option" where
  "port_of (PortH p) = Some p"
| "port_of (ChanH c) = None"

fun chan_of :: "hid \<Rightarrow> nat option" where
  "chan_of (ChanH c) = Some c"
| "chan_of (PortH p) = None"

subsection \<open>Reference lists\<close>

definition ref_in_list :: "nat \<Rightarrow> chan_ref \<Rightarrow> kern \<Rightarrow> bool option" where
  "ref_in_list c r k = (case r of
     PeerRef d \<Rightarrow> map_option peer_ref (chans k d)
   | _ \<Rightarrow> map_option (\<lambda>ch. r \<in> set (refobj ch)) (chans k c))"

definition set_ref_linked :: "bool \<Rightarrow> chan_ref \<Rightarrow> kern \<Rightarrow> kern option" where
  "set_ref_linked b r k = (case r of
     PeerRef d \<Rightarrow> update_chan d (\<lambda>ch. ch\<lparr>peer_ref := b\<rparr>) k
   | _ \<Rightarrow> Some k)"

definition obj_add_ref :: "nat \<Rightarrow> chan_ref \<Rightarrow> kern \<Rightarrow> kern option" where
  "obj_add_ref c r k = do {
     linked \<leftarrow> ref_in_list c r k;
     kassert (\<not> linked);
     k \<leftarrow> set_ref_linked True r k;
     update_chan c (\<lambda>ch. ch\<lparr>refobj := refobj ch @ [r]\<rparr>) k
   }"

definition obj_del_ref :: "(nat \<Rightarrow> kern \<Rightarrow> kern option) \<Rightarrow> nat \<Rightarrow> chan_ref \<Rightarrow> kern \<Rightarrow> (bool \<times> kern) option" where
  "obj_del_ref destroy c r k = do {
     linked \<leftarrow> ref_in_list c r k;
     kassert linked;
     k \<leftarrow> set_ref_linked False r k;
     k \<leftarrow> update_chan c (\<lambda>ch. ch\<lparr>refobj := remove1 r (refobj ch)\<rparr>) k;
     ch \<leftarrow> chans k c;
     (if refobj ch = [] then do { k \<leftarrow> destroy c k; Some (True, k) } else Some (False, k))
   }"

text \<open>Freeing a channel frees the handle embedded in it.\<close>

definition chan_destroy_refobj :: "nat \<Rightarrow> kern \<Rightarrow> kern option" where
  "chan_destroy_refobj c k = do {
     ch \<leftarrow> chans k c;
     kassert (peer ch = None);
     kassert (ch_node ch = Unlinked);
     Some (k\<lparr>chans := (chans k)(c := None), handles := (handles k)(ChanH c := None)\<rparr>)
   }"

definition chan_add_ref :: "nat \<Rightarrow> chan_ref \<Rightarrow> kern \<Rightarrow> kern option" where
  "chan_add_ref c r k = obj_add_ref c r k"

definition chan_del_ref :: "nat \<Rightarrow> chan_ref \<Rightarrow> kern \<Rightarrow> kern option" where
  "chan_del_ref c r k = do { (_, k) \<leftarrow> obj_del_ref chan_destroy_refobj c r k; Some k }"

text \<open>The list node of a channel knows the list it is on.\<close>

definition node_list_delete :: "nat \<Rightarrow> kern \<Rightarrow> kern option" where
  "node_list_delete c k = do {
     ch \<leftarrow> chans k c;
     k \<leftarrow> (case ch_node ch of
        Unlinked \<Rightarrow> None
      | OnWaiting \<Rightarrow> Some (k\<lparr>waiting_for_port_chan_list := remove1 c (waiting_for_port_chan_list k)\<rparr>)
      | OnPending p \<Rightarrow> update_port p (\<lambda>po. po\<lparr>pending_list := remove1 c (pending_list po)\<rparr>) k);
     update_chan c (\<lambda>ch. ch\<lparr>ch_node := Unlinked\<rparr>) k
   }"

subsection \<open>Channels\<close>

definition chan_handle_init :: "nat \<Rightarrow> kern \<Rightarrow> (hid \<times> kern) option" where
  "chan_handle_init c k = do {
     k \<leftarrow> handle_init (ChanH c) ipc_chan_handle_ops k;
     k \<leftarrow> chan_add_ref c HandleRef k;
     Some (ChanH c, k)
   }"

text \<open>The new channel is referenced by the local variable of the caller.\<close>

definition chan_alloc :: "u32 \<Rightarrow> uuid_ptr \<Rightarrow> kern \<Rightarrow> nat option \<times> kern" where
  "chan_alloc flags uuid k =
     (let (ok, al) = next_alloc (alloc k); k = k\<lparr>alloc := al\<rparr> in
      if \<not> ok then (None, k)
      else
        let c = next_chan k;
            ch = \<lparr>refobj = [TmpRef], peer_ref = False, peer = None, ch_uuid = uuid,
                  ch_state = IPC_CHAN_STATE_INVALID, ch_flags = flags, aux_state = 0,
                  ch_node = Unlinked, msg_queue = None, ch_path = None\<rparr> in
        (Some c, k\<lparr>chans := (chans k)(c \<mapsto> ch), handles := (handles k)(ChanH c \<mapsto> zero_handle),
                   next_chan := Suc c\<rparr>))"

definition chan_shutdown_one :: "nat \<Rightarrow> kern \<Rightarrow> kern option" where
  "chan_shutdown_one c k = do {
     ch \<leftarrow> chans k c;
     (case ch_state ch of
        IPC_CHAN_STATE_CONNECTED \<Rightarrow> do {
          k \<leftarrow> update_chan c (\<lambda>ch. ch\<lparr>ch_state := IPC_CHAN_STATE_DISCONNECTING\<rparr>) k;
          handle_notify (ChanH c) k
        }
      | IPC_CHAN_STATE_CONNECTING \<Rightarrow> do {
          k \<leftarrow> update_chan c (\<lambda>ch. ch\<lparr>ch_state := IPC_CHAN_STATE_DISCONNECTING\<rparr>) k;
          handle_notify (ChanH c) k
        }
      | IPC_CHAN_STATE_WAITING_FOR_PORT \<Rightarrow> do {
          kassert (ch_node ch \<noteq> Unlinked);
          k \<leftarrow> node_list_delete c k;
          k \<leftarrow> chan_del_ref c NodeRef k;
          update_chan c (\<lambda>ch. ch\<lparr>ch_state := IPC_CHAN_STATE_DISCONNECTING\<rparr>) k
        }
      | IPC_CHAN_STATE_ACCEPTING \<Rightarrow>
          update_chan c (\<lambda>ch. ch\<lparr>ch_state := IPC_CHAN_STATE_DISCONNECTING\<rparr>) k
      | _ \<Rightarrow> Some k)
   }"

definition chan_shutdown_locked :: "nat \<Rightarrow> kern \<Rightarrow> kern option" where
  "chan_shutdown_locked c k = do {
     k \<leftarrow> chan_shutdown_one c k;
     ch \<leftarrow> chans k c;
     (case peer ch of
        None \<Rightarrow> Some k
      | Some d \<Rightarrow> do {
          k \<leftarrow> chan_shutdown_one d k;
          k \<leftarrow> chan_del_ref d (PeerRef c) k;
          update_chan c (\<lambda>ch. ch\<lparr>peer := None\<rparr>) k
        })
   }"

definition chan_shutdown :: "hid \<Rightarrow> kern \<Rightarrow> kern option" where
  "chan_shutdown h k = do {
     is_chan \<leftarrow> ipc_is_channel h k;
     kassert is_chan;
     c \<leftarrow> chan_of h;
     chan_shutdown_locked c k
   }"

definition chan_handle_destroy :: "hid \<Rightarrow> kern \<Rightarrow> kern option" where
  "chan_handle_destroy h k = do {
     is_chan \<leftarrow> ipc_is_channel h k;
     kassert is_chan;
     c \<leftarrow> chan_of h;
     chan_del_ref c HandleRef k
   }"

definition chan_events :: "ipc_chan \<Rightarrow> u32" where
  "chan_events ch =
     (if ch_state ch = IPC_CHAN_STATE_INVALID then IPC_HANDLE_POLL_ERROR
      else
        (if ch_state ch = IPC_CHAN_STATE_DISCONNECTING then IPC_HANDLE_POLL_HUP else 0) OR
        (if aux_state ch AND IPC_CHAN_AUX_STATE_CONNECTED \<noteq> 0 then IPC_HANDLE_POLL_READY else 0) OR
        (case msg_queue ch of
           Some mq \<Rightarrow> if \<not> ipc_msg_queue_is_empty mq then IPC_HANDLE_POLL_MSG else 0 | None \<Rightarrow> 0) OR
        (if aux_state ch AND IPC_CHAN_AUX_STATE_SEND_UNBLOCKED \<noteq> 0
         then IPC_HANDLE_POLL_SEND_UNBLOCKED else 0))"

definition chan_poll :: "hid \<Rightarrow> kern \<Rightarrow> u32 option" where
  "chan_poll h k = do {
     is_chan \<leftarrow> ipc_is_channel h k;
     kassert is_chan;
     c \<leftarrow> chan_of h;
     ch \<leftarrow> chans k c;
     Some (chan_events ch)
   }"

definition chan_finalize_event :: "hid \<Rightarrow> u32 \<Rightarrow> kern \<Rightarrow> kern option" where
  "chan_finalize_event h event k = do {
     is_chan \<leftarrow> ipc_is_channel h k;
     kassert is_chan;
     c \<leftarrow> chan_of h;
     (if event AND (IPC_HANDLE_POLL_SEND_UNBLOCKED OR IPC_HANDLE_POLL_READY) \<noteq> 0 then
        update_chan c (\<lambda>ch.
          let aux = aux_state ch;
              aux = (if event AND IPC_HANDLE_POLL_SEND_UNBLOCKED \<noteq> 0
                     then aux AND NOT IPC_CHAN_AUX_STATE_SEND_UNBLOCKED else aux);
              aux = (if event AND IPC_HANDLE_POLL_READY \<noteq> 0
                     then aux AND NOT IPC_CHAN_AUX_STATE_CONNECTED else aux)
          in ch\<lparr>aux_state := aux\<rparr>) k
      else Some k)
   }"

subsection \<open>Ports\<close>

definition port_handle_destroy :: "hid \<Rightarrow> kern \<Rightarrow> kern option" where
  "port_handle_destroy h k = do {
     is_port \<leftarrow> ipc_is_port h k;
     kassert is_port;
     p \<leftarrow> port_of h;
     po \<leftarrow> ports k p;
     kassert (pending_list po = []);
     kassert (p \<notin> set (ipc_port_list k));
     Some (k\<lparr>ports := (ports k)(p := None), handles := (handles k)(PortH p := None)\<rparr>)
   }"

text \<open>The destroy entries of the two operation tables.\<close>

definition ipc_destroy :: "ipc_ops \<Rightarrow> hid \<Rightarrow> kern \<Rightarrow> kern option" where
  "ipc_destroy tab = (case tab of
     ipc_port_handle_ops \<Rightarrow> port_handle_destroy | ipc_chan_handle_ops \<Rightarrow> chan_handle_destroy)"

text \<open>\<^verbatim>\<open>strlcpy\<close> returns the length of its source, here the path of the caller.\<close>

definition ipc_port_create ::
  "uuid_ptr \<Rightarrow> string \<Rightarrow> nat \<Rightarrow> nat \<Rightarrow> u32 \<Rightarrow> kern \<Rightarrow> ((int \<times> hid option) \<times> kern) option" where
  "ipc_port_create sid path bufs bsize flags k =
     (if sid = NullUuid then Some ((ERR_INVALID_ARGS, None), k)
      else if bufs = 0 \<or> bufs > IPC_CHAN_MAX_BUFS \<or> bsize = 0 \<or> bsize > IPC_CHAN_MAX_BUF_SIZE
      then Some ((ERR_INVALID_ARGS, None), k)
      else
        let (ok, al) = next_alloc (alloc k); k = k\<lparr>alloc := al\<rparr> in
        if \<not> ok then Some ((ERR_NO_MEMORY, None), k)
        else if length path = 0 then Some ((ERR_INVALID_ARGS, None), k)
        else if length path \<ge> IPC_PORT_PATH_MAX then Some ((ERR_TOO_BIG, None), k)
        else do {
          let p = next_port k;
          let po = \<lparr>po_path = path, po_uuid = sid, po_state = IPC_PORT_STATE_INVALID, po_flags = flags,
                    num_recv_bufs = bufs, recv_buf_size = bsize, pending_list = []\<rparr>;
          let k = k\<lparr>ports := (ports k)(p \<mapsto> po), handles := (handles k)(PortH p \<mapsto> zero_handle),
                    next_port := Suc p\<rparr>;
          k \<leftarrow> handle_init (PortH p) ipc_port_handle_ops k;
          Some ((NO_ERROR, Some (PortH p)), k)
        })"

primrec port_shutdown_loop :: "nat \<Rightarrow> nat list \<Rightarrow> kern \<Rightarrow> kern option" where
  "port_shutdown_loop p [] k = Some k"
| "port_shutdown_loop p (server # servers) k = do {
     k \<leftarrow> chan_shutdown_locked server k;
     k \<leftarrow> node_list_delete server k;
     k \<leftarrow> chan_del_ref server NodeRef k;
     k \<leftarrow> handle_decref ipc_destroy (PortH p) k;
     port_shutdown_loop p servers k
   }"

definition port_shutdown :: "hid \<Rightarrow> kern \<Rightarrow> kern option" where
  "port_shutdown h k = do {
     is_port \<leftarrow> ipc_is_port h k;
     kassert is_port;
     p \<leftarrow> port_of h;
     k \<leftarrow> update_port p (\<lambda>po. po\<lparr>po_state := IPC_PORT_STATE_CLOSING\<rparr>) k;
     k \<leftarrow> (if p \<in> set (ipc_port_list k) then do {
             let k = k\<lparr>ipc_port_list := remove1 p (ipc_port_list k)\<rparr>;
             handle_decref ipc_destroy h k
           } else Some k);
     po \<leftarrow> ports k p;
     port_shutdown_loop p (pending_list po) k
   }"

primrec port_find_loop :: "string \<Rightarrow> nat list \<Rightarrow> kern \<Rightarrow> nat option option" where
  "port_find_loop path [] k = Some None"
| "port_find_loop path (p # ps) k = do {
     po \<leftarrow> ports k p;
     (if po_path po = path then Some (Some p) else port_find_loop path ps k)
   }"

definition port_find_locked :: "string \<Rightarrow> kern \<Rightarrow> nat option option" where
  "port_find_locked path k = port_find_loop path (ipc_port_list k) k"

definition port_events :: "ipc_port \<Rightarrow> u32" where
  "port_events po =
     (if po_state po \<noteq> IPC_PORT_STATE_LISTENING then IPC_HANDLE_POLL_ERROR
      else if pending_list po \<noteq> [] then IPC_HANDLE_POLL_READY
      else 0)"

definition port_poll :: "hid \<Rightarrow> kern \<Rightarrow> u32 option" where
  "port_poll h k = do {
     is_port \<leftarrow> ipc_is_port h k;
     kassert is_port;
     p \<leftarrow> port_of h;
     po \<leftarrow> ports k p;
     Some (port_events po)
   }"

definition is_ns_client :: "uuid_ptr \<Rightarrow> bool" where
  "is_ns_client uuid = (uuid = ZeroUuid)"

definition check_access :: "ipc_port \<Rightarrow> uuid_ptr \<Rightarrow> int" where
  "check_access po uuid =
     (if uuid = NullUuid then ERR_ACCESS_DENIED
      else if is_ns_client uuid then
        (if po_flags po AND IPC_PORT_ALLOW_NS_CONNECT \<noteq> 0 then NO_ERROR else ERR_ACCESS_DENIED)
      else
        (if po_flags po AND IPC_PORT_ALLOW_TA_CONNECT \<noteq> 0 then NO_ERROR else ERR_ACCESS_DENIED))"

subsection \<open>Connecting\<close>

definition create_queue :: "ipc_port \<Rightarrow> kern \<Rightarrow> int \<times> ipc_msg_queue option \<times> kern" where
  "create_queue po k =
     (let ((ret, mq), al) = ipc_msg_queue_create (alloc k) (num_recv_bufs po) (recv_buf_size po)
      in (ret, mq, k\<lparr>alloc := al\<rparr>))"

definition attach_link :: "nat \<Rightarrow> nat \<Rightarrow> nat \<Rightarrow> kern \<Rightarrow> kern option" where
  "attach_link p c s k = do {
     k \<leftarrow> update_chan s (\<lambda>ch. ch\<lparr>ch_state := IPC_CHAN_STATE_ACCEPTING\<rparr>) k;
     k \<leftarrow> update_chan c (\<lambda>ch. ch\<lparr>ch_state := IPC_CHAN_STATE_CONNECTING\<rparr>) k;
     k \<leftarrow> chan_add_ref s (PeerRef c) k;
     k \<leftarrow> update_chan c (\<lambda>ch. ch\<lparr>peer := Some s\<rparr>) k;
     k \<leftarrow> chan_add_ref c (PeerRef s) k;
     k \<leftarrow> update_chan s (\<lambda>ch. ch\<lparr>peer := Some c\<rparr>) k;
     k \<leftarrow> chan_add_ref s NodeRef k;
     k \<leftarrow> update_port p (\<lambda>po. po\<lparr>pending_list := pending_list po @ [s]\<rparr>) k;
     k \<leftarrow> update_chan s (\<lambda>ch. ch\<lparr>ch_node := OnPending p\<rparr>) k;
     k \<leftarrow> handle_incref (PortH p) k;
     k \<leftarrow> handle_notify (PortH p) k;
     chan_del_ref s TmpRef k
   }"

definition port_attach_client :: "nat \<Rightarrow> nat \<Rightarrow> kern \<Rightarrow> (int \<times> kern) option" where
  "port_attach_client p c k = do {
     po \<leftarrow> ports k p;
     ch \<leftarrow> chans k c;
     (if po_state po \<noteq> IPC_PORT_STATE_LISTENING then Some (ERR_NOT_READY, k)
      else if check_access po (ch_uuid ch) \<noteq> NO_ERROR then Some (check_access po (ch_uuid ch), k)
      else case chan_alloc IPC_CHAN_FLAG_SERVER (po_uuid po) k of
        (None, k) \<Rightarrow> Some (ERR_NO_MEMORY, k)
      | (Some s, k) \<Rightarrow>
          (case create_queue po k of (ret, mq, k) \<Rightarrow>
             if ret \<noteq> NO_ERROR then do {
               k \<leftarrow> chan_del_ref s TmpRef k;
               Some (ERR_NO_MEMORY, k)
             } else do {
               k \<leftarrow> update_chan c (\<lambda>ch. ch\<lparr>msg_queue := mq\<rparr>) k;
               (case create_queue po k of (ret, mq, k) \<Rightarrow>
                  if ret \<noteq> NO_ERROR then do {
                    k \<leftarrow> update_chan c (\<lambda>ch. ch\<lparr>msg_queue := None\<rparr>) k;
                    k \<leftarrow> chan_del_ref s TmpRef k;
                    Some (ERR_NO_MEMORY, k)
                  } else do {
                    k \<leftarrow> update_chan s (\<lambda>ch. ch\<lparr>msg_queue := mq\<rparr>) k;
                    k \<leftarrow> attach_link p c s k;
                    Some (NO_ERROR, k)
                  })
             }))
   }"

text \<open>\<^verbatim>\<open>strnlen\<close>: the bytes before the first NUL, at most the given number.\<close>

definition strnlen :: "string \<Rightarrow> nat \<Rightarrow> nat" where
  "strnlen buf n = length (takeWhile (\<lambda>x. x \<noteq> CHR 0x00) (take n buf))"

definition ipc_port_connect_async ::
  "uuid_ptr \<Rightarrow> string \<Rightarrow> nat \<Rightarrow> u32 \<Rightarrow> kern \<Rightarrow> ((int \<times> hid option) \<times> kern) option" where
  "ipc_port_connect_async cid buf max_path flags k =
     (if cid = NullUuid then Some ((ERR_INVALID_ARGS, None), k)
      else if strnlen buf max_path = 0 \<or> strnlen buf max_path \<ge> max_path
      then Some ((ERR_INVALID_ARGS, None), k)
      else let path = take (strnlen buf max_path) buf in
        case chan_alloc 0 cid k of
          (None, k) \<Rightarrow> Some ((ERR_NO_MEMORY, None), k)
        | (Some c, k) \<Rightarrow> do {
            found \<leftarrow> port_find_locked path k;
            (ret, k) \<leftarrow> (case found of
               Some p \<Rightarrow> port_attach_client p c k
             | None \<Rightarrow>
                 if flags AND IPC_CONNECT_WAIT_FOR_PORT = 0 then Some (ERR_NOT_FOUND, k)
                 else
                   let (ok, al) = next_alloc (alloc k); k = k\<lparr>alloc := al\<rparr> in
                   if \<not> ok then Some (ERR_NO_MEMORY, k)
                   else do {
                     k \<leftarrow> update_chan c (\<lambda>ch. ch\<lparr>ch_path := Some path,
                            ch_state := IPC_CHAN_STATE_WAITING_FOR_PORT, ch_node := OnWaiting\<rparr>) k;
                     let k = k\<lparr>waiting_for_port_chan_list := waiting_for_port_chan_list k @ [c]\<rparr>;
                     k \<leftarrow> chan_add_ref c NodeRef k;
                     Some (NO_ERROR, k)
                   });
            (h, k) \<leftarrow> (if ret \<noteq> NO_ERROR then Some (None, k)
               else do { (h, k) \<leftarrow> chan_handle_init c k; Some (Some h, k) });
            k \<leftarrow> chan_del_ref c TmpRef k;
            Some ((ret, h), k)
          })"

primrec ipc_port_publish_loop :: "nat \<Rightarrow> nat list \<Rightarrow> kern \<Rightarrow> kern option" where
  "ipc_port_publish_loop p [] k = Some k"
| "ipc_port_publish_loop p (client # clients) k = do {
     ch \<leftarrow> chans k client;
     po \<leftarrow> ports k p;
     cpath \<leftarrow> ch_path ch;
     (if cpath \<noteq> po_path po then ipc_port_publish_loop p clients k
      else do {
        k \<leftarrow> update_chan client (\<lambda>ch. ch\<lparr>ch_path := None\<rparr>) k;
        k \<leftarrow> chan_add_ref client TmpRef k;
        k \<leftarrow> node_list_delete client k;
        k \<leftarrow> chan_del_ref client NodeRef k;
        (err, k) \<leftarrow> port_attach_client p client k;
        k \<leftarrow> (if err \<noteq> 0 then chan_shutdown_locked client k else Some k);
        k \<leftarrow> chan_del_ref client TmpRef k;
        ipc_port_publish_loop p clients k
      })
   }"

definition ipc_port_publish :: "hid \<Rightarrow> kern \<Rightarrow> (int \<times> kern) option" where
  "ipc_port_publish h k = do {
     is_port \<leftarrow> ipc_is_port h k;
     kassert is_port;
     p \<leftarrow> port_of h;
     po \<leftarrow> ports k p;
     kassert (p \<notin> set (ipc_port_list k));
     dup \<leftarrow> port_find_locked (po_path po) k;
     (if dup \<noteq> None then Some (ERR_ALREADY_EXISTS, k)
      else do {
        k \<leftarrow> update_port p (\<lambda>po. po\<lparr>po_state := IPC_PORT_STATE_LISTENING\<rparr>) k;
        let k = k\<lparr>ipc_port_list := ipc_port_list k @ [p]\<rparr>;
        k \<leftarrow> handle_incref h k;
        k \<leftarrow> ipc_port_publish_loop p (waiting_for_port_chan_list k) k;
        Some (NO_ERROR, k)
      })
   }"

definition ipc_port_accept :: "hid option \<Rightarrow> kern \<Rightarrow> ((int \<times> (hid \<times> uuid_ptr) option) \<times> kern) option" where
  "ipc_port_accept h_opt k = (case h_opt of
     None \<Rightarrow> Some ((ERR_INVALID_ARGS, None), k)
   | Some h \<Rightarrow> do {
       is_port \<leftarrow> ipc_is_port h k;
       (if \<not> is_port then Some ((ERR_INVALID_ARGS, None), k)
        else do {
          p \<leftarrow> port_of h;
          po \<leftarrow> ports k p;
          (if po_state po \<noteq> IPC_PORT_STATE_LISTENING then Some ((ERR_CHANNEL_CLOSED, None), k)
           else case pending_list po of
             [] \<Rightarrow> Some ((ERR_NO_MSG, None), k)
           | s # _ \<Rightarrow> do {
               k \<leftarrow> node_list_delete s k;
               sch \<leftarrow> chans k s;
               kassert (ch_flags sch AND IPC_CHAN_FLAG_SERVER \<noteq> 0);
               k \<leftarrow> chan_add_ref s TmpRef k;
               k \<leftarrow> chan_del_ref s NodeRef k;
               k \<leftarrow> handle_decref ipc_destroy h k;
               sch \<leftarrow> chans k s;
               cch \<leftarrow> (case peer sch of None \<Rightarrow> Some None | Some c \<Rightarrow> do { x \<leftarrow> chans k c; Some (Some (c, x)) });
               (case cch of
                  None \<Rightarrow> do {
                    k \<leftarrow> chan_shutdown_locked s k;
                    k \<leftarrow> chan_del_ref s TmpRef k;
                    Some ((ERR_CHANNEL_CLOSED, None), k)
                  }
                | Some (c, cch) \<Rightarrow>
                    if ch_state sch \<noteq> IPC_CHAN_STATE_ACCEPTING \<or> ch_state cch \<noteq> IPC_CHAN_STATE_CONNECTING
                    then do {
                      k \<leftarrow> chan_shutdown_locked s k;
                      k \<leftarrow> chan_del_ref s TmpRef k;
                      Some ((ERR_CHANNEL_CLOSED, None), k)
                    } else do {
                      k \<leftarrow> update_chan s (\<lambda>ch. ch\<lparr>ch_state := IPC_CHAN_STATE_CONNECTED\<rparr>) k;
                      k \<leftarrow> update_chan c (\<lambda>ch. ch\<lparr>ch_state := IPC_CHAN_STATE_CONNECTED,
                             aux_state := aux_state ch OR IPC_CHAN_AUX_STATE_CONNECTED\<rparr>) k;
                      (chandle, k) \<leftarrow> chan_handle_init s k;
                      k \<leftarrow> handle_notify (ChanH c) k;
                      k \<leftarrow> chan_del_ref s TmpRef k;
                      Some ((NO_ERROR, Some (chandle, ch_uuid cch)), k)
                    })
             })
        })
     })"

subsection \<open>The operation tables\<close>

definition ipc_poll :: "ipc_ops \<Rightarrow> hid \<Rightarrow> kern \<Rightarrow> u32 option" where
  "ipc_poll tab = (case tab of ipc_port_handle_ops \<Rightarrow> port_poll | ipc_chan_handle_ops \<Rightarrow> chan_poll)"

definition ipc_shutdown :: "ipc_ops \<Rightarrow> hid \<Rightarrow> kern \<Rightarrow> kern option" where
  "ipc_shutdown tab = (case tab of
     ipc_port_handle_ops \<Rightarrow> port_shutdown | ipc_chan_handle_ops \<Rightarrow> chan_shutdown)"

text \<open>The port table has no finalize function.\<close>

definition ipc_finalize :: "ipc_ops \<Rightarrow> hid \<Rightarrow> u32 \<Rightarrow> kern \<Rightarrow> kern option" where
  "ipc_finalize tab h event k = (case tab of
     ipc_port_handle_ops \<Rightarrow> Some k | ipc_chan_handle_ops \<Rightarrow> chan_finalize_event h event k)"

definition ipc_init :: "bool list \<Rightarrow> kern" where
  "ipc_init al = \<lparr>handles = Map.empty, hlists = Map.empty, events = (\<lambda>_. False), next_event = 0,
     chans = Map.empty, ports = Map.empty, waiting_for_port_chan_list = [], ipc_port_list = [],
     next_chan = 0, next_port = 0, alloc = al\<rparr>"

end
