(* ===== verification/Ipc_Inv.thy ===== *)
theory Ipc_Inv
  imports Ipc
begin

text \<open>
  The invariant of ports and channels, and that the primitive operations on reference
  lists keep it. The set \<open>T\<close> has the channels that a local variable of the running
  routine refers to; between routines it is empty.
\<close>

section \<open>The invariant\<close>

definition has_handle :: "kern \<Rightarrow> nat \<Rightarrow> bool" where
  "has_handle k c \<longleftrightarrow> (\<exists>hn. handles k (ChanH c) = Some hn \<and> 0 < refcnt hn)"

definition peer_is :: "kern \<Rightarrow> nat \<Rightarrow> nat \<Rightarrow> bool" where
  "peer_is k d c \<longleftrightarrow> (\<exists>dh. chans k d = Some dh \<and> peer dh = Some c)"

text \<open>The states two connected channels can be in.\<close>

definition states_match :: "chan_state \<Rightarrow> chan_state \<Rightarrow> bool" where
  "states_match s t \<longleftrightarrow>
     (s = IPC_CHAN_STATE_CONNECTING \<and> t = IPC_CHAN_STATE_ACCEPTING) \<or>
     (s = IPC_CHAN_STATE_ACCEPTING \<and> t = IPC_CHAN_STATE_CONNECTING) \<or>
     (s = IPC_CHAN_STATE_CONNECTED \<and> t = IPC_CHAN_STATE_CONNECTED) \<or>
     (s = IPC_CHAN_STATE_DISCONNECTING \<and> t = IPC_CHAN_STATE_DISCONNECTING)"

definition linking :: "chan_state \<Rightarrow> bool" where
  "linking s \<longleftrightarrow> s \<in> {IPC_CHAN_STATE_ACCEPTING, IPC_CHAN_STATE_CONNECTING, IPC_CHAN_STATE_CONNECTED}"

text \<open>The references to a channel are exactly those its state accounts for.\<close>

definition refs_ok :: "nat set \<Rightarrow> kern \<Rightarrow> nat \<Rightarrow> ipc_chan \<Rightarrow> bool" where
  "refs_ok T k c ch \<longleftrightarrow> distinct (refobj ch) \<and> refobj ch \<noteq> [] \<and>
     (TmpRef \<in> set (refobj ch) \<longleftrightarrow> c \<in> T) \<and>
     (HandleRef \<in> set (refobj ch) \<longleftrightarrow> has_handle k c) \<and>
     (NodeRef \<in> set (refobj ch) \<longleftrightarrow> ch_node ch \<noteq> Unlinked) \<and>
     (\<forall>d. PeerRef d \<in> set (refobj ch) \<longleftrightarrow> peer_is k d c)"

definition peer_ok :: "kern \<Rightarrow> nat \<Rightarrow> ipc_chan \<Rightarrow> bool" where
  "peer_ok k c ch \<longleftrightarrow> (peer_ref ch \<longleftrightarrow> peer ch \<noteq> None) \<and>
     (\<forall>d. peer ch = Some d \<longrightarrow> d \<noteq> c \<and> (\<exists>dh. chans k d = Some dh \<and> states_match (ch_state ch) (ch_state dh) \<and>
        (ch_state ch \<noteq> IPC_CHAN_STATE_DISCONNECTING \<longrightarrow> peer dh = Some c)))"

text \<open>
  The state of a channel agrees with its links. A channel that can still be used is
  held by a handle; one that a routine is working on may be between states.
\<close>

definition state_ok :: "nat set \<Rightarrow> kern \<Rightarrow> nat \<Rightarrow> ipc_chan \<Rightarrow> bool" where
  "state_ok T k c ch \<longleftrightarrow>
     (linking (ch_state ch) \<longrightarrow> peer ch \<noteq> None \<and> msg_queue ch \<noteq> None) \<and>
     (ch_state ch = IPC_CHAN_STATE_INVALID \<longrightarrow> c \<in> T \<and> ch_node ch = Unlinked \<and> \<not> has_handle k c) \<and>
     (ch_node ch = OnWaiting \<longrightarrow> ch_state ch = IPC_CHAN_STATE_WAITING_FOR_PORT \<and> ch_path ch \<noteq> None) \<and>
     (ch_state ch = IPC_CHAN_STATE_WAITING_FOR_PORT \<longrightarrow> ch_node ch = OnWaiting \<or> c \<in> T) \<and>
     (\<forall>p. ch_node ch = OnPending p \<longrightarrow>
        ch_state ch \<in> {IPC_CHAN_STATE_ACCEPTING, IPC_CHAN_STATE_DISCONNECTING} \<and>
        ch_flags ch AND IPC_CHAN_FLAG_SERVER \<noteq> 0 \<and> \<not> has_handle k c) \<and>
     (ch_state ch = IPC_CHAN_STATE_ACCEPTING \<longrightarrow> ((\<exists>p. ch_node ch = OnPending p) \<or> c \<in> T) \<and> \<not> has_handle k c) \<and>
     (ch_state ch \<in> {IPC_CHAN_STATE_CONNECTED, IPC_CHAN_STATE_CONNECTING, IPC_CHAN_STATE_WAITING_FOR_PORT} \<longrightarrow>
        has_handle k c \<or> c \<in> T) \<and>
     (peer ch \<noteq> None \<longrightarrow> has_handle k c \<or> ch_node ch \<noteq> Unlinked \<or> c \<in> T) \<and>
     (\<forall>mq. msg_queue ch = Some mq \<longrightarrow> mq_wf mq)"

definition handle_ok :: "kern \<Rightarrow> nat \<Rightarrow> bool" where
  "handle_ok k c \<longleftrightarrow> (\<exists>hn. handles k (ChanH c) = Some hn \<and> 0 \<le> refcnt hn \<and>
     (0 < refcnt hn \<longrightarrow> ops hn = Some ipc_chan_handle_ops))"

definition chan_ok :: "nat set \<Rightarrow> kern \<Rightarrow> nat \<Rightarrow> ipc_chan \<Rightarrow> bool" where
  "chan_ok T k c ch \<longleftrightarrow> refs_ok T k c ch \<and> peer_ok k c ch \<and> state_ok T k c ch \<and> handle_ok k c"

definition chans_inv :: "nat set \<Rightarrow> kern \<Rightarrow> bool" where
  "chans_inv T k \<longleftrightarrow> (\<forall>c ch. chans k c = Some ch \<longrightarrow> chan_ok T k c ch)"

definition heap_inv :: "kern \<Rightarrow> bool" where
  "heap_inv k \<longleftrightarrow>
     (\<forall>c. chans k c = None \<longrightarrow> handles k (ChanH c) = None) \<and>
     (\<forall>p. ports k p = None \<longrightarrow> handles k (PortH p) = None) \<and>
     (\<forall>c. chans k c \<noteq> None \<longrightarrow> c < next_chan k) \<and>
     (\<forall>p. ports k p \<noteq> None \<longrightarrow> p < next_port k)"

definition on_list :: "kern \<Rightarrow> nat \<Rightarrow> node_link \<Rightarrow> bool" where
  "on_list k c l \<longleftrightarrow> (\<exists>ch. chans k c = Some ch \<and> ch_node ch = l)"

text \<open>The intrusive lists hold the channels whose node says so.\<close>

definition lists_inv :: "kern \<Rightarrow> bool" where
  "lists_inv k \<longleftrightarrow>
     distinct (waiting_for_port_chan_list k) \<and>
     (\<forall>c. c \<in> set (waiting_for_port_chan_list k) \<longleftrightarrow> on_list k c OnWaiting) \<and>
     (\<forall>p po. ports k p = Some po \<longrightarrow> distinct (pending_list po) \<and>
        (\<forall>c. c \<in> set (pending_list po) \<longleftrightarrow> on_list k c (OnPending p))) \<and>
     (\<forall>c p. on_list k c (OnPending p) \<longrightarrow> ports k p \<noteq> None)"

text \<open>A published port and each pending connection hold a reference to the port.\<close>

definition port_refs :: "kern \<Rightarrow> nat \<Rightarrow> ipc_port \<Rightarrow> int" where
  "port_refs k p po = (if p \<in> set (ipc_port_list k) then 1 else 0) + int (length (pending_list po))"

definition port_ok :: "kern \<Rightarrow> nat \<Rightarrow> ipc_port \<Rightarrow> bool" where
  "port_ok k p po \<longleftrightarrow>
     (\<exists>hn. handles k (PortH p) = Some hn \<and> ops hn = Some ipc_port_handle_ops \<and>
        1 \<le> refcnt hn \<and> port_refs k p po \<le> refcnt hn) \<and>
     0 < num_recv_bufs po \<and> num_recv_bufs po \<le> IPC_CHAN_MAX_BUFS \<and>
     0 < recv_buf_size po \<and> recv_buf_size po \<le> IPC_CHAN_MAX_BUF_SIZE \<and>
     (p \<in> set (ipc_port_list k) \<longleftrightarrow> po_state po = IPC_PORT_STATE_LISTENING)"

definition ports_inv :: "kern \<Rightarrow> bool" where
  "ports_inv k \<longleftrightarrow>
     (\<forall>p po. ports k p = Some po \<longrightarrow> port_ok k p po) \<and>
     distinct (ipc_port_list k) \<and>
     (\<forall>p \<in> set (ipc_port_list k). ports k p \<noteq> None) \<and>
     (\<forall>p \<in> set (ipc_port_list k). \<forall>q \<in> set (ipc_port_list k). \<forall>po qo.
        ports k p = Some po \<longrightarrow> ports k q = Some qo \<longrightarrow> po_path po = po_path qo \<longrightarrow> p = q)"

definition ipc_inv :: "nat set \<Rightarrow> kern \<Rightarrow> bool" where
  "ipc_inv T k \<longleftrightarrow> chans_inv T k \<and> heap_inv k \<and> lists_inv k \<and> ports_inv k"

lemmas chan_defs = chan_ok_def refs_ok_def peer_ok_def state_ok_def handle_ok_def

lemma ipc_invD:
  assumes "ipc_inv T k"
  shows "chans_inv T k" "heap_inv k" "lists_inv k" "ports_inv k"
  using assms by (simp_all add: ipc_inv_def)

lemma chan_okD: "ipc_inv T k \<Longrightarrow> chans k c = Some ch \<Longrightarrow> chan_ok T k c ch"
  by (simp add: ipc_inv_def chans_inv_def)

lemma port_okD: "ipc_inv T k \<Longrightarrow> ports k p = Some po \<Longrightarrow> port_ok k p po"
  by (simp add: ipc_inv_def ports_inv_def)

section \<open>How updates change the parts of the invariant\<close>

lemma peer_is_update:
  "peer_is (k\<lparr>chans := (chans k)(x \<mapsto> xh)\<rparr>) d c \<longleftrightarrow> (if d = x then peer xh = Some c else peer_is k d c)"
  by (auto simp: peer_is_def)

lemma ports_inv_cong:
  assumes "ports k' = ports k" "ipc_port_list k' = ipc_port_list k"
    and "\<And>p. handles k' (PortH p) = handles k (PortH p)"
  shows "ports_inv k' = ports_inv k"
proof -
  have "port_ok k' p po = port_ok k p po" for p po
    using assms by (simp add: port_ok_def port_refs_def)
  with assms show ?thesis by (simp add: ports_inv_def)
qed

lemma lists_inv_cong:
  assumes "ports k' = ports k" "waiting_for_port_chan_list k' = waiting_for_port_chan_list k"
    and "\<And>c l. l \<noteq> Unlinked \<Longrightarrow> on_list k' c l = on_list k c l"
  shows "lists_inv k' = lists_inv k"
  using assms by (simp add: lists_inv_def)

lemma chan_unchanged:
  assumes "chan_ok T k c ch"
    and "chans k' c = Some ch" "handles k' (ChanH c) = handles k (ChanH c)"
    and "\<And>d. peer_is k' d c \<longleftrightarrow> peer_is k d c"
    and "\<And>d. peer ch = Some d \<Longrightarrow> chans k' d = chans k d"
    and "c \<in> T' \<longleftrightarrow> c \<in> T"
  shows "chan_ok T' k' c ch"
  using assms by (auto simp: chan_defs has_handle_def)

text \<open>Dropping a reference a channel holds to itself.\<close>

definition drop_ref :: "chan_ref \<Rightarrow> ipc_chan \<Rightarrow> ipc_chan" where
  "drop_ref r ch = ch\<lparr>refobj := remove1 r (refobj ch)\<rparr>"

definition free_chan :: "nat \<Rightarrow> kern \<Rightarrow> kern" where
  "free_chan c k = k\<lparr>chans := (chans k)(c := None), handles := (handles k)(ChanH c := None)\<rparr>"

lemma update_chan_Some [simp]:
  "chans k c = Some ch \<Longrightarrow> update_chan c f k = Some (k\<lparr>chans := (chans k)(c \<mapsto> f ch)\<rparr>)"
  by (simp add: update_chan_def)

lemma update_port_Some [simp]:
  "ports k p = Some po \<Longrightarrow> update_port p f k = Some (k\<lparr>ports := (ports k)(p \<mapsto> f po)\<rparr>)"
  by (simp add: update_port_def)

lemma remove1_Nil_iff: "distinct xs \<Longrightarrow> x \<in> set xs \<Longrightarrow> remove1 x xs = [] \<longleftrightarrow> xs = [x]"
  by (cases xs) (auto split: if_splits)

lemma chan_del_self_ref:
  assumes "chans k c = Some ch" "r \<in> set (refobj ch)" "r \<in> {TmpRef, HandleRef, NodeRef}"
  shows "chan_del_ref c r k =
    (if remove1 r (refobj ch) = []
     then (if peer ch = None \<and> ch_node ch = Unlinked then Some (free_chan c k) else None)
     else Some (k\<lparr>chans := (chans k)(c \<mapsto> drop_ref r ch)\<rparr>))"
  using assms
  by (auto simp: chan_del_ref_def obj_del_ref_def ref_in_list_def set_ref_linked_def drop_ref_def
      chan_destroy_refobj_def free_chan_def)

lemma chan_add_self_ref:
  assumes "chans k c = Some ch" "r \<notin> set (refobj ch)" "r \<in> {TmpRef, HandleRef, NodeRef}"
  shows "chan_add_ref c r k = Some (k\<lparr>chans := (chans k)(c \<mapsto> ch\<lparr>refobj := refobj ch @ [r]\<rparr>)\<rparr>)"
  using assms by (auto simp: chan_add_ref_def obj_add_ref_def ref_in_list_def set_ref_linked_def)

lemma chan_del_peer_ref:
  assumes "chans k c = Some ch" "peer_ref ch" "chans k d = Some dh" "c \<noteq> d"
  shows "chan_del_ref d (PeerRef c) k =
    (if remove1 (PeerRef c) (refobj dh) = []
     then (if peer dh = None \<and> ch_node dh = Unlinked
           then Some (free_chan d (k\<lparr>chans := (chans k)(c \<mapsto> ch\<lparr>peer_ref := False\<rparr>)\<rparr>)) else None)
     else Some (k\<lparr>chans := (chans k)(c \<mapsto> ch\<lparr>peer_ref := False\<rparr>,
       d \<mapsto> dh\<lparr>refobj := remove1 (PeerRef c) (refobj dh)\<rparr>)\<rparr>))"
  using assms
  by (simp add: chan_del_ref_def obj_del_ref_def ref_in_list_def set_ref_linked_def
      chan_destroy_refobj_def free_chan_def)

section \<open>Events do not matter\<close>

text \<open>Updates of different fields commute; the field order of the record is the normal form.\<close>

lemma kern_commute:
  "(k\<lparr>events := e\<rparr>)\<lparr>chans := x\<rparr> = k\<lparr>chans := x, events := e\<rparr>"
  "(k\<lparr>events := e\<rparr>)\<lparr>handles := y\<rparr> = k\<lparr>handles := y, events := e\<rparr>"
  "(k\<lparr>chans := x\<rparr>)\<lparr>handles := y\<rparr> = k\<lparr>handles := y, chans := x\<rparr>"
  "(k\<lparr>ports := z\<rparr>)\<lparr>chans := x\<rparr> = k\<lparr>chans := x, ports := z\<rparr>"
  "(k\<lparr>ports := z\<rparr>)\<lparr>handles := y\<rparr> = k\<lparr>handles := y, ports := z\<rparr>"
  "(k\<lparr>events := e\<rparr>)\<lparr>ports := z\<rparr> = k\<lparr>ports := z, events := e\<rparr>"
  by simp_all


lemma ipc_inv_events [simp]: "ipc_inv T (k\<lparr>events := e\<rparr>) = ipc_inv T k"
proof -
  have "chan_ok T (k\<lparr>events := e\<rparr>) c ch = chan_ok T k c ch" for c ch
    by (simp add: chan_defs has_handle_def peer_is_def)
  moreover have "port_ok (k\<lparr>events := e\<rparr>) p po = port_ok k p po" for p po
    by (simp add: port_ok_def port_refs_def)
  ultimately show ?thesis
    by (simp add: ipc_inv_def chans_inv_def heap_inv_def lists_inv_def ports_inv_def on_list_def)
qed

text \<open>Events that are signalled stay so; a notification signals the event a handle waits with.\<close>

definition keeps :: "(nat \<Rightarrow> bool) \<Rightarrow> (nat \<Rightarrow> bool) \<Rightarrow> bool" where
  "keeps e e' \<longleftrightarrow> (\<forall>ev. e ev \<longrightarrow> e' ev)"

definition woken :: "'o handle \<Rightarrow> (nat \<Rightarrow> bool) \<Rightarrow> bool" where
  "woken hn e \<longleftrightarrow> (\<forall>ev. wait_event hn = Some ev \<longrightarrow> e ev)"

lemma keeps_refl [simp]: "keeps e e"
  by (simp add: keeps_def)

lemma keeps_trans: "keeps e e' \<Longrightarrow> keeps e' e'' \<Longrightarrow> keeps e e''"
  by (simp add: keeps_def)

lemma woken_keeps: "woken hn e \<Longrightarrow> keeps e e' \<Longrightarrow> woken hn e'"
  by (simp add: keeps_def woken_def)

lemma handle_notify_events:
  assumes "handles k h = Some hn"
  obtains e where "handle_notify h k = Some (k\<lparr>events := e\<rparr>)"
    "keeps (events k) e" "woken hn e"
proof (cases "wait_event hn")
  case None
  with assms that [of "events k"] show ?thesis by (simp add: woken_def)
next
  case (Some ev)
  with assms that [of "(events k)(ev := True)"] show ?thesis
    by (simp add: event_signal_def keeps_def woken_def)
qed

section \<open>Shutting down one end\<close>

lemma chan_handle_exists: "ipc_inv T k \<Longrightarrow> chans k c = Some ch \<Longrightarrow> \<exists>hn. handles k (ChanH c) = Some hn"
  using chan_okD [of T k c ch] by (auto simp: chan_ok_def handle_ok_def)

text \<open>Shutting down a channel that has or had a peer only changes its state, and wakes its waiter.\<close>

lemma chan_shutdown_one_linked:
  assumes "chans k c = Some ch" "handles k (ChanH c) = Some hn"
    and "linking (ch_state ch) \<or> ch_state ch = IPC_CHAN_STATE_DISCONNECTING"
  obtains e where "chan_shutdown_one c k =
      Some (k\<lparr>chans := (chans k)(c \<mapsto> ch\<lparr>ch_state := IPC_CHAN_STATE_DISCONNECTING\<rparr>), events := e\<rparr>)"
    "keeps (events k) e"
    "ch_state ch \<in> {IPC_CHAN_STATE_CONNECTED, IPC_CHAN_STATE_CONNECTING} \<longrightarrow> woken hn e"
proof -
  let ?k = "k\<lparr>chans := (chans k)(c \<mapsto> ch\<lparr>ch_state := IPC_CHAN_STATE_DISCONNECTING\<rparr>)\<rparr>"
  have h: "handles ?k (ChanH c) = Some hn" using assms(2) by simp
  obtain e where e: "handle_notify (ChanH c) ?k = Some (?k\<lparr>events := e\<rparr>)"
    "keeps (events ?k) e" "woken hn e"
    by (rule handle_notify_events [OF h])
  consider "ch_state ch = IPC_CHAN_STATE_DISCONNECTING" | "ch_state ch = IPC_CHAN_STATE_ACCEPTING"
    | "ch_state ch \<in> {IPC_CHAN_STATE_CONNECTED, IPC_CHAN_STATE_CONNECTING}"
    using assms(3) by (auto simp: linking_def)
  then show ?thesis
  proof cases
    case 1
    moreover from 1 have "ch\<lparr>ch_state := IPC_CHAN_STATE_DISCONNECTING\<rparr> = ch" by simp
    ultimately show ?thesis using assms(1) that [of "events k"]
      by (simp add: chan_shutdown_one_def fun_upd_idem)
  next
    case 2
    with assms(1) that [of "events k"] show ?thesis by (simp add: chan_shutdown_one_def)
  next
    case 3
    then have "chan_shutdown_one c k = Some (?k\<lparr>events := e\<rparr>)"
      using assms(1) e(1) by (auto simp: chan_shutdown_one_def)
    with e that [of e] 3 show ?thesis by simp
  qed
qed

text \<open>The effect on the pair: both ends disconnecting, this end forgets the other.\<close>

definition shut_self :: "ipc_chan \<Rightarrow> ipc_chan" where
  "shut_self ch = ch\<lparr>ch_state := IPC_CHAN_STATE_DISCONNECTING, peer_ref := False, peer := None\<rparr>"

definition shut_peer :: "nat \<Rightarrow> ipc_chan \<Rightarrow> ipc_chan" where
  "shut_peer c dh = dh\<lparr>ch_state := IPC_CHAN_STATE_DISCONNECTING, refobj := remove1 (PeerRef c) (refobj dh)\<rparr>"

definition shut_pair :: "nat \<Rightarrow> ipc_chan \<Rightarrow> nat \<Rightarrow> ipc_chan \<Rightarrow> kern \<Rightarrow> kern" where
  "shut_pair c ch d dh k =
     (if remove1 (PeerRef c) (refobj dh) = []
      then free_chan d (k\<lparr>chans := (chans k)(c \<mapsto> shut_self ch)\<rparr>)
      else k\<lparr>chans := (chans k)(c \<mapsto> shut_self ch, d \<mapsto> shut_peer c dh)\<rparr>)"

lemma peer_facts:
  assumes inv: "ipc_inv T k" and c: "chans k c = Some ch" and p: "peer ch = Some d"
  obtains dh hn hd where "chans k d = Some dh" "c \<noteq> d" "states_match (ch_state ch) (ch_state dh)"
    "ch_state ch \<noteq> IPC_CHAN_STATE_DISCONNECTING \<Longrightarrow> peer dh = Some c"
    "PeerRef c \<in> set (refobj dh)" "peer_ref ch"
    "handles k (ChanH c) = Some hn" "handles k (ChanH d) = Some hd"
    "remove1 (PeerRef c) (refobj dh) = [] \<Longrightarrow>
       ch_node dh = Unlinked \<and> \<not> has_handle k d \<and> d \<notin> T \<and> peer dh = None"
proof -
  note ok = chan_okD [OF inv c]
  from ok p obtain dh where dh: "chans k d = Some dh" "d \<noteq> c" "states_match (ch_state ch) (ch_state dh)"
    "ch_state ch \<noteq> IPC_CHAN_STATE_DISCONNECTING \<longrightarrow> peer dh = Some c"
    by (auto simp: chan_ok_def peer_ok_def)
  note okd = chan_okD [OF inv dh(1)]
  have ref: "PeerRef c \<in> set (refobj dh)"
    using okd c p by (auto simp: chan_ok_def refs_ok_def peer_is_def)
  have "ch_node dh = Unlinked \<and> \<not> has_handle k d \<and> d \<notin> T \<and> peer dh = None"
    if e: "remove1 (PeerRef c) (refobj dh) = []"
  proof -
    have "refobj dh = [PeerRef c]"
      using okd ref e by (auto simp: chan_ok_def refs_ok_def remove1_Nil_iff)
    with okd have "ch_node dh = Unlinked" "\<not> has_handle k d" "d \<notin> T"
      by (auto simp: chan_ok_def refs_ok_def)
    with okd show ?thesis by (auto simp: chan_ok_def state_ok_def)
  qed
  moreover have "peer_ref ch" using ok p by (simp add: chan_ok_def peer_ok_def)
  ultimately show ?thesis
    using that dh ref chan_handle_exists [OF inv c] chan_handle_exists [OF inv dh(1)] by auto
qed

lemma peer_known:
  assumes "ipc_inv T k" "chans k c = Some ch" "peer ch = Some d" "chans k d = Some dh"
  shows "c \<noteq> d" "states_match (ch_state ch) (ch_state dh)"
    "ch_state ch \<noteq> IPC_CHAN_STATE_DISCONNECTING \<Longrightarrow> peer dh = Some c"
    "PeerRef c \<in> set (refobj dh)" "peer_ref ch"
    "remove1 (PeerRef c) (refobj dh) = [] \<Longrightarrow> ch_node dh = Unlinked"
    "remove1 (PeerRef c) (refobj dh) = [] \<Longrightarrow> \<not> has_handle k d"
    "remove1 (PeerRef c) (refobj dh) = [] \<Longrightarrow> d \<notin> T"
    "remove1 (PeerRef c) (refobj dh) = [] \<Longrightarrow> peer dh = None"
  by (rule peer_facts [OF assms(1-3)], simp add: assms(4))+

lemma states_match_linked:
  "states_match s t \<Longrightarrow> (linking s \<or> s = IPC_CHAN_STATE_DISCONNECTING) \<and>
     (linking t \<or> t = IPC_CHAN_STATE_DISCONNECTING)"
  by (auto simp: states_match_def linking_def)

lemma chan_shutdown_locked_peer:
  assumes inv: "ipc_inv T k" and c: "chans k c = Some ch" and p: "peer ch = Some d"
    and d: "chans k d = Some dh"
  obtains e where "chan_shutdown_locked c k = Some ((shut_pair c ch d dh k)\<lparr>events := e\<rparr>)"
    "keeps (events k) e"
    "\<forall>hd. handles k (ChanH d) = Some hd \<longrightarrow>
       ch_state dh \<in> {IPC_CHAN_STATE_CONNECTED, IPC_CHAN_STATE_CONNECTING} \<longrightarrow> woken hd e"
proof -
  obtain hn hd where h: "handles k (ChanH c) = Some hn" "handles k (ChanH d) = Some hd"
    using chan_handle_exists [OF inv c] chan_handle_exists [OF inv d] by blast
  note f = peer_known(1,2,4,5) [OF inv c p d] h peer_known(6,9) [OF inv c p d]
  note sm = states_match_linked [OF f(2)]
  obtain e1 where e1: "chan_shutdown_one c k =
      Some (k\<lparr>chans := (chans k)(c \<mapsto> ch\<lparr>ch_state := IPC_CHAN_STATE_DISCONNECTING\<rparr>), events := e1\<rparr>)"
    "keeps (events k) e1"
    by (rule chan_shutdown_one_linked [OF c f(5)]) (use sm in simp_all)
  let ?k1 = "k\<lparr>chans := (chans k)(c \<mapsto> ch\<lparr>ch_state := IPC_CHAN_STATE_DISCONNECTING\<rparr>), events := e1\<rparr>"
  have "chans ?k1 d = Some dh" "handles ?k1 (ChanH d) = Some hd" using d f by auto
  note d1 = this
  obtain e2 where e2: "chan_shutdown_one d ?k1 =
      Some (?k1\<lparr>chans := (chans ?k1)(d \<mapsto> dh\<lparr>ch_state := IPC_CHAN_STATE_DISCONNECTING\<rparr>), events := e2\<rparr>)"
    "keeps (events ?k1) e2"
    "ch_state dh \<in> {IPC_CHAN_STATE_CONNECTED, IPC_CHAN_STATE_CONNECTING} \<longrightarrow> woken hd e2"
    by (rule chan_shutdown_one_linked [OF d1]) (use sm in simp_all)
  let ?k2 = "?k1\<lparr>chans := (chans ?k1)(d \<mapsto> dh\<lparr>ch_state := IPC_CHAN_STATE_DISCONNECTING\<rparr>), events := e2\<rparr>"
  let ?ch = "ch\<lparr>ch_state := IPC_CHAN_STATE_DISCONNECTING\<rparr>" and ?dh = "dh\<lparr>ch_state := IPC_CHAN_STATE_DISCONNECTING\<rparr>"
  have "chan_shutdown_locked c k = do {
      k \<leftarrow> chan_del_ref d (PeerRef c) ?k2; update_chan c (\<lambda>ch. ch\<lparr>peer := None\<rparr>) k }"
    using e1(1) e2(1) p f(1) by (simp add: chan_shutdown_locked_def)
  also have "\<dots> = Some ((shut_pair c ch d dh k)\<lparr>events := e2\<rparr>)"
  proof (cases "remove1 (PeerRef c) (refobj dh) = []")
    case True
    then have "chan_del_ref d (PeerRef c) ?k2 =
        Some (free_chan d (?k2\<lparr>chans := (chans ?k2)(c \<mapsto> ?ch\<lparr>peer_ref := False\<rparr>)\<rparr>))"
      using chan_del_peer_ref [of ?k2 c ?ch d ?dh] f by simp
    then show ?thesis using True f(1)
      by (simp add: shut_pair_def free_chan_def shut_self_def fun_upd_twist kern_commute)
  next
    case False
    then have "chan_del_ref d (PeerRef c) ?k2 =
        Some (?k2\<lparr>chans := (chans ?k2)(c \<mapsto> ?ch\<lparr>peer_ref := False\<rparr>,
          d \<mapsto> ?dh\<lparr>refobj := remove1 (PeerRef c) (refobj dh)\<rparr>)\<rparr>)"
      using chan_del_peer_ref [of ?k2 c ?ch d ?dh] f by simp
    then show ?thesis using False f(1)
      by (simp add: shut_pair_def shut_self_def shut_peer_def fun_upd_twist kern_commute)
  qed
  finally have "chan_shutdown_locked c k = Some ((shut_pair c ch d dh k)\<lparr>events := e2\<rparr>)" .
  moreover have "keeps (events k) e2" using keeps_trans [OF e1(2)] e2(2) by simp
  ultimately show ?thesis using that [of e2] e2(3) f(6) by auto
qed

end
