(* ===== verification/Ipc_Chan.thy ===== *)
theory Ipc_Chan
  imports Ipc_Inv
begin

text \<open>
  The channel operations keep the invariant: shutting down, allocating and freeing,
  taking a channel off its list, and attaching a client to a port.
\<close>

section \<open>Shutting down\<close>

lemma shut_pair_sel [simp]:
  "ports (shut_pair c ch d dh k) = ports k"
  "waiting_for_port_chan_list (shut_pair c ch d dh k) = waiting_for_port_chan_list k"
  "ipc_port_list (shut_pair c ch d dh k) = ipc_port_list k"
  "next_chan (shut_pair c ch d dh k) = next_chan k" "next_port (shut_pair c ch d dh k) = next_port k"
  "handles (shut_pair c ch d dh k) (PortH p) = handles k (PortH p)"
  by (simp_all add: shut_pair_def free_chan_def)

lemma shut_pair_chans:
  "chans (shut_pair c ch d dh k) =
     (if remove1 (PeerRef c) (refobj dh) = [] then (chans k)(c \<mapsto> shut_self ch, d := None)
      else (chans k)(c \<mapsto> shut_self ch, d \<mapsto> shut_peer c dh))"
  by (simp add: shut_pair_def free_chan_def)

lemma shut_pair_handle:
  assumes "chans (shut_pair c ch d dh k) x \<noteq> None"
  shows "handles (shut_pair c ch d dh k) (ChanH x) = handles k (ChanH x)"
  using assms by (auto simp: shut_pair_def free_chan_def split: if_splits)

lemma shut_pair_peer_is:
  assumes inv: "ipc_inv T k" and c: "chans k c = Some ch" and p: "peer ch = Some d"
    and d: "chans k d = Some dh"
  shows "peer_is (shut_pair c ch d dh k) y x \<longleftrightarrow> y \<noteq> c \<and> peer_is k y x"
proof -
  from peer_known(1,9) [OF inv c p d] show ?thesis using c d by (auto simp: peer_is_def shut_pair_chans shut_self_def shut_peer_def)
qed

lemma shut_pair_on_list:
  assumes inv: "ipc_inv T k" and c: "chans k c = Some ch" and p: "peer ch = Some d"
    and d: "chans k d = Some dh" and l: "l \<noteq> Unlinked"
  shows "on_list (shut_pair c ch d dh k) x l \<longleftrightarrow> on_list k x l"
proof -
  from peer_known(1,6) [OF inv c p d] show ?thesis using c d l by (auto simp: on_list_def shut_pair_chans shut_self_def shut_peer_def)
qed

lemma states_match_DISC [simp]:
  "states_match IPC_CHAN_STATE_DISCONNECTING t \<longleftrightarrow> t = IPC_CHAN_STATE_DISCONNECTING"
  "states_match s IPC_CHAN_STATE_DISCONNECTING \<longleftrightarrow> s = IPC_CHAN_STATE_DISCONNECTING"
  by (auto simp: states_match_def)

lemma linking_DISC [simp]: "\<not> linking IPC_CHAN_STATE_DISCONNECTING"
  by (simp add: linking_def)

lemma chan_ok_shut_pair:
  assumes inv: "ipc_inv T k" and c: "chans k c = Some ch" and p: "peer ch = Some d"
    and d: "chans k d = Some dh"
    and x: "chans (shut_pair c ch d dh k) x = Some xh"
  shows "chan_ok T (shut_pair c ch d dh k) x xh"
proof -
  let ?k = "shut_pair c ch d dh k"
  note okc = chan_okD [OF inv c] and okd = chan_okD [OF inv d]
  note f = peer_known(1-4) [OF inv c p d]
  note pis = shut_pair_peer_is [OF inv c p d]
  have nw: "ch_node ch \<noteq> OnWaiting" "ch_node dh \<noteq> OnWaiting"
    using okc okd f(2) unfolding chan_ok_def state_ok_def states_match_def by (metis chan_state.distinct)+
  have hh: "has_handle ?k x = has_handle k x" "handle_ok ?k x = handle_ok k x"
    using shut_pair_handle [of c ch d dh k x] x by (simp_all add: has_handle_def handle_ok_def)
  consider "x = c" | "x = d" "remove1 (PeerRef c) (refobj dh) \<noteq> []" | "x \<noteq> c" "x \<noteq> d" "chans k x = Some xh"
    using x by (auto simp: shut_pair_chans split: if_splits)
  then show ?thesis
  proof cases
    case 1
    then have xh: "xh = shut_self ch" using x f by (simp add: shut_pair_chans split: if_splits)
    have "\<not> peer_is k c c" using c p f by (simp add: peer_is_def)
    with okc hh pis 1 have "refs_ok T ?k x xh" by (auto simp: xh chan_ok_def refs_ok_def shut_self_def)
    moreover have "peer_ok ?k x xh" by (simp add: xh peer_ok_def shut_self_def)
    moreover have "state_ok T ?k x xh"
      using okc hh 1 nw by (simp add: xh chan_ok_def state_ok_def shut_self_def)
    ultimately show ?thesis using okc hh 1 by (simp add: chan_ok_def)
  next
    case 2
    then have xh: "xh = shut_peer c dh" using x by (simp add: shut_pair_chans)
    have "refs_ok T ?k x xh"
      using okd hh pis 2 f by (auto simp: xh chan_ok_def refs_ok_def shut_peer_def)
    moreover have "peer_ok ?k x xh" unfolding peer_ok_def
    proof (intro conjI allI impI)
      show "peer_ref xh = (peer xh \<noteq> None)" using okd by (simp add: xh chan_ok_def peer_ok_def shut_peer_def)
      fix y assume y: "peer xh = Some y"
      then have y': "peer dh = Some y" by (simp add: xh shut_peer_def)
      with okd 2 show "y \<noteq> x" by (simp add: chan_ok_def peer_ok_def)
      have "\<exists>yh. chans ?k y = Some yh \<and> ch_state yh = IPC_CHAN_STATE_DISCONNECTING"
      proof (cases "y = c")
        case True
        then show ?thesis using f by (simp add: shut_pair_chans shut_self_def)
      next
        case False
        with y' f(3) have "ch_state ch = IPC_CHAN_STATE_DISCONNECTING" by auto
        with f(2) have "ch_state dh = IPC_CHAN_STATE_DISCONNECTING" by simp
        with okd y' obtain yh where "chans k y = Some yh" "ch_state yh = IPC_CHAN_STATE_DISCONNECTING" "y \<noteq> d"
          by (auto simp: chan_ok_def peer_ok_def)
        with False f show ?thesis by (simp add: shut_pair_chans)
      qed
      then show "\<exists>yh. chans ?k y = Some yh \<and> states_match (ch_state xh) (ch_state yh) \<and>
          (ch_state xh \<noteq> IPC_CHAN_STATE_DISCONNECTING \<longrightarrow> peer yh = Some x)"
        by (auto simp: xh shut_peer_def)
    qed
    moreover have "state_ok T ?k x xh"
      using okd hh 2 nw by (simp add: xh chan_ok_def state_ok_def shut_peer_def)
    ultimately show ?thesis using okd hh 2 by (simp add: chan_ok_def)
  next
    case 3
    note okx = chan_okD [OF inv 3(3)]
    have "refs_ok T ?k x xh"
    proof -
      have "peer_is ?k y x = peer_is k y x" for y using pis [of y x] c p 3(2) by (auto simp: peer_is_def)
      with okx hh show ?thesis by (simp add: chan_ok_def refs_ok_def)
    qed
    moreover have "peer_ok ?k x xh" unfolding peer_ok_def
    proof (intro conjI allI impI)
      show "peer_ref xh = (peer xh \<noteq> None)" using okx by (simp add: chan_ok_def peer_ok_def)
      fix y assume y: "peer xh = Some y"
      with okx obtain yh where yh: "y \<noteq> x" "chans k y = Some yh" "states_match (ch_state xh) (ch_state yh)"
        "ch_state xh \<noteq> IPC_CHAN_STATE_DISCONNECTING \<longrightarrow> peer yh = Some x"
        by (auto simp: chan_ok_def peer_ok_def)
      then show "y \<noteq> x" by simp
      have yd: "remove1 (PeerRef c) (refobj dh) \<noteq> []" if "y = d"
      proof
        assume e: "remove1 (PeerRef c) (refobj dh) = []"
        have "PeerRef x \<in> set (refobj dh)"
          using okd y 3(3) that by (auto simp: chan_ok_def refs_ok_def peer_is_def)
        moreover have "refobj dh = [PeerRef c]"
          using e okd f(4) by (simp add: remove1_Nil_iff chan_ok_def refs_ok_def)
        ultimately show False using 3(1) by simp
      qed
      have disc: "ch_state xh = IPC_CHAN_STATE_DISCONNECTING" if "y = c \<or> y = d"
        using that yh(2-4) c p d f 3 by (cases "y = c") (auto simp: states_match_def)
      then show "\<exists>yh. chans ?k y = Some yh \<and> states_match (ch_state xh) (ch_state yh) \<and>
          (ch_state xh \<noteq> IPC_CHAN_STATE_DISCONNECTING \<longrightarrow> peer yh = Some x)"
        using yh yd f(1) by (cases "y = c \<or> y = d") (auto simp: shut_pair_chans shut_self_def shut_peer_def)
    qed
    moreover have "state_ok T ?k x xh" using okx hh by (simp add: chan_ok_def state_ok_def)
    ultimately show ?thesis using okx hh by (simp add: chan_ok_def)
  qed
qed

lemma ipc_inv_shut_pair:
  assumes inv: "ipc_inv T k" and c: "chans k c = Some ch" and p: "peer ch = Some d"
    and d: "chans k d = Some dh"
  shows "ipc_inv T (shut_pair c ch d dh k)"
proof -
  let ?k = "shut_pair c ch d dh k"
  have "chans_inv T ?k" using chan_ok_shut_pair [OF assms] by (simp add: chans_inv_def)
  moreover have "heap_inv ?k"
    using ipc_invD(2) [OF inv] c d
    by (auto simp: heap_inv_def shut_pair_def free_chan_def split: if_splits)
  moreover have "lists_inv ?k"
    using ipc_invD(3) [OF inv] by (subst lists_inv_cong [of _ k]) (simp_all add: shut_pair_on_list [OF assms])
  moreover have "ports_inv ?k"
    using ipc_invD(4) [OF inv] by (subst ports_inv_cong [of _ k]) simp_all
  ultimately show ?thesis by (simp add: ipc_inv_def)
qed

section \<open>Rules for the state part\<close>

lemma state_okD:
  assumes "state_ok T k c ch"
  shows "linking (ch_state ch) \<Longrightarrow> peer ch \<noteq> None" "linking (ch_state ch) \<Longrightarrow> msg_queue ch \<noteq> None"
    "ch_state ch = IPC_CHAN_STATE_INVALID \<Longrightarrow> c \<in> T" "ch_state ch = IPC_CHAN_STATE_INVALID \<Longrightarrow> ch_node ch = Unlinked"
    "ch_state ch = IPC_CHAN_STATE_INVALID \<Longrightarrow> \<not> has_handle k c"
    "ch_node ch = OnWaiting \<Longrightarrow> ch_state ch = IPC_CHAN_STATE_WAITING_FOR_PORT"
    "ch_node ch = OnWaiting \<Longrightarrow> ch_path ch \<noteq> None"
    "ch_state ch = IPC_CHAN_STATE_WAITING_FOR_PORT \<Longrightarrow> ch_node ch = OnWaiting \<or> c \<in> T"
    "ch_node ch = OnPending p \<Longrightarrow> ch_state ch \<in> {IPC_CHAN_STATE_ACCEPTING, IPC_CHAN_STATE_DISCONNECTING}"
    "ch_node ch = OnPending p \<Longrightarrow> ch_flags ch AND IPC_CHAN_FLAG_SERVER \<noteq> 0"
    "ch_node ch = OnPending p \<Longrightarrow> \<not> has_handle k c"
    "ch_state ch = IPC_CHAN_STATE_ACCEPTING \<Longrightarrow> (\<exists>p. ch_node ch = OnPending p) \<or> c \<in> T"
    "ch_state ch = IPC_CHAN_STATE_ACCEPTING \<Longrightarrow> \<not> has_handle k c"
    "ch_state ch \<in> {IPC_CHAN_STATE_CONNECTED, IPC_CHAN_STATE_CONNECTING, IPC_CHAN_STATE_WAITING_FOR_PORT} \<Longrightarrow>
       has_handle k c \<or> c \<in> T"
    "peer ch \<noteq> None \<Longrightarrow> has_handle k c \<or> ch_node ch \<noteq> Unlinked \<or> c \<in> T"
    "msg_queue ch = Some mq \<Longrightarrow> mq_wf mq"
  using assms unfolding state_ok_def by blast+

lemma state_okI:
  assumes "linking (ch_state ch) \<Longrightarrow> peer ch \<noteq> None" "linking (ch_state ch) \<Longrightarrow> msg_queue ch \<noteq> None"
    "ch_state ch = IPC_CHAN_STATE_INVALID \<Longrightarrow> c \<in> T" "ch_state ch = IPC_CHAN_STATE_INVALID \<Longrightarrow> ch_node ch = Unlinked"
    "ch_state ch = IPC_CHAN_STATE_INVALID \<Longrightarrow> \<not> has_handle k c"
    "ch_node ch = OnWaiting \<Longrightarrow> ch_state ch = IPC_CHAN_STATE_WAITING_FOR_PORT"
    "ch_node ch = OnWaiting \<Longrightarrow> ch_path ch \<noteq> None"
    "ch_state ch = IPC_CHAN_STATE_WAITING_FOR_PORT \<Longrightarrow> ch_node ch = OnWaiting \<or> c \<in> T"
    "\<And>p. ch_node ch = OnPending p \<Longrightarrow> ch_state ch \<in> {IPC_CHAN_STATE_ACCEPTING, IPC_CHAN_STATE_DISCONNECTING}"
    "\<And>p. ch_node ch = OnPending p \<Longrightarrow> ch_flags ch AND IPC_CHAN_FLAG_SERVER \<noteq> 0"
    "\<And>p. ch_node ch = OnPending p \<Longrightarrow> \<not> has_handle k c"
    "ch_state ch = IPC_CHAN_STATE_ACCEPTING \<Longrightarrow> (\<exists>p. ch_node ch = OnPending p) \<or> c \<in> T"
    "ch_state ch = IPC_CHAN_STATE_ACCEPTING \<Longrightarrow> \<not> has_handle k c"
    "ch_state ch \<in> {IPC_CHAN_STATE_CONNECTED, IPC_CHAN_STATE_CONNECTING, IPC_CHAN_STATE_WAITING_FOR_PORT} \<Longrightarrow>
       has_handle k c \<or> c \<in> T"
    "peer ch \<noteq> None \<Longrightarrow> has_handle k c \<or> ch_node ch \<noteq> Unlinked \<or> c \<in> T"
    "\<And>mq. msg_queue ch = Some mq \<Longrightarrow> mq_wf mq"
  shows "state_ok T k c ch"
  using assms unfolding state_ok_def by simp

lemma chan_state_ok: "ipc_inv T k \<Longrightarrow> chans k c = Some ch \<Longrightarrow> state_ok T k c ch"
  using chan_okD [of T k c ch] by (simp add: chan_ok_def)

lemma chan_refs_ok: "ipc_inv T k \<Longrightarrow> chans k c = Some ch \<Longrightarrow> refs_ok T k c ch"
  using chan_okD [of T k c ch] by (simp add: chan_ok_def)

lemma chan_peer_ok: "ipc_inv T k \<Longrightarrow> chans k c = Some ch \<Longrightarrow> peer_ok k c ch"
  using chan_okD [of T k c ch] by (simp add: chan_ok_def)

lemma chan_handle_ok: "ipc_inv T k \<Longrightarrow> chans k c = Some ch \<Longrightarrow> handle_ok k c"
  using chan_okD [of T k c ch] by (simp add: chan_ok_def)

section \<open>Changing one channel\<close>

lemma peer_is_cong:
  assumes "chans k c = Some ch" "chans k' = (chans k)(c \<mapsto> ch')" "peer ch' = peer ch"
  shows "peer_is k' = peer_is k"
  using assms by (auto simp: peer_is_def fun_eq_iff)

lemma chans_inv_update_one:
  assumes inv: "chans_inv T k" and c: "chans k c = Some ch"
    and k': "chans k' = (chans k)(c \<mapsto> ch')" and p: "peer ch' = peer ch"
    and h: "\<And>x. x \<noteq> c \<Longrightarrow> handles k' (ChanH x) = handles k (ChanH x)"
    and T: "\<And>x. x \<noteq> c \<Longrightarrow> x \<in> T' \<longleftrightarrow> x \<in> T"
    and s: "ch_state ch' = ch_state ch \<or> (\<forall>d. \<not> peer_is k d c)"
    and ok: "chan_ok T' k' c ch'"
  shows "chans_inv T' k'"
  unfolding chans_inv_def
proof (intro allI impI)
  fix x xh assume x: "chans k' x = Some xh"
  note pis = peer_is_cong [OF c k' p]
  show "chan_ok T' k' x xh"
  proof (cases "x = c")
    case True
    with x k' ok show ?thesis by simp
  next
    case False
    with x k' have xk: "chans k x = Some xh" by simp
    with inv have okx: "chan_ok T k x xh" by (simp add: chans_inv_def)
    have hh: "has_handle k' x = has_handle k x" "handle_ok k' x = handle_ok k x"
      using h [OF False] by (simp_all add: has_handle_def handle_ok_def)
    have "\<exists>yh. chans k' y = Some yh \<and> states_match (ch_state xh) (ch_state yh) \<and>
        (ch_state xh \<noteq> IPC_CHAN_STATE_DISCONNECTING \<longrightarrow> peer yh = Some x)" if "peer xh = Some y" for y
    proof -
      from okx that obtain yh where "chans k y = Some yh" "states_match (ch_state xh) (ch_state yh)"
        "ch_state xh \<noteq> IPC_CHAN_STATE_DISCONNECTING \<longrightarrow> peer yh = Some x"
        by (auto simp: chan_ok_def peer_ok_def)
      moreover have "ch_state ch' = ch_state ch" if "y = c"
        using s \<open>peer xh = Some y\<close> xk that by (auto simp: peer_is_def)
      ultimately show ?thesis using k' c p by (cases "y = c") auto
    qed
    with okx have "peer_ok k' x xh" by (auto simp: chan_ok_def peer_ok_def)
    with okx hh pis T [OF False] show ?thesis
      by (simp add: chan_ok_def refs_ok_def state_ok_def)
  qed
qed

lemma no_peers_iff:
  "ipc_inv T k \<Longrightarrow> chans k c = Some ch \<Longrightarrow> peer_is k d c \<longleftrightarrow> PeerRef d \<in> set (refobj ch)"
  using chan_okD [of T k c ch] by (simp add: chan_ok_def refs_ok_def)

lemma not_peer_of:
  assumes inv: "ipc_inv T k" and c: "chans k c = Some ch"
    and s: "ch_state ch \<in> {IPC_CHAN_STATE_INVALID, IPC_CHAN_STATE_WAITING_FOR_PORT}"
  shows "\<not> peer_is k d c" "peer ch = None"
proof -
  show "\<not> peer_is k d c"
  proof
    assume "peer_is k d c"
    then obtain dh where "chans k d = Some dh" "peer dh = Some c" by (auto simp: peer_is_def)
    with peer_known(2) [OF inv this c] s show False by (auto simp: states_match_def)
  qed
  show "peer ch = None"
  proof (rule ccontr)
    assume "peer ch \<noteq> None"
    then obtain d where d: "peer ch = Some d" by blast
    obtain dh where "chans k d = Some dh" by (rule peer_facts [OF inv c d])
    from peer_known(2) [OF inv c d this] s show False by (auto simp: states_match_def)
  qed
qed

text \<open>Freeing a channel that nothing refers to any more.\<close>

lemma ipc_inv_free:
  assumes inv: "ipc_inv T k" and c: "chans k c = Some ch"
    and u: "ch_node ch = Unlinked" and n: "\<And>d. \<not> peer_is k d c" and p: "peer ch = None"
    and T': "\<And>x. x \<noteq> c \<Longrightarrow> x \<in> T' \<longleftrightarrow> x \<in> T"
  shows "ipc_inv T' (free_chan c k)"
proof -
  let ?k = "free_chan c k"
  have pis: "peer_is ?k d x = peer_is k d x" for d x
    using c p by (auto simp: peer_is_def free_chan_def)
  have "chans_inv T' ?k" unfolding chans_inv_def
  proof (intro allI impI)
    fix x xh assume "chans ?k x = Some xh"
    then have x: "x \<noteq> c" "chans k x = Some xh" by (auto simp: free_chan_def split: if_splits)
    have y: "y \<noteq> c" if "peer xh = Some y" for y using n [of x] x(2) that by (auto simp: peer_is_def)
    show "chan_ok T' ?k x xh"
    proof (rule chan_unchanged [OF chan_okD [OF inv x(2)]])
      show "chans ?k x = Some xh" "handles ?k (ChanH x) = handles k (ChanH x)"
        using x by (simp_all add: free_chan_def)
      show "peer_is ?k d x = peer_is k d x" for d by (rule pis)
      show "chans ?k d = chans k d" if "peer xh = Some d" for d using y [OF that] by (simp add: free_chan_def)
      show "x \<in> T' \<longleftrightarrow> x \<in> T" using T' [OF x(1)] .
    qed
  qed
  moreover have "heap_inv ?k"
    using ipc_invD(2) [OF inv] by (auto simp: heap_inv_def free_chan_def)
  moreover have "lists_inv ?k"
    using ipc_invD(3) [OF inv] c u
    by (subst lists_inv_cong [of _ k]) (auto simp: free_chan_def on_list_def)
  moreover have "ports_inv ?k"
    using ipc_invD(4) [OF inv] by (subst ports_inv_cong [of _ k]) (auto simp: free_chan_def)
  ultimately show ?thesis by (simp add: ipc_inv_def)
qed

text \<open>Dropping the local reference.\<close>

lemma chan_del_tmp:
  assumes inv: "ipc_inv T k" and c: "chans k c = Some ch" and T: "c \<in> T"
    and ok: "has_handle k c \<or> (\<exists>p. ch_node ch = OnPending p) \<or>
      peer ch = None \<and> ch_node ch = Unlinked \<and> ch_state ch \<in> {IPC_CHAN_STATE_INVALID, IPC_CHAN_STATE_DISCONNECTING}"
    and i: "ch_state ch = IPC_CHAN_STATE_INVALID \<Longrightarrow> \<not> has_handle k c"
    and w: "ch_state ch = IPC_CHAN_STATE_WAITING_FOR_PORT \<Longrightarrow> ch_node ch = OnWaiting"
    and a: "ch_state ch = IPC_CHAN_STATE_ACCEPTING \<Longrightarrow> \<exists>p. ch_node ch = OnPending p"
  obtains k' where "chan_del_ref c TmpRef k = Some k'" "ipc_inv (T - {c}) k'"
    "k' = (if remove1 TmpRef (refobj ch) = [] then free_chan c k
       else k\<lparr>chans := (chans k)(c \<mapsto> drop_ref TmpRef ch)\<rparr>)"
proof -
  note okc = chan_okD [OF inv c]
  have tmp: "TmpRef \<in> set (refobj ch)" "distinct (refobj ch)" using okc T by (simp_all add: chan_ok_def refs_ok_def)
  note del = chan_del_self_ref [OF c tmp(1), simplified]
  show ?thesis
  proof (cases "remove1 TmpRef (refobj ch) = []")
    case True
    then have refs: "refobj ch = [TmpRef]" using tmp by (simp add: remove1_Nil_iff)
    with okc have n: "\<not> has_handle k c" "ch_node ch = Unlinked" "\<And>d. \<not> peer_is k d c"
      by (auto simp: chan_ok_def refs_ok_def)
    with ok have "peer ch = None" by auto
    with ipc_inv_free [OF inv c n(2,3), of "T - {c}"] del True n(2) that show ?thesis by auto
  next
    case False
    let ?ch = "drop_ref TmpRef ch" and ?k = "k\<lparr>chans := (chans k)(c \<mapsto> drop_ref TmpRef ch)\<rparr>"
    have pis: "peer_is ?k = peer_is k" by (rule peer_is_cong [OF c, where ch' = "drop_ref TmpRef ch"]) (simp_all add: drop_ref_def)
    have hh: "has_handle ?k c = has_handle k c" "handle_ok ?k c = handle_ok k c"
      by (simp_all add: has_handle_def handle_ok_def)
    have inval: "ch_state ch \<noteq> IPC_CHAN_STATE_INVALID"
    proof
      assume s: "ch_state ch = IPC_CHAN_STATE_INVALID"
      then have "ch_node ch = Unlinked" using okc by (simp add: chan_ok_def state_ok_def)
      moreover have "\<not> peer_is k d c" for d using not_peer_of(1) [OF inv c] s by simp
      ultimately have "set (refobj ch) \<subseteq> {TmpRef}"
        using okc i [OF s] unfolding chan_ok_def refs_ok_def by (metis chan_ref.exhaust insertCI subsetI)
      then have "remove1 TmpRef (refobj ch) = []" using tmp by (cases "refobj ch") (auto simp: subset_singleton_iff)
      with False show False by simp
    qed
    have refs: "refs_ok (T - {c}) ?k c ?ch"
      using okc hh pis tmp False by (auto simp: chan_ok_def refs_ok_def drop_ref_def)
    have peer: "peer_ok ?k c ?ch"
      using okc by (auto simp: chan_ok_def peer_ok_def drop_ref_def)
    have state: "state_ok (T - {c}) ?k c ?ch"
    proof (rule state_okI)
      note st = state_okD [OF chan_state_ok [OF inv c]]
      show "peer ?ch \<noteq> None" "msg_queue ?ch \<noteq> None" if "linking (ch_state ?ch)"
        using st(1,2) that by (simp_all add: drop_ref_def)
      show "c \<in> T - {c}" "ch_node ?ch = Unlinked" "\<not> has_handle ?k c" if "ch_state ?ch = IPC_CHAN_STATE_INVALID"
        using that inval by (simp_all add: drop_ref_def)
      show "ch_state ?ch = IPC_CHAN_STATE_WAITING_FOR_PORT" "ch_path ?ch \<noteq> None" if "ch_node ?ch = OnWaiting"
        using st(6,7) that by (simp_all add: drop_ref_def)
      show "ch_node ?ch = OnWaiting \<or> c \<in> T - {c}" if "ch_state ?ch = IPC_CHAN_STATE_WAITING_FOR_PORT"
        using w that by (simp add: drop_ref_def)
      show "ch_state ?ch \<in> {IPC_CHAN_STATE_ACCEPTING, IPC_CHAN_STATE_DISCONNECTING}"
        "ch_flags ?ch AND IPC_CHAN_FLAG_SERVER \<noteq> 0" "\<not> has_handle ?k c" if "ch_node ?ch = OnPending p" for p
        using st(9-11) that hh by (simp_all add: drop_ref_def)
      show "(\<exists>p. ch_node ?ch = OnPending p) \<or> c \<in> T - {c}" "\<not> has_handle ?k c"
        if "ch_state ?ch = IPC_CHAN_STATE_ACCEPTING"
        using a st(13) that hh by (simp_all add: drop_ref_def)
      show "has_handle ?k c \<or> c \<in> T - {c}"
        if "ch_state ?ch \<in> {IPC_CHAN_STATE_CONNECTED, IPC_CHAN_STATE_CONNECTING, IPC_CHAN_STATE_WAITING_FOR_PORT}"
        using ok st(9) that hh by (auto simp: drop_ref_def)
      show "has_handle ?k c \<or> ch_node ?ch \<noteq> Unlinked \<or> c \<in> T - {c}" if "peer ?ch \<noteq> None"
        using ok that hh by (auto simp: drop_ref_def)
      show "mq_wf mq" if "msg_queue ?ch = Some mq" for mq
        using st(16) that by (simp add: drop_ref_def)
    qed
    have "chan_ok (T - {c}) ?k c ?ch" using okc hh refs peer state by (simp add: chan_ok_def)
    then have "chans_inv (T - {c}) ?k"
      using c by (intro chans_inv_update_one [OF ipc_invD(1) [OF inv] c]) (auto simp: drop_ref_def)
    moreover have "heap_inv ?k" using ipc_invD(2) [OF inv] c by (auto simp: heap_inv_def)
    moreover have "lists_inv ?k" using ipc_invD(3) [OF inv] c
      by (subst lists_inv_cong [of _ k]) (auto simp: on_list_def drop_ref_def)
    moreover have "ports_inv ?k" using ipc_invD(4) [OF inv] by (subst ports_inv_cong [of _ k]) auto
    ultimately have "ipc_inv (T - {c}) ?k" by (simp add: ipc_inv_def)
    with del False that show ?thesis by auto
  qed
qed

section \<open>The whole shutdown\<close>

text \<open>What routines on channels leave alone.\<close>

definition port_frame :: "kern \<Rightarrow> kern \<Rightarrow> bool" where
  "port_frame k k' \<longleftrightarrow> ports k' = ports k \<and> ipc_port_list k' = ipc_port_list k \<and>
     (\<forall>p. handles k' (PortH p) = handles k (PortH p)) \<and> hlists k' = hlists k"

lemma port_frame_refl [simp]: "port_frame k k"
  by (simp add: port_frame_def)

lemma port_frame_trans: "port_frame k k' \<Longrightarrow> port_frame k' k'' \<Longrightarrow> port_frame k k''"
  by (simp add: port_frame_def)

lemma lists_waiting:
  "ipc_inv T k \<Longrightarrow> c \<in> set (waiting_for_port_chan_list k) \<longleftrightarrow> on_list k c OnWaiting"
  "ipc_inv T k \<Longrightarrow> distinct (waiting_for_port_chan_list k)"
  using ipc_invD(3) [of T k] by (simp_all add: lists_inv_def)

lemma lists_pending:
  "ipc_inv T k \<Longrightarrow> ports k p = Some po \<Longrightarrow> c \<in> set (pending_list po) \<longleftrightarrow> on_list k c (OnPending p)"
  "ipc_inv T k \<Longrightarrow> ports k p = Some po \<Longrightarrow> distinct (pending_list po)"
  "ipc_inv T k \<Longrightarrow> on_list k c (OnPending p) \<Longrightarrow> ports k p \<noteq> None"
  using ipc_invD(3) [of T k] by (auto simp: lists_inv_def)

lemma lists_inv_unlink_waiting:
  assumes inv: "lists_inv k" and c: "chans k c = Some ch"
    and k': "chans k' = (chans k)(c \<mapsto> ch')" "ch_node ch = OnWaiting" "ch_node ch' = Unlinked"
    "ports k' = ports k" "waiting_for_port_chan_list k' = remove1 c (waiting_for_port_chan_list k)"
  shows "lists_inv k'"
proof -
  have ol: "on_list k' x l \<longleftrightarrow> on_list k x l \<and> x \<noteq> c" if "l \<noteq> Unlinked" for x l
    using c k' that by (auto simp: on_list_def)
  have "on_list k c (OnPending p) = False" for p using c k' by (auto simp: on_list_def)
  with inv k' ol show ?thesis by (auto simp: lists_inv_def)
qed

lemma ipc_inv_waiting_off:
  assumes inv: "ipc_inv T k" and c: "chans k c = Some ch" and n: "ch_node ch = OnWaiting"
    and k': "chans k' = (chans k)(c \<mapsto> ch')" "waiting_for_port_chan_list k' = remove1 c (waiting_for_port_chan_list k)"
    "ports k' = ports k" "handles k' = handles k" "ipc_port_list k' = ipc_port_list k"
    "next_chan k' = next_chan k" "next_port k' = next_port k"
    and ch': "ch_node ch' = Unlinked" "peer ch' = None" "peer_ref ch' = peer_ref ch"
    "msg_queue ch' = msg_queue ch" "refobj ch' \<noteq> []" "distinct (refobj ch')"
    "\<And>r. r \<notin> {TmpRef, NodeRef} \<Longrightarrow> r \<in> set (refobj ch') \<longleftrightarrow> r \<in> set (refobj ch)"
    "NodeRef \<notin> set (refobj ch')" "TmpRef \<in> set (refobj ch') \<longleftrightarrow> c \<in> T'"
    and T': "\<And>x. x \<noteq> c \<Longrightarrow> x \<in> T' \<longleftrightarrow> x \<in> T"
    and s: "ch_state ch' = IPC_CHAN_STATE_DISCONNECTING \<or>
      ch_state ch' = IPC_CHAN_STATE_WAITING_FOR_PORT \<and> c \<in> T'"
  shows "ipc_inv T' k'"
proof -
  have w: "ch_state ch = IPC_CHAN_STATE_WAITING_FOR_PORT"
    using state_okD(6) [OF chan_state_ok [OF inv c]] n by simp
  note np = not_peer_of [OF inv c, unfolded w, simplified]
  have p: "peer ch' = peer ch" using np(2) ch'(2) by simp
  have pis: "peer_is k' = peer_is k" using peer_is_cong [OF c k'(1) p] .
  have hh: "has_handle k' c = has_handle k c" "handle_ok k' c = handle_ok k c"
    using k' by (simp_all add: has_handle_def handle_ok_def)
  have "refs_ok T' k' c ch'"
    using chan_refs_ok [OF inv c] ch' pis hh by (simp add: refs_ok_def)
  moreover have "peer_ok k' c ch'"
    using chan_peer_ok [OF inv c] ch' np(2) by (simp add: peer_ok_def)
  moreover have "state_ok T' k' c ch'"
    using s ch' state_okD(16) [OF chan_state_ok [OF inv c]]
    by (intro state_okI) (auto simp: linking_def)
  ultimately have "chan_ok T' k' c ch'"
    using chan_handle_ok [OF inv c] hh by (simp add: chan_ok_def)
  then have "chans_inv T' k'"
    using k' np(1) T' by (intro chans_inv_update_one [OF ipc_invD(1) [OF inv] c _ p]) simp_all
  moreover have "heap_inv k'" using ipc_invD(2) [OF inv] c k' by (auto simp: heap_inv_def)
  moreover have "lists_inv k'" using lists_inv_unlink_waiting [OF ipc_invD(3) [OF inv] c] k' n ch' by simp
  moreover have "ports_inv k'" using ipc_invD(4) [OF inv] k' by (subst ports_inv_cong [of _ k]) simp_all
  ultimately show ?thesis by (simp add: ipc_inv_def)
qed

text \<open>
  Shutting down a channel always succeeds, unless it waits for a port and has been taken
  off the waiting list. Afterwards it has no peer and it can be closed.
\<close>

definition shut :: "ipc_chan \<Rightarrow> bool" where
  "shut ch \<longleftrightarrow> peer ch = None \<and> ch_state ch \<in> {IPC_CHAN_STATE_INVALID, IPC_CHAN_STATE_DISCONNECTING}"

lemma chan_shutdown_waiting:
  assumes inv: "ipc_inv T k" and c: "chans k c = Some ch" and n: "ch_node ch = OnWaiting"
  defines "ch' \<equiv> ch\<lparr>ch_node := Unlinked, refobj := remove1 NodeRef (refobj ch), ch_state := IPC_CHAN_STATE_DISCONNECTING\<rparr>"
  defines "k' \<equiv> k\<lparr>chans := (chans k)(c \<mapsto> ch'), waiting_for_port_chan_list := remove1 c (waiting_for_port_chan_list k)\<rparr>"
  shows "chan_shutdown_locked c k = Some k'" "ipc_inv T k'"
proof -
  have w: "ch_state ch = IPC_CHAN_STATE_WAITING_FOR_PORT"
    using state_okD(6) [OF chan_state_ok [OF inv c]] n by simp
  note np = not_peer_of(2) [OF inv c, unfolded w, simplified]
  note refs = chan_refs_ok [OF inv c, unfolded refs_ok_def]
  have node: "NodeRef \<in> set (refobj ch)" using refs n by simp
  have hold: "has_handle k c \<or> c \<in> T" using state_okD(14) [OF chan_state_ok [OF inv c]] w by simp
  then have "HandleRef \<in> set (refobj ch) \<or> TmpRef \<in> set (refobj ch)" using refs by blast
  then have ne: "remove1 NodeRef (refobj ch) \<noteq> []" by (metis in_set_remove1 chan_ref.distinct empty_iff empty_set)
  let ?k1 = "k\<lparr>waiting_for_port_chan_list := remove1 c (waiting_for_port_chan_list k),
    chans := (chans k)(c \<mapsto> ch\<lparr>ch_node := Unlinked\<rparr>)\<rparr>"
  have "chan_del_ref c NodeRef ?k1 = Some (?k1\<lparr>chans := (chans ?k1)(c \<mapsto> drop_ref NodeRef (ch\<lparr>ch_node := Unlinked\<rparr>))\<rparr>)"
    using chan_del_self_ref [of ?k1 c "ch\<lparr>ch_node := Unlinked\<rparr>" NodeRef] node ne by simp
  then show "chan_shutdown_locked c k = Some k'"
    using c w n np by (simp add: chan_shutdown_locked_def chan_shutdown_one_def node_list_delete_def
        drop_ref_def k'_def ch'_def)
  show "ipc_inv T k'"
    using np ne refs
    by (intro ipc_inv_waiting_off [OF inv c n, where ch' = ch']) (auto simp: k'_def ch'_def)
qed

lemma chan_shutdown_ok:
  assumes inv: "ipc_inv T k" and c: "chans k c = Some ch"
    and w: "ch_state ch = IPC_CHAN_STATE_WAITING_FOR_PORT \<Longrightarrow> ch_node ch = OnWaiting"
  obtains k' ch' where "chan_shutdown_locked c k = Some k'" "ipc_inv T k'" "chans k' c = Some ch'" "shut ch'"
    "port_frame k k'" "handles k' (ChanH c) = handles k (ChanH c)"
    "ch_node ch' = (if ch_node ch = OnWaiting then Unlinked else ch_node ch)"
    "refobj ch' = (if ch_node ch = OnWaiting then remove1 NodeRef (refobj ch) else refobj ch)"
proof (cases "peer ch")
  case (Some d)
  obtain dh where d: "chans k d = Some dh" by (rule peer_facts [OF inv c Some])
  obtain e where e: "chan_shutdown_locked c k = Some ((shut_pair c ch d dh k)\<lparr>events := e\<rparr>)"
    by (rule chan_shutdown_locked_peer [OF inv c Some d])
  have cd: "c \<noteq> d" using peer_known(1) [OF inv c Some d] .
  then have ch': "chans (shut_pair c ch d dh k) c = Some (shut_self ch)" by (simp add: shut_pair_chans)
  have "ch_node ch \<noteq> OnWaiting"
  proof
    assume "ch_node ch = OnWaiting"
    with state_okD(6) [OF chan_state_ok [OF inv c]] not_peer_of(2) [OF inv c] Some show False by simp
  qed
  moreover have "hlists (shut_pair c ch d dh k) = hlists k" by (simp add: shut_pair_def free_chan_def)
  ultimately show ?thesis
    using ch' ipc_inv_shut_pair [OF inv c Some d] shut_pair_handle [of c ch d dh k c]
    by (intro that [OF e, of "shut_self ch"]) (auto simp: shut_def shut_self_def port_frame_def)
next
  case None
  then have nl: "\<not> linking (ch_state ch)" using state_okD(1) [OF chan_state_ok [OF inv c]] by blast
  show ?thesis
  proof (cases "ch_node ch = OnWaiting")
    case True
    note sw = chan_shutdown_waiting [OF inv c True]
    show ?thesis
      by (rule that [OF sw]) (use None True in \<open>auto simp: shut_def port_frame_def\<close>)
  next
    case False
    with w have "ch_state ch \<noteq> IPC_CHAN_STATE_WAITING_FOR_PORT" by blast
    with nl have s: "ch_state ch \<in> {IPC_CHAN_STATE_INVALID, IPC_CHAN_STATE_DISCONNECTING}"
      by (cases "ch_state ch") (simp_all add: linking_def)
    then have "chan_shutdown_locked c k = Some k"
      using c None by (auto simp: chan_shutdown_locked_def chan_shutdown_one_def)
    then show ?thesis by (rule that [OF _ inv c]) (use s None False in \<open>auto simp: shut_def\<close>)
  qed
qed

section \<open>Taking a server off the pending list\<close>

text \<open>
  The port keeps one reference less; the caller holds a reference of its own, so that
  the count does not reach zero.
\<close>

definition port_held :: "kern \<Rightarrow> nat \<Rightarrow> bool" where
  "port_held k p \<longleftrightarrow> (\<exists>po hn. ports k p = Some po \<and> handles k (PortH p) = Some hn \<and> port_refs k p po < refcnt hn)"

lemma port_held_frame: "port_frame k k' \<Longrightarrow> port_held k' p = port_held k p"
  by (simp add: port_frame_def port_held_def port_refs_def)

text \<open>The references to a port that neither its listing nor a pending connection accounts for.\<close>

definition spare :: "kern \<Rightarrow> nat \<Rightarrow> int" where
  "spare k p = refcnt (the (handles k (PortH p))) - port_refs k p (the (ports k p))"

lemma spare_frame: "port_frame k k' \<Longrightarrow> spare k' p = spare k p"
  by (simp add: port_frame_def spare_def port_refs_def)

lemma lists_inv_unlink_pending:
  assumes inv: "lists_inv k" and c: "chans k c = Some ch" and p: "ports k p = Some po"
    and n: "ch_node ch = OnPending p" and c': "\<And>x. x \<noteq> c \<Longrightarrow> chans k' x = chans k x"
    and u: "\<And>ch'. chans k' c = Some ch' \<Longrightarrow> ch_node ch' = Unlinked"
    and p': "ports k' = (ports k)(p \<mapsto> po')" "pending_list po' = remove1 c (pending_list po)"
    and w: "waiting_for_port_chan_list k' = waiting_for_port_chan_list k"
  shows "lists_inv k'"
proof -
  have ol: "on_list k' x l \<longleftrightarrow> on_list k x l \<and> x \<noteq> c" if "l \<noteq> Unlinked" for x l
    using that u c' by (cases "x = c") (auto simp: on_list_def)
  have oc: "on_list k c l \<longleftrightarrow> l = OnPending p" for l using c n by (auto simp: on_list_def)
  have "distinct (pending_list po)" "\<And>x. x \<in> set (pending_list po) \<longleftrightarrow> on_list k x (OnPending p)"
    using inv p by (auto simp: lists_inv_def)
  then have po': "distinct (pending_list po')"
    "\<And>x. x \<in> set (pending_list po') \<longleftrightarrow> on_list k' x (OnPending p)"
    using p'(2) ol by auto
  show ?thesis unfolding lists_inv_def
  proof (intro conjI allI impI)
    show "distinct (waiting_for_port_chan_list k')" using inv w by (simp add: lists_inv_def)
    show "x \<in> set (waiting_for_port_chan_list k') \<longleftrightarrow> on_list k' x OnWaiting" for x
      using inv w ol [of OnWaiting x] oc by (auto simp: lists_inv_def)
    fix q qo assume q: "ports k' q = Some qo"
    show "distinct (pending_list qo)" using q p' po' inv by (cases "q = p") (auto simp: lists_inv_def)
    show "x \<in> set (pending_list qo) \<longleftrightarrow> on_list k' x (OnPending q)" for x
    proof (cases "q = p")
      case True
      with q p' po' show ?thesis by simp
    next
      case False
      with q p' inv have "x \<in> set (pending_list qo) \<longleftrightarrow> on_list k x (OnPending q)"
        by (simp add: lists_inv_def)
      with ol [of "OnPending q" x] oc False show ?thesis by auto
    qed
  next
    fix x q assume "on_list k' x (OnPending q)"
    then have "on_list k x (OnPending q)" using ol by auto
    with inv p' show "ports k' q \<noteq> None" by (auto simp: lists_inv_def)
  qed
qed

lemma ports_paths:
  assumes "ports_inv k" "q \<in> set (ipc_port_list k)" "r \<in> set (ipc_port_list k)"
    "ports k q = Some qo" "ports k r = Some ro" "po_path qo = po_path ro"
  shows "q = r"
  using assms unfolding ports_inv_def by blast

lemma port_ok_cong:
  assumes "handles k' (PortH q) = handles k (PortH q)" "q \<in> set (ipc_port_list k') \<longleftrightarrow> q \<in> set (ipc_port_list k)"
  shows "port_ok k' q qo = port_ok k q qo"
  using assms by (simp add: port_ok_def port_refs_def)

lemma ports_inv_update_port:
  assumes inv: "ports_inv k" and p: "ports k p = Some po" and p': "ports k' = (ports k)(p \<mapsto> po')"
    and path: "po_path po' = po_path po" and l': "ipc_port_list k' = ipc_port_list k"
    and h': "\<And>q. q \<noteq> p \<Longrightarrow> handles k' (PortH q) = handles k (PortH q)" and okp: "port_ok k' p po'"
  shows "ports_inv k'"
  unfolding ports_inv_def
proof (intro conjI allI impI ballI)
  have okq: "port_ok k' q qo" if "ports k q = Some qo" "q \<noteq> p" for q qo
    using inv that h' l' port_ok_cong [of k' q k qo] by (simp add: ports_inv_def)
  show "port_ok k' q qo" if "ports k' q = Some qo" for q qo
    using that p' okp okq by (cases "q = p") auto
  show "distinct (ipc_port_list k')" using inv l' by (simp add: ports_inv_def)
  show "ports k' q \<noteq> None" if "q \<in> set (ipc_port_list k')" for q
    using inv l' p' that by (auto simp: ports_inv_def)
  have path: "\<exists>xo'. ports k x = Some xo' \<and> po_path xo' = po_path xo" if "ports k' x = Some xo" for x xo
    using that p p' path by (cases "x = p") auto
  fix q r qo ro assume a: "q \<in> set (ipc_port_list k')" "r \<in> set (ipc_port_list k')"
    "ports k' q = Some qo" "ports k' r = Some ro" "po_path qo = po_path ro"
  obtain qo' ro' where "ports k q = Some qo'" "ports k r = Some ro'" "po_path qo' = po_path ro'"
    using path [OF a(3)] path [OF a(4)] a(5) by auto
  then show "q = r" using ports_paths [OF inv] a(1,2) l' by simp
qed

lemma ports_inv_unlink_pending:
  assumes inv: "ports_inv k" and p: "ports k p = Some po" and hn: "handles k (PortH p) = Some hn"
    and held: "port_refs k p po < refcnt hn" and mem: "c \<in> set (pending_list po)"
    and p': "ports k' = (ports k)(p \<mapsto> po\<lparr>pending_list := remove1 c (pending_list po)\<rparr>)"
    and h': "handles k' (PortH p) = Some (hn\<lparr>refcnt := refcnt hn - 1\<rparr>)"
    "\<And>q. q \<noteq> p \<Longrightarrow> handles k' (PortH q) = handles k (PortH q)"
    and l': "ipc_port_list k' = ipc_port_list k"
  shows "ports_inv k'" "port_held k' p"
proof -
  let ?po = "po\<lparr>pending_list := remove1 c (pending_list po)\<rparr>"
  have len: "int (length (pending_list ?po)) = int (length (pending_list po)) - 1"
    using mem length_pos_if_in_set [OF mem] by (simp add: length_remove1 del: length_greater_0_conv)
  then have refs: "port_refs k' p ?po = port_refs k p po - 1" using l' by (simp add: port_refs_def)
  have pos: "0 \<le> port_refs k' p ?po" by (simp add: port_refs_def)
  have "port_ok k p po" using inv p by (simp add: ports_inv_def)
  then have okp: "port_ok k' p ?po"
    using hn held refs pos h'(1) l' by (auto simp: port_ok_def)
  show "ports_inv k'"
    by (rule ports_inv_update_port [OF inv p p' _ l' h'(2) okp]) simp_all
  show "port_held k' p"
    using p' h'(1) refs held by (simp add: port_held_def)
qed

text \<open>
  The state in which a routine has taken a server channel off the pending list and refers
  to it by a local variable.
\<close>

definition taken :: "nat \<Rightarrow> nat \<Rightarrow> ipc_chan \<Rightarrow> ipc_port \<Rightarrow> ipc_ops handle \<Rightarrow> kern \<Rightarrow> kern" where
  "taken p s sch po hn k = k
     \<lparr>chans := (chans k)(s \<mapsto> sch\<lparr>ch_node := Unlinked, refobj := remove1 NodeRef (refobj sch) @ [TmpRef]\<rparr>),
      ports := (ports k)(p \<mapsto> po\<lparr>pending_list := remove1 s (pending_list po)\<rparr>),
      handles := (handles k)(PortH p \<mapsto> hn\<lparr>refcnt := refcnt hn - 1\<rparr>)\<rparr>"

lemma port_heldD:
  assumes "ipc_inv T k" "port_held k p" "ports k p = Some po" "handles k (PortH p) = Some hn"
  shows "port_refs k p po < refcnt hn" "ops hn = Some ipc_port_handle_ops"
  using assms port_okD [of T k p po] by (auto simp: port_held_def port_ok_def)

lemma ipc_inv_taken:
  assumes inv: "ipc_inv T k" and s: "chans k s = Some sch" and n: "ch_node sch = OnPending p"
    and p: "ports k p = Some po" and hn: "handles k (PortH p) = Some hn" and held: "port_held k p"
    and nT: "s \<notin> T"
  shows "ipc_inv (insert s T) (taken p s sch po hn k)" "port_held (taken p s sch po hn k) p"
proof -
  let ?k = "taken p s sch po hn k"
  let ?s = "sch\<lparr>ch_node := Unlinked, refobj := remove1 NodeRef (refobj sch) @ [TmpRef]\<rparr>"
  have ks: "chans ?k = (chans k)(s \<mapsto> ?s)" by (simp add: taken_def)
  have pis: "peer_is ?k = peer_is k" by (rule peer_is_cong [OF s ks]) simp
  have hh: "has_handle ?k s = has_handle k s" "handle_ok ?k s = handle_ok k s"
    by (simp_all add: has_handle_def handle_ok_def taken_def)
  note st = state_okD [OF chan_state_ok [OF inv s]]
  note refs = chan_refs_ok [OF inv s, unfolded refs_ok_def]
  have mem: "s \<in> set (pending_list po)" using lists_pending(1) [OF inv p] s n by (auto simp: on_list_def)
  have "refs_ok (insert s T) ?k s ?s"
    using refs pis hh nT by (auto simp: refs_ok_def)
  moreover have "peer_ok ?k s ?s"
    using chan_peer_ok [OF inv s] by (auto simp: peer_ok_def taken_def)
  moreover have "state_ok (insert s T) ?k s ?s"
    using st(1,2,16) st(9) [OF n] st(11) [OF n] hh by (intro state_okI) auto
  ultimately have "chan_ok (insert s T) ?k s ?s"
    using chan_handle_ok [OF inv s] hh by (simp add: chan_ok_def)
  then have "chans_inv (insert s T) ?k"
    by (intro chans_inv_update_one [OF ipc_invD(1) [OF inv] s ks]) (simp_all add: taken_def)
  moreover have "heap_inv ?k" using ipc_invD(2) [OF inv] s p by (auto simp: heap_inv_def taken_def)
  moreover have "lists_inv ?k"
    by (rule lists_inv_unlink_pending [OF ipc_invD(3) [OF inv] s p n]) (auto simp: taken_def)
  moreover note pi = ports_inv_unlink_pending [OF ipc_invD(4) [OF inv] p hn port_heldD(1) [OF inv held p hn] mem, of ?k]
  have "ports_inv ?k" by (rule pi(1)) (simp_all add: taken_def)
  ultimately show "ipc_inv (insert s T) ?k" by (simp add: ipc_inv_def)
  show "port_held ?k p" by (rule pi(2)) (simp_all add: taken_def)
qed

lemma port_held_refs:
  assumes "ipc_inv T k" "port_held k p" "ports k p = Some po" "handles k (PortH p) = Some hn" "s \<in> set (pending_list po)"
  shows "refcnt hn \<noteq> 1"
proof -
  have "0 < length (pending_list po)" using assms(5) by (cases "pending_list po") auto
  then have "1 \<le> port_refs k p po" by (simp add: port_refs_def Suc_le_eq)
  with port_heldD(1) [OF assms(1-4)] show ?thesis by simp
qed

text \<open>Dropping a server that has been shut down from the pending list.\<close>

lemma pending_drop:
  assumes inv: "ipc_inv T k" and s: "chans k s = Some sch" and n: "ch_node sch = OnPending p"
    and p: "ports k p = Some po" and held: "port_held k p" and sh: "shut sch" and nT: "s \<notin> T"
  obtains k' where "do { k \<leftarrow> node_list_delete s k; k \<leftarrow> chan_del_ref s NodeRef k; handle_decref ipc_destroy (PortH p) k } = Some k'"
    "ipc_inv T k'" "port_held k' p" "ports k' = (ports k)(p \<mapsto> po\<lparr>pending_list := remove1 s (pending_list po)\<rparr>)"
    "ipc_port_list k' = ipc_port_list k" "hlists k' = hlists k"
    "\<And>x. x \<noteq> s \<Longrightarrow> chans k' x = chans k x" "\<And>x. x \<noteq> s \<Longrightarrow> handles k' (ChanH x) = handles k (ChanH x)"
    "\<And>q. q \<noteq> p \<Longrightarrow> handles k' (PortH q) = handles k (PortH q)" "spare k' p = spare k p"
proof -
  obtain hn where hn: "handles k (PortH p) = Some hn" using held by (auto simp: port_held_def)
  let ?A = "taken p s sch po hn k"
  let ?sA = "sch\<lparr>ch_node := Unlinked, refobj := remove1 NodeRef (refobj sch) @ [TmpRef]\<rparr>"
  note A = ipc_inv_taken [OF inv s n p hn held nT]
  note refs = chan_refs_ok [OF inv s, unfolded refs_ok_def]
  have node: "NodeRef \<in> set (refobj sch)" using refs n by simp
  have nt: "TmpRef \<notin> set (remove1 NodeRef (refobj sch))" using refs nT by simp
  have nh: "\<not> has_handle k s" using state_okD(11) [OF chan_state_ok [OF inv s] n] .
  have sA: "chans ?A s = Some ?sA" by (simp add: taken_def)
  have disc: "peer sch = None" "ch_state sch = IPC_CHAN_STATE_DISCONNECTING"
    using sh state_okD(9) [OF chan_state_ok [OF inv s] n] by (auto simp: shut_def)
  have mem: "s \<in> set (pending_list po)" using lists_pending(1) [OF inv p] s n by (auto simp: on_list_def)
  have rr: "remove1 TmpRef (remove1 NodeRef (refobj sch) @ [TmpRef]) = remove1 NodeRef (refobj sch)"
    using nt by (simp add: remove1_append)
  obtain k' where k': "ipc_inv (insert s T - {s}) k'"
    "k' = (if remove1 TmpRef (refobj ?sA) = [] then free_chan s ?A else ?A\<lparr>chans := (chans ?A)(s \<mapsto> drop_ref TmpRef ?sA)\<rparr>)"
    by (rule chan_del_tmp [OF A(1) sA]) (use disc in simp_all)
  let ?k1 = "k\<lparr>ports := (ports k)(p \<mapsto> po\<lparr>pending_list := remove1 s (pending_list po)\<rparr>),
    chans := (chans k)(s \<mapsto> sch\<lparr>ch_node := Unlinked\<rparr>)\<rparr>"
  have d1: "node_list_delete s k = Some ?k1" using s n p by (simp add: node_list_delete_def)
  have d2: "chan_del_ref s NodeRef ?k1 = Some (if remove1 NodeRef (refobj sch) = [] then free_chan s ?k1
      else ?k1\<lparr>chans := (chans ?k1)(s \<mapsto> drop_ref NodeRef (sch\<lparr>ch_node := Unlinked\<rparr>))\<rparr>)"
    using chan_del_self_ref [of ?k1 s "sch\<lparr>ch_node := Unlinked\<rparr>" NodeRef] node disc by simp
  have ref1: "refcnt hn \<noteq> 1" using port_held_refs [OF inv held p hn mem] .
  have "handle_decref ipc_destroy (PortH p) (if remove1 NodeRef (refobj sch) = [] then free_chan s ?k1
      else ?k1\<lparr>chans := (chans ?k1)(s \<mapsto> drop_ref NodeRef (sch\<lparr>ch_node := Unlinked\<rparr>))\<rparr>) = Some k'"
    using hn ref1 k'(2) rr
    by (auto simp: handle_decref_shared free_chan_def taken_def drop_ref_def fun_upd_twist kern_commute)
  with d1 d2 have code: "do { k \<leftarrow> node_list_delete s k; k \<leftarrow> chan_del_ref s NodeRef k; handle_decref ipc_destroy (PortH p) k } = Some k'"
    by simp
  have nTs: "insert s T - {s} = T" using nT by auto
  have frame: "ports k' = ports ?A" "ipc_port_list k' = ipc_port_list ?A" "hlists k' = hlists ?A"
    "handles k' (PortH q) = handles ?A (PortH q)" "x \<noteq> s \<Longrightarrow> chans k' x = chans ?A x"
    "x \<noteq> s \<Longrightarrow> handles k' (ChanH x) = handles ?A (ChanH x)" for q x
    using k'(2) by (simp_all add: free_chan_def)
  show ?thesis
  proof (rule that [OF code])
    show "ipc_inv T k'" using k'(1) nTs by simp
    show "port_held k' p" using A(2) frame by (simp add: port_held_def port_refs_def)
    show "spare k' p = spare k p"
      using frame hn p mem length_pos_if_in_set [OF mem] by (simp add: spare_def port_refs_def taken_def length_remove1 of_nat_diff Suc_leI)
  qed (use frame in \<open>simp_all add: taken_def\<close>)
qed

section \<open>Attaching a client\<close>

definition new_server :: "nat \<Rightarrow> nat \<Rightarrow> ipc_port \<Rightarrow> ipc_msg_queue \<Rightarrow> ipc_chan" where
  "new_server p c po mq = \<lparr>refobj = [PeerRef c, NodeRef], peer_ref = True, peer = Some c, ch_uuid = po_uuid po,
     ch_state = IPC_CHAN_STATE_ACCEPTING, ch_flags = IPC_CHAN_FLAG_SERVER, aux_state = 0,
     ch_node = OnPending p, msg_queue = Some mq, ch_path = None\<rparr>"

definition new_client :: "nat \<Rightarrow> ipc_msg_queue \<Rightarrow> ipc_chan \<Rightarrow> ipc_chan" where
  "new_client s mq ch = ch\<lparr>msg_queue := Some mq, ch_state := IPC_CHAN_STATE_CONNECTING, peer_ref := True,
     peer := Some s, refobj := refobj ch @ [PeerRef s]\<rparr>"

definition attached ::
  "nat \<Rightarrow> nat \<Rightarrow> ipc_chan \<Rightarrow> ipc_port \<Rightarrow> ipc_ops handle \<Rightarrow> ipc_msg_queue \<Rightarrow> ipc_msg_queue \<Rightarrow> bool list \<Rightarrow> kern \<Rightarrow> kern" where
  "attached p c ch po hn mq1 mq2 al k = (let s = next_chan k in
     k\<lparr>chans := (chans k)(c \<mapsto> new_client s mq1 ch, s \<mapsto> new_server p c po mq2),
       ports := (ports k)(p \<mapsto> po\<lparr>pending_list := pending_list po @ [s]\<rparr>),
       handles := (handles k)(ChanH s \<mapsto> zero_handle, PortH p \<mapsto> hn\<lparr>refcnt := refcnt hn + 1\<rparr>),
       next_chan := Suc s, alloc := al\<rparr>)"

lemma fresh_chan:
  assumes "ipc_inv T k"
  shows "chans k (next_chan k) = None" "handles k (ChanH (next_chan k)) = None" "\<not> peer_is k (next_chan k) x"
  using ipc_invD(2) [OF assms] by (auto simp: heap_inv_def peer_is_def)

lemma fresh_not_peer:
  assumes inv: "ipc_inv T k" and x: "chans k x = Some xh"
  shows "peer xh \<noteq> Some (next_chan k)"
proof
  assume p: "peer xh = Some (next_chan k)"
  obtain dh where "chans k (next_chan k) = Some dh" by (rule peer_facts [OF inv x p])
  with fresh_chan(1) [OF inv] show False by simp
qed

lemma attached_peer_is:
  assumes inv: "ipc_inv T k" and c: "chans k c = Some ch" and pn: "peer ch = None"
  shows "peer_is (attached p c ch po hn mq1 mq2 al k) d x \<longleftrightarrow>
    peer_is k d x \<or> d = c \<and> x = next_chan k \<or> d = next_chan k \<and> x = c"
  using fresh_chan [OF inv] c pn
  by (auto simp: peer_is_def attached_def new_client_def new_server_def Let_def)

lemma chan_ok_attached:
  assumes inv: "ipc_inv T k" and c: "chans k c = Some ch" and cT: "c \<in> T" and nT: "next_chan k \<notin> T"
    and n: "ch_node ch = Unlinked" and st: "ch_state ch \<in> {IPC_CHAN_STATE_INVALID, IPC_CHAN_STATE_WAITING_FOR_PORT}"
    and wf: "mq_wf mq1" "mq_wf mq2"
    and x: "chans (attached p c ch po hn mq1 mq2 al k) x = Some xh"
  shows "chan_ok T (attached p c ch po hn mq1 mq2 al k) x xh"
proof -
  let ?k = "attached p c ch po hn mq1 mq2 al k" and ?s = "next_chan k"
  note np = not_peer_of [OF inv c st]
  have sc: "?s \<noteq> c" using fresh_chan(1) [OF inv] c by auto
  note pis = attached_peer_is [OF inv c np(2), of p po hn mq1 mq2 al]
  have hs: "\<not> has_handle ?k ?s" by (simp add: has_handle_def attached_def Let_def zero_handle_def)
  have hx: "has_handle ?k y = has_handle k y" "handle_ok ?k y = handle_ok k y" if "y \<noteq> ?s" for y
    using that by (simp_all add: has_handle_def handle_ok_def attached_def Let_def)
  have kc: "chans ?k c = Some (new_client ?s mq1 ch)" and ks: "chans ?k ?s = Some (new_server p c po mq2)"
    using sc by (simp_all add: attached_def Let_def)
  consider "x = c" "xh = new_client ?s mq1 ch" | "x = ?s" "xh = new_server p c po mq2"
    | "x \<noteq> c" "x \<noteq> ?s" "chans k x = Some xh"
    using x by (auto simp: attached_def Let_def split: if_splits)
  then show ?thesis
  proof cases
    case 1
    have "PeerRef ?s \<notin> set (refobj ch)"
      using chan_refs_ok [OF inv c] fresh_chan(3) [OF inv] by (simp add: refs_ok_def)
    then have "refs_ok T ?k x xh"
      using chan_refs_ok [OF inv c] 1 pis hx [of c] sc np(1) by (auto simp: refs_ok_def new_client_def)
    moreover have "peer_ok ?k x xh"
      using 1 ks sc by (simp add: peer_ok_def new_client_def new_server_def states_match_def)
    moreover have "state_ok T ?k x xh"
      using 1 n cT wf(1) by (intro state_okI) (auto simp: new_client_def)
    ultimately show ?thesis using chan_handle_ok [OF inv c] hx [of c] sc 1 by (simp add: chan_ok_def)
  next
    case 2
    have "refs_ok T ?k x xh"
      using 2 pis hs nT sc fresh_not_peer [OF inv] by (auto simp: refs_ok_def new_server_def peer_is_def)
    moreover have "peer_ok ?k x xh"
      using 2 kc sc by (simp add: peer_ok_def new_client_def new_server_def states_match_def)
    moreover have "state_ok T ?k x xh"
      using 2 wf(2) hs by (intro state_okI) (auto simp: new_server_def)
    moreover have "handle_ok ?k x"
      using 2 by (simp add: handle_ok_def attached_def Let_def zero_handle_def)
    ultimately show ?thesis by (simp add: chan_ok_def)
  next
    case 3
    show ?thesis
    proof (rule chan_unchanged [OF chan_okD [OF inv 3(3)]])
      show "chans ?k x = Some xh" using x .
      show "handles ?k (ChanH x) = handles k (ChanH x)" using 3 by (simp add: attached_def Let_def)
      show "peer_is ?k d x = peer_is k d x" for d using pis [of d x] 3 by auto
      show "chans ?k d = chans k d" if "peer xh = Some d" for d
      proof -
        have "d \<noteq> c" using np(1) [of x] 3(3) that by (auto simp: peer_is_def)
        moreover have "d \<noteq> ?s" using fresh_not_peer [OF inv 3(3)] that by auto
        ultimately show ?thesis by (simp add: attached_def Let_def)
      qed
    qed simp
  qed
qed

lemma lists_inv_attached:
  assumes inv: "ipc_inv T k" and c: "chans k c = Some ch" and n: "ch_node ch = Unlinked"
    and p: "ports k p = Some po"
  shows "lists_inv (attached p c ch po hn mq1 mq2 al k)"
proof -
  let ?k = "attached p c ch po hn mq1 mq2 al k" and ?s = "next_chan k"
  have sc: "?s \<noteq> c" using fresh_chan(1) [OF inv] c by auto
  have ks: "on_list k ?s l = False" for l using fresh_chan(1) [OF inv] by (simp add: on_list_def)
  have ol: "on_list ?k x l \<longleftrightarrow> (if x = ?s then l = OnPending p else on_list k x l)" if "l \<noteq> Unlinked" for x l
    using that c n sc by (auto simp: on_list_def attached_def Let_def new_client_def new_server_def)
  note li = ipc_invD(3) [OF inv, unfolded lists_inv_def]
  have po: "distinct (pending_list po)" "\<And>x. x \<in> set (pending_list po) \<longleftrightarrow> on_list k x (OnPending p)"
    using lists_pending(1,2) [OF inv p] by auto
  have w: "waiting_for_port_chan_list ?k = waiting_for_port_chan_list k" by (simp add: attached_def Let_def)
  have ps: "ports ?k = (ports k)(p \<mapsto> po\<lparr>pending_list := pending_list po @ [?s]\<rparr>)"
    by (simp add: attached_def Let_def)
  show ?thesis unfolding lists_inv_def
  proof (intro conjI allI impI)
    show "distinct (waiting_for_port_chan_list ?k)" using li w by simp
    show "x \<in> set (waiting_for_port_chan_list ?k) \<longleftrightarrow> on_list ?k x OnWaiting" for x
      using li w ol [of OnWaiting x] ks [of OnWaiting] by auto
    fix q qo assume q: "ports ?k q = Some qo"
    show "distinct (pending_list qo)"
      using q ps po ks li by (cases "q = p") auto
    show "x \<in> set (pending_list qo) \<longleftrightarrow> on_list ?k x (OnPending q)" for x
      using q ps po ks [of "OnPending q"] li ol [of "OnPending q" x] by (cases "q = p") auto
  next
    fix x q assume "on_list ?k x (OnPending q)"
    then show "ports ?k q \<noteq> None" using ol [of "OnPending q" x] li ps by (auto split: if_splits)
  qed
qed

lemma ports_inv_attached:
  assumes inv: "ipc_inv T k" and p: "ports k p = Some po" and hn: "handles k (PortH p) = Some hn"
  shows "ports_inv (attached p c ch po hn mq1 mq2 al k)"
proof -
  let ?k = "attached p c ch po hn mq1 mq2 al k" and ?po = "po\<lparr>pending_list := pending_list po @ [next_chan k]\<rparr>"
  note inv = ipc_invD(4) [OF inv]
  have l: "ipc_port_list ?k = ipc_port_list k" by (simp add: attached_def Let_def)
  have ps: "ports ?k = (ports k)(p \<mapsto> ?po)" by (simp add: attached_def Let_def)
  have refs: "port_refs ?k p ?po = port_refs k p po + 1" using l by (simp add: port_refs_def)
  have h: "handles ?k (PortH p) = Some (hn\<lparr>refcnt := refcnt hn + 1\<rparr>)"
    "\<And>q. q \<noteq> p \<Longrightarrow> handles ?k (PortH q) = handles k (PortH q)" by (simp_all add: attached_def Let_def)
  have "port_ok k p po" using inv p by (simp add: ports_inv_def)
  then have okp: "port_ok ?k p ?po" using hn refs h(1) l by (auto simp: port_ok_def)
  show ?thesis by (rule ports_inv_update_port [OF inv p ps _ l h(2) okp]) simp_all
qed

lemma ipc_inv_attached:
  assumes inv: "ipc_inv T k" and c: "chans k c = Some ch" and cT: "c \<in> T" and nT: "next_chan k \<notin> T"
    and n: "ch_node ch = Unlinked" and st: "ch_state ch \<in> {IPC_CHAN_STATE_INVALID, IPC_CHAN_STATE_WAITING_FOR_PORT}"
    and wf: "mq_wf mq1" "mq_wf mq2"
    and p: "ports k p = Some po" and hn: "handles k (PortH p) = Some hn"
  shows "ipc_inv T (attached p c ch po hn mq1 mq2 al k)"
proof -
  let ?k = "attached p c ch po hn mq1 mq2 al k"
  have "chans_inv T ?k" using chan_ok_attached [OF inv c cT nT n st wf] by (simp add: chans_inv_def)
  moreover have "heap_inv ?k"
    using ipc_invD(2) [OF inv] c p by (auto simp: heap_inv_def attached_def Let_def less_Suc_eq)
  ultimately show ?thesis
    using lists_inv_attached [OF inv c n p] ports_inv_attached [OF inv p hn] by (simp add: ipc_inv_def)
qed

end
