(* ===== verification/Ipc_Ops.thy ===== *)
theory Ipc_Ops
  imports Ipc_Chan
begin

text \<open>
  The routines of ports and channels keep the invariant and never panic: allocating,
  attaching, connecting, accepting, publishing, shutting down and closing. The one
  exception is publishing a port that refuses a client already waiting for it.
\<close>

section \<open>Allocation\<close>

definition fresh_chan_of :: "u32 \<Rightarrow> uuid_ptr \<Rightarrow> ipc_chan" where
  "fresh_chan_of flags uuid = \<lparr>refobj = [TmpRef], peer_ref = False, peer = None, ch_uuid = uuid,
     ch_state = IPC_CHAN_STATE_INVALID, ch_flags = flags, aux_state = 0,
     ch_node = Unlinked, msg_queue = None, ch_path = None\<rparr>"

definition with_fresh :: "u32 \<Rightarrow> uuid_ptr \<Rightarrow> bool list \<Rightarrow> kern \<Rightarrow> kern" where
  "with_fresh flags uuid al k = k\<lparr>chans := (chans k)(next_chan k \<mapsto> fresh_chan_of flags uuid),
     handles := (handles k)(ChanH (next_chan k) \<mapsto> zero_handle),
     next_chan := Suc (next_chan k), alloc := al\<rparr>"

lemma chan_alloc_cases:
  obtains (fail) al where "chan_alloc flags uuid k = (None, k\<lparr>alloc := al\<rparr>)"
  | (ok) al where "chan_alloc flags uuid k = (Some (next_chan k), with_fresh flags uuid al k)"
proof -
  obtain a al where al: "next_alloc (alloc k) = (a, al)" by force
  then have "chan_alloc flags uuid k =
      (if a then (Some (next_chan k), with_fresh flags uuid al k) else (None, k\<lparr>alloc := al\<rparr>))"
    by (simp add: chan_alloc_def Let_def with_fresh_def fresh_chan_of_def)
  with that show ?thesis by (cases a) simp_all
qed

lemma ipc_inv_with_fresh:
  assumes inv: "ipc_inv T k" and nT: "next_chan k \<notin> T"
  shows "ipc_inv (insert (next_chan k) T) (with_fresh flags uuid al k)"
proof -
  let ?k = "with_fresh flags uuid al k" and ?c = "next_chan k"
  note fr = fresh_chan [OF inv]
  have pis: "peer_is ?k d x = peer_is k d x" for d x
    using fr(1) by (auto simp: peer_is_def with_fresh_def fresh_chan_of_def)
  have hc: "\<not> has_handle ?k ?c" by (simp add: has_handle_def with_fresh_def zero_handle_def)
  have "chans_inv (insert ?c T) ?k" unfolding chans_inv_def
  proof (intro allI impI)
    fix x xh assume x: "chans ?k x = Some xh"
    show "chan_ok (insert ?c T) ?k x xh"
    proof (cases "x = ?c")
      case True
      then have xh: "xh = fresh_chan_of flags uuid" using x by (simp add: with_fresh_def)
      have "\<not> peer_is k d ?c" for d using fresh_not_peer [OF inv] by (auto simp: peer_is_def)
      then have "refs_ok (insert ?c T) ?k x xh" using True xh pis hc by (simp add: refs_ok_def fresh_chan_of_def)
      moreover have "peer_ok ?k x xh" using xh by (simp add: peer_ok_def fresh_chan_of_def)
      moreover have "state_ok (insert ?c T) ?k x xh"
        using True hc by (intro state_okI) (auto simp: xh fresh_chan_of_def linking_def)
      moreover have "handle_ok ?k x" using True by (simp add: handle_ok_def with_fresh_def zero_handle_def)
      ultimately show ?thesis by (simp add: chan_ok_def)
    next
      case False
      with x have xk: "chans k x = Some xh" by (simp add: with_fresh_def)
      show ?thesis
      proof (rule chan_unchanged [OF chan_okD [OF inv xk]])
        show "chans ?k x = Some xh" using x .
        show "handles ?k (ChanH x) = handles k (ChanH x)" using False by (simp add: with_fresh_def)
        show "peer_is ?k d x = peer_is k d x" for d by (rule pis)
        show "chans ?k d = chans k d" if "peer xh = Some d" for d
          using fresh_not_peer [OF inv xk] that by (auto simp: with_fresh_def)
        show "x \<in> insert ?c T \<longleftrightarrow> x \<in> T" using False by simp
      qed
    qed
  qed
  moreover have "heap_inv ?k" using ipc_invD(2) [OF inv] by (auto simp: heap_inv_def with_fresh_def less_Suc_eq)
  moreover have "lists_inv ?k" using ipc_invD(3) [OF inv] fr(1)
    by (subst lists_inv_cong [of _ k]) (auto simp: on_list_def with_fresh_def fresh_chan_of_def)
  moreover have "ports_inv ?k" using ipc_invD(4) [OF inv] by (subst ports_inv_cong [of _ k]) (auto simp: with_fresh_def)
  ultimately show ?thesis by (simp add: ipc_inv_def)
qed

lemma ipc_inv_alloc [simp]: "ipc_inv T (k\<lparr>alloc := al\<rparr>) = ipc_inv T k"
proof -
  have "chan_ok T (k\<lparr>alloc := al\<rparr>) c ch = chan_ok T k c ch" for c ch
    by (simp add: chan_defs has_handle_def peer_is_def)
  moreover have "port_ok (k\<lparr>alloc := al\<rparr>) p po = port_ok k p po" for p po
    by (simp add: port_ok_def port_refs_def)
  ultimately show ?thesis
    by (simp add: ipc_inv_def chans_inv_def heap_inv_def lists_inv_def ports_inv_def on_list_def)
qed

lemma ipc_inv_next_chan: "ipc_inv T k \<Longrightarrow> ipc_inv T (k\<lparr>next_chan := Suc (next_chan k)\<rparr>)"
proof -
  assume inv: "ipc_inv T k"
  let ?k = "k\<lparr>next_chan := Suc (next_chan k)\<rparr>"
  have "chan_ok T ?k c ch = chan_ok T k c ch" for c ch
    by (simp add: chan_defs has_handle_def peer_is_def)
  then have "chans_inv T ?k" using ipc_invD(1) [OF inv] by (simp add: chans_inv_def)
  moreover have "heap_inv ?k" using ipc_invD(2) [OF inv] by (auto simp: heap_inv_def less_Suc_eq)
  moreover have "lists_inv ?k" using ipc_invD(3) [OF inv] by (simp add: lists_inv_def on_list_def)
  moreover have "ports_inv ?k" using ipc_invD(4) [OF inv] by (subst ports_inv_cong [of _ k]) simp_all
  ultimately show ?thesis by (simp add: ipc_inv_def)
qed

text \<open>Changing a field the invariant does not look at, or the queue.\<close>

lemma ipc_inv_update_queue:
  assumes inv: "ipc_inv T k" and c: "chans k c = Some ch"
    and ch': "ch' = ch\<lparr>msg_queue := q, aux_state := a\<rparr>"
    and q: "\<And>mq. q = Some mq \<Longrightarrow> mq_wf mq" "linking (ch_state ch) \<Longrightarrow> q \<noteq> None"
  shows "ipc_inv T (k\<lparr>chans := (chans k)(c \<mapsto> ch')\<rparr>)"
proof -
  let ?k = "k\<lparr>chans := (chans k)(c \<mapsto> ch')\<rparr>"
  have pis: "peer_is ?k = peer_is k" by (rule peer_is_cong [OF c, where ch' = ch']) (simp_all add: ch')
  have hh: "has_handle ?k c = has_handle k c" "handle_ok ?k c = handle_ok k c"
    by (simp_all add: has_handle_def handle_ok_def)
  note st = state_okD [OF chan_state_ok [OF inv c]]
  have "refs_ok T ?k c ch'" using chan_refs_ok [OF inv c] pis hh by (simp add: refs_ok_def ch')
  moreover have "peer_ok ?k c ch'" using chan_peer_ok [OF inv c] by (auto simp: peer_ok_def ch')
  moreover have "state_ok T ?k c ch'"
    by (rule state_okI) (use st hh q in \<open>simp_all add: ch'\<close>)
  ultimately have "chan_ok T ?k c ch'" using chan_handle_ok [OF inv c] hh by (simp add: chan_ok_def)
  then have "chans_inv T ?k"
    by (intro chans_inv_update_one [OF ipc_invD(1) [OF inv] c, where ch' = ch']) (simp_all add: ch')
  moreover have "heap_inv ?k" using ipc_invD(2) [OF inv] c by (auto simp: heap_inv_def)
  moreover have "lists_inv ?k" using ipc_invD(3) [OF inv] c
    by (subst lists_inv_cong [of _ k]) (auto simp: on_list_def ch')
  moreover have "ports_inv ?k" using ipc_invD(4) [OF inv] by (subst ports_inv_cong [of _ k]) auto
  ultimately show ?thesis by (simp add: ipc_inv_def)
qed

section \<open>Attaching a client\<close>

lemma create_queue_cases:
  assumes "port_ok k0 p po"
  obtains (fail) al where "create_queue po k = (ERR_NO_MEMORY, None, k\<lparr>alloc := al\<rparr>)"
  | (ok) mq al where "create_queue po k = (NO_ERROR, Some mq, k\<lparr>alloc := al\<rparr>)" "mq_wf mq"
      "mq_pending mq = []" "filled_list mq = []" "num_items mq = num_recv_bufs po" "item_sz mq = recv_buf_size po"
proof -
  obtain r q al where q: "ipc_msg_queue_create (alloc k) (num_recv_bufs po) (recv_buf_size po) = ((r, q), al)"
    by (metis surj_pair)
  have b: "num_recv_bufs po \<le> 32" "recv_buf_size po \<le> 4096" using assms by (simp_all add: port_ok_def)
  then have "num_recv_bufs po * recv_buf_size po \<le> 32 * 4096" by (intro mult_mono) simp_all
  then have small: "num_recv_bufs po \<le> 256" "num_recv_bufs po * recv_buf_size po < 2 ^ 32" using b by simp_all
  show ?thesis
  proof (cases q)
    case None
    with q have "r = ERR_NO_MEMORY"
      by (auto simp: ipc_msg_queue_create_def Let_def split: prod.splits if_splits)
    with None q have "create_queue po k = (ERR_NO_MEMORY, None, k\<lparr>alloc := al\<rparr>)" by (simp add: create_queue_def)
    then show ?thesis by (rule fail)
  next
    case (Some mq)
    with q have e: "filled_list mq = []"
      by (auto simp: ipc_msg_queue_create_def Let_def split: prod.splits if_splits)
    have wf: "mq_wf mq" "mq_pending mq = []" "r = NO_ERROR" "num_items mq = num_recv_bufs po" "item_sz mq = recv_buf_size po"
      using ipc_msg_queue_create_wf [OF small, of "alloc k" r mq al] q Some by simp_all
    have "create_queue po k = (NO_ERROR, Some mq, k\<lparr>alloc := al\<rparr>)" using q Some wf(3) by (simp add: create_queue_def)
    then show ?thesis by (rule ok) (use wf e in simp_all)
  qed
qed

lemma free_fresh:
  assumes "ipc_inv T k"
  shows "free_chan (next_chan k) (with_fresh flags uuid al k) =
    k\<lparr>next_chan := Suc (next_chan k), alloc := al\<rparr>"
  using fresh_chan(1,2) [OF assms]
  by (simp add: free_chan_def with_fresh_def fun_upd_idem)

text \<open>Linking client and server, step by step as the code does it.\<close>

lemma attach_link_eq:
  assumes c: "chans k c = Some ch" and s: "chans k s = Some (fresh_chan_of IPC_CHAN_FLAG_SERVER u\<lparr>msg_queue := Some mq\<rparr>)"
    and cs: "c \<noteq> s" and pr: "\<not> peer_ref ch" and p: "ports k p = Some po" and hn: "handles k (PortH p) = Some hn"
    and ns: "PeerRef s \<notin> set (refobj ch)" and u: "po_uuid po = u"
  obtains e where "attach_link p c s k = Some (k\<lparr>chans := (chans k)
       (c \<mapsto> ch\<lparr>ch_state := IPC_CHAN_STATE_CONNECTING, peer_ref := True, peer := Some s, refobj := refobj ch @ [PeerRef s]\<rparr>,
        s \<mapsto> new_server p c po mq),
      ports := (ports k)(p \<mapsto> po\<lparr>pending_list := pending_list po @ [s]\<rparr>),
      handles := (handles k)(PortH p \<mapsto> hn\<lparr>refcnt := refcnt hn + 1\<rparr>), events := e\<rparr>)"
    "keeps (events k) e" "woken hn e"
proof -
  let ?s0 = "fresh_chan_of IPC_CHAN_FLAG_SERVER u\<lparr>msg_queue := Some mq\<rparr>"
  let ?s = "?s0\<lparr>ch_state := IPC_CHAN_STATE_ACCEPTING, refobj := [TmpRef, PeerRef c, NodeRef], peer_ref := True,
    peer := Some c, ch_node := OnPending p\<rparr>"
  let ?c = "ch\<lparr>ch_state := IPC_CHAN_STATE_CONNECTING, peer_ref := True, peer := Some s, refobj := refobj ch @ [PeerRef s]\<rparr>"
  let ?k = "k\<lparr>chans := (chans k)(s \<mapsto> ?s, c \<mapsto> ?c),
      ports := (ports k)(p \<mapsto> po\<lparr>pending_list := pending_list po @ [s]\<rparr>),
      handles := (handles k)(PortH p \<mapsto> hn\<lparr>refcnt := refcnt hn + 1\<rparr>)\<rparr>"
  have "handles ?k (PortH p) = Some (hn\<lparr>refcnt := refcnt hn + 1\<rparr>)" by simp
  note h = this
  obtain e where e: "handle_notify (PortH p) ?k = Some (?k\<lparr>events := e\<rparr>)"
    "keeps (events ?k) e" "woken (hn\<lparr>refcnt := refcnt hn + 1\<rparr>) e"
    by (rule handle_notify_events [OF h])
  have pre: "attach_link p c s k = do { k \<leftarrow> handle_notify (PortH p) ?k; chan_del_ref s TmpRef k }"
    using c s cs pr p hn
    by (simp add: attach_link_def chan_add_ref_def obj_add_ref_def ref_in_list_def set_ref_linked_def
        fresh_chan_of_def fun_upd_twist kern_commute del: handle_notify_Some)
  have "chan_del_ref s TmpRef (?k\<lparr>events := e\<rparr>) =
      Some (?k\<lparr>events := e, chans := (chans ?k)(s \<mapsto> drop_ref TmpRef ?s)\<rparr>)"
    using chan_del_self_ref [of "?k\<lparr>events := e\<rparr>" s ?s TmpRef] cs by (simp add: fun_upd_twist)
  moreover have "drop_ref TmpRef ?s = new_server p c po mq"
    using u by (simp add: drop_ref_def new_server_def fresh_chan_of_def)
  ultimately show ?thesis
    using pre e cs that [of e] by (simp add: fun_upd_twist kern_commute woken_def)
qed

text \<open>
  Attaching either links a new server to the client, or fails and leaves everything but
  the allocator as it was.
\<close>

lemma port_attach_client_cases:
  assumes inv: "ipc_inv T k" and c: "chans k c = Some ch" and cT: "c \<in> T" and dom: "T \<subseteq> dom (chans k)"
    and n: "ch_node ch = Unlinked" and st: "ch_state ch \<in> {IPC_CHAN_STATE_INVALID, IPC_CHAN_STATE_WAITING_FOR_PORT}"
    and p: "ports k p = Some po" and hn: "handles k (PortH p) = Some hn"
  obtains (attached) mq1 mq2 al e where
      "port_attach_client p c k = Some (NO_ERROR, (attached p c ch po hn mq1 mq2 al k)\<lparr>events := e\<rparr>)"
      "ipc_inv T (attached p c ch po hn mq1 mq2 al k)" "keeps (events k) e" "woken hn e"
      "check_access po (ch_uuid ch) = NO_ERROR" "filled_list mq1 = []" "filled_list mq2 = []"
  | (failed) r k' q where "port_attach_client p c k = Some (r, k')" "r \<noteq> NO_ERROR" "ipc_inv T k'"
      "chans k' = (chans k)(c \<mapsto> ch\<lparr>msg_queue := q\<rparr>)" "handles k' = handles k" "port_frame k k'"
      "waiting_for_port_chan_list k' = waiting_for_port_chan_list k" "events k' = events k"
proof (cases "po_state po = IPC_PORT_STATE_LISTENING \<and> check_access po (ch_uuid ch) = NO_ERROR")
  case False
  then have "port_attach_client p c k = Some (if po_state po \<noteq> IPC_PORT_STATE_LISTENING then ERR_NOT_READY
      else check_access po (ch_uuid ch), k)"
    using c p by (simp add: port_attach_client_def)
  then show ?thesis
    by (rule failed [where q = "msg_queue ch"]) (use False inv c in \<open>auto simp: fun_upd_idem\<close>)
next
  case True
  let ?s = "next_chan k"
  have ns: "?s \<notin> T" using dom fresh_chan(1) [OF inv] by auto
  have sc: "c \<noteq> ?s" using fresh_chan(1) [OF inv] c by auto
  note np = not_peer_of [OF inv c st]
  have pok: "port_ok k p po" using port_okD [OF inv p] .
  have pr: "\<not> peer_ref ch" using chan_peer_ok [OF inv c] np(2) by (simp add: peer_ok_def)
  have nref: "PeerRef ?s \<notin> set (refobj ch)"
    using chan_refs_ok [OF inv c] fresh_chan(3) [OF inv] by (simp add: refs_ok_def)
  have nl: "\<not> linking (ch_state ch)" using st by (auto simp: linking_def)
  have bump: "ipc_inv T (k\<lparr>next_chan := Suc ?s, alloc := al\<rparr>)" for al using ipc_inv_next_chan [OF inv] by simp
  show ?thesis
  proof (cases rule: chan_alloc_cases [of IPC_CHAN_FLAG_SERVER "po_uuid po" k])
    case (fail al)
    then have "port_attach_client p c k = Some (ERR_NO_MEMORY, k\<lparr>alloc := al\<rparr>)"
      using c p True by (simp add: port_attach_client_def)
    then show ?thesis
      by (rule failed [where q = "msg_queue ch"]) (use inv c in \<open>auto simp: fun_upd_idem port_frame_def\<close>)
  next
    case (ok al)
    let ?k1 = "with_fresh IPC_CHAN_FLAG_SERVER (po_uuid po) al k"
    from pok show ?thesis
    proof (cases rule: create_queue_cases [where k = ?k1])
      case (fail al1)
      have "chan_del_ref ?s TmpRef (?k1\<lparr>alloc := al1\<rparr>) = Some (k\<lparr>next_chan := Suc ?s, alloc := al1\<rparr>)"
        using fresh_chan(1,2) [OF inv] by (subst chan_del_self_ref)
          (auto simp: with_fresh_def fresh_chan_of_def free_chan_def fun_upd_idem)
      then have "port_attach_client p c k = Some (ERR_NO_MEMORY, k\<lparr>next_chan := Suc ?s, alloc := al1\<rparr>)"
        using c p True ok fail by (simp add: port_attach_client_def)
      then show ?thesis
        by (rule failed [where q = "msg_queue ch"]) (use bump c in \<open>auto simp: fun_upd_idem port_frame_def\<close>)
    next
      case q1: (ok mq1 al1)
      let ?k2 = "?k1\<lparr>alloc := al1, chans := (chans ?k1)(c \<mapsto> ch\<lparr>msg_queue := Some mq1\<rparr>)\<rparr>"
      have upd: "update_chan c (\<lambda>ch. ch\<lparr>msg_queue := Some mq1\<rparr>) (?k1\<lparr>alloc := al1\<rparr>) = Some ?k2"
        using c sc by (simp add: with_fresh_def)
      from pok show ?thesis
      proof (cases rule: create_queue_cases [where k = ?k2])
        case (fail al2)
        let ?k' = "k\<lparr>chans := (chans k)(c \<mapsto> ch\<lparr>msg_queue := None\<rparr>), next_chan := Suc ?s, alloc := al2\<rparr>"
        let ?k3 = "?k2\<lparr>alloc := al2, chans := (chans ?k2)(c \<mapsto> ch\<lparr>msg_queue := None\<rparr>)\<rparr>"
        have "update_chan c (\<lambda>ch. ch\<lparr>msg_queue := None\<rparr>) (?k2\<lparr>alloc := al2\<rparr>) = Some ?k3" by simp
        moreover have "chan_del_ref ?s TmpRef ?k3 = Some ?k'"
          using fresh_chan(1,2) [OF inv] sc by (subst chan_del_self_ref)
            (auto simp: with_fresh_def fresh_chan_of_def free_chan_def fun_upd_idem fun_upd_twist)
        ultimately have res: "port_attach_client p c k = Some (ERR_NO_MEMORY, ?k')"
          using c p True ok q1 upd fail by (simp add: port_attach_client_def)
        have "ipc_inv T ?k'"
        proof -
          have "ipc_inv T (k\<lparr>chans := (chans k)(c \<mapsto> ch\<lparr>msg_queue := None\<rparr>)\<rparr>)"
            by (rule ipc_inv_update_queue [OF inv c, where q = None and a = "aux_state ch"]) (use nl in simp_all)
          from ipc_inv_next_chan [OF this] show ?thesis by simp
        qed
        then show ?thesis
          by (intro failed [OF res, where q = None]) (auto simp: port_frame_def)
      next
        case q2: (ok mq2 al2)
        let ?k3 = "?k2\<lparr>alloc := al2, chans := (chans ?k2)(?s \<mapsto> fresh_chan_of IPC_CHAN_FLAG_SERVER (po_uuid po)\<lparr>msg_queue := Some mq2\<rparr>)\<rparr>"
        have upd2: "update_chan ?s (\<lambda>ch. ch\<lparr>msg_queue := Some mq2\<rparr>) (?k2\<lparr>alloc := al2\<rparr>) = Some ?k3"
          using sc by (simp add: with_fresh_def)
        obtain e where e: "attach_link p c ?s ?k3 = Some (?k3\<lparr>chans := (chans ?k3)
             (c \<mapsto> (ch\<lparr>msg_queue := Some mq1\<rparr>)\<lparr>ch_state := IPC_CHAN_STATE_CONNECTING, peer_ref := True, peer := Some ?s,
                refobj := refobj (ch\<lparr>msg_queue := Some mq1\<rparr>) @ [PeerRef ?s]\<rparr>,
              ?s \<mapsto> new_server p c po mq2),
            ports := (ports ?k3)(p \<mapsto> po\<lparr>pending_list := pending_list po @ [?s]\<rparr>),
            handles := (handles ?k3)(PortH p \<mapsto> hn\<lparr>refcnt := refcnt hn + 1\<rparr>), events := e\<rparr>)"
          "keeps (events ?k3) e" "woken hn e"
          by (rule attach_link_eq [of ?k3 c "ch\<lparr>msg_queue := Some mq1\<rparr>" ?s mq2 "po_uuid po" p po hn])
            (use sc pr p hn nref in \<open>simp_all add: with_fresh_def\<close>)
        have "port_attach_client p c k = Some (NO_ERROR, (attached p c ch po hn mq1 mq2 al2 k)\<lparr>events := e\<rparr>)"
          using c p True ok q1 upd q2 upd2 e(1) sc
          by (simp add: port_attach_client_def attached_def Let_def with_fresh_def new_client_def fun_upd_twist kern_commute)
        moreover have "ipc_inv T (attached p c ch po hn mq1 mq2 al2 k)"
          using ipc_inv_attached [OF inv c cT ns n st q1(2) q2(2) p hn] .
        ultimately show ?thesis
          by (rule attached) (use True e(2,3) q1 q2 in \<open>simp_all add: with_fresh_def\<close>)
      qed
    qed
  qed
qed

end
