(* ===== verification/Ipc_Port.thy ===== *)
theory Ipc_Port
  imports Ipc_Ops
begin

text \<open>
  Connecting to a port, accepting a connection, publishing, shutting down and destroying
  a port, and closing a channel: each keeps the invariant of ports and channels.
\<close>

section \<open>Looking up a port\<close>

lemma port_find_loop_eq:
  assumes "\<And>p. p \<in> set ps \<Longrightarrow> ports k p \<noteq> None"
  shows "port_find_loop path ps k = Some (find (\<lambda>p. po_path (the (ports k p)) = path) ps)"
  using assms
proof (induction ps)
  case (Cons p ps)
  from Cons.prems [of p] obtain po where "ports k p = Some po" by auto
  with Cons show ?case by simp
qed simp

lemma port_find_locked_eq:
  assumes "ipc_inv T k"
  shows "port_find_locked path k = Some (find (\<lambda>p. po_path (the (ports k p)) = path) (ipc_port_list k))"
  using ipc_invD(4) [OF assms] unfolding port_find_locked_def
  by (intro port_find_loop_eq) (simp add: ports_inv_def)

lemma port_find_cases:
  assumes inv: "ipc_inv T k"
  obtains (none) "port_find_locked path k = Some None"
      "\<forall>p\<in>set (ipc_port_list k). po_path (the (ports k p)) \<noteq> path"
  | (found) p po hn where "port_find_locked path k = Some (Some p)" "p \<in> set (ipc_port_list k)"
      "ports k p = Some po" "po_path po = path" "handles k (PortH p) = Some hn" "po_state po = IPC_PORT_STATE_LISTENING"
proof (cases "find (\<lambda>p. po_path (the (ports k p)) = path) (ipc_port_list k)")
  case None
  with port_find_locked_eq [OF inv] show ?thesis by (intro none) (auto simp: find_None_iff)
next
  case (Some p)
  then have p: "p \<in> set (ipc_port_list k)" "po_path (the (ports k p)) = path"
    by (auto simp: find_Some_iff)
  obtain po where po: "ports k p = Some po" using ipc_invD(4) [OF inv] p(1) by (auto simp: ports_inv_def)
  obtain hn where hn: "handles k (PortH p) = Some hn" using port_okD [OF inv po] by (auto simp: port_ok_def)
  have "po_state po = IPC_PORT_STATE_LISTENING" using port_okD [OF inv po] p(1) by (simp add: port_ok_def)
  with port_find_locked_eq [OF inv] Some p po hn show ?thesis by (intro found) auto
qed

section \<open>Giving a channel its handle\<close>

definition handle_inited :: "nat \<Rightarrow> ipc_chan \<Rightarrow> ipc_ops handle \<Rightarrow> kern \<Rightarrow> kern" where
  "handle_inited c ch hn k = k\<lparr>handles := (handles k)(ChanH c \<mapsto>
      hn\<lparr>refcnt := 1, ops := Some ipc_chan_handle_ops, wait_event := None, cookie := 0, hlist_node := None\<rparr>),
    chans := (chans k)(c \<mapsto> ch\<lparr>refobj := refobj ch @ [HandleRef]\<rparr>)\<rparr>"

lemma chan_handle_init_eq:
  assumes "chans k c = Some ch" "handles k (ChanH c) = Some hn" "HandleRef \<notin> set (refobj ch)"
  shows "chan_handle_init c k = Some (ChanH c, handle_inited c ch hn k)"
proof -
  have i: "handle_init (ChanH c) ipc_chan_handle_ops k = Some (k\<lparr>handles := (handles k)(ChanH c \<mapsto>
      hn\<lparr>refcnt := 1, ops := Some ipc_chan_handle_ops, wait_event := None, cookie := 0, hlist_node := None\<rparr>)\<rparr>)"
    using assms(2) by (simp add: handle_init_def refcount_init_def)
  show ?thesis using assms(1,3) by (simp add: chan_handle_init_def i chan_add_self_ref handle_inited_def)
qed

lemma ipc_inv_handle_inited:
  assumes inv: "ipc_inv T k" and c: "chans k c = Some ch" and hn: "handles k (ChanH c) = Some hn"
    and nh: "\<not> has_handle k c"
    and st: "ch_state ch \<notin> {IPC_CHAN_STATE_INVALID, IPC_CHAN_STATE_ACCEPTING}"
    and n: "\<And>p. ch_node ch \<noteq> OnPending p"
  shows "ipc_inv T (handle_inited c ch hn k)" "has_handle (handle_inited c ch hn k) c"
proof -
  let ?k = "handle_inited c ch hn k" and ?ch = "ch\<lparr>refobj := refobj ch @ [HandleRef]\<rparr>"
  have ks: "chans ?k = (chans k)(c \<mapsto> ?ch)" by (simp add: handle_inited_def)
  show hh: "has_handle ?k c" by (simp add: has_handle_def handle_inited_def)
  have pis: "peer_is ?k = peer_is k" by (rule peer_is_cong [OF c ks]) simp
  note s = state_okD [OF chan_state_ok [OF inv c]]
  have "refs_ok T ?k c ?ch" using chan_refs_ok [OF inv c] nh hh pis by (auto simp: refs_ok_def)
  moreover have "peer_ok ?k c ?ch" using chan_peer_ok [OF inv c] by (auto simp: peer_ok_def handle_inited_def)
  moreover have "state_ok T ?k c ?ch"
    by (rule state_okI) (use s(1,2,6,7,8,16) st n hh in \<open>simp_all\<close>)
  moreover have "handle_ok ?k c" by (simp add: handle_ok_def handle_inited_def)
  ultimately have "chan_ok T ?k c ?ch" by (simp add: chan_ok_def)
  then have "chans_inv T ?k"
    by (intro chans_inv_update_one [OF ipc_invD(1) [OF inv] c ks]) (simp_all add: handle_inited_def)
  moreover have "heap_inv ?k" using ipc_invD(2) [OF inv] c by (auto simp: heap_inv_def handle_inited_def)
  moreover have "lists_inv ?k" using ipc_invD(3) [OF inv] c
    by (subst lists_inv_cong [of _ k]) (auto simp: on_list_def handle_inited_def)
  moreover have "ports_inv ?k" using ipc_invD(4) [OF inv]
    by (subst ports_inv_cong [of _ k]) (auto simp: handle_inited_def)
  ultimately show "ipc_inv T ?k" by (simp add: ipc_inv_def)
qed

text \<open>Giving out the handle and dropping the local reference.\<close>

lemma handle_init_del_tmp:
  assumes inv: "ipc_inv T k" and c: "chans k c = Some ch" and cT: "c \<in> T" and nh: "\<not> has_handle k c"
    and st: "ch_state ch \<notin> {IPC_CHAN_STATE_INVALID, IPC_CHAN_STATE_ACCEPTING}"
    and n: "\<And>p. ch_node ch \<noteq> OnPending p"
    and w: "ch_state ch = IPC_CHAN_STATE_WAITING_FOR_PORT \<Longrightarrow> ch_node ch = OnWaiting"
  obtains k1 k2 where "chan_handle_init c k = Some (ChanH c, k1)" "chan_del_ref c TmpRef k1 = Some k2"
    "ipc_inv (T - {c}) k2" "has_handle k2 c" "port_frame k k2" "events k1 = events k"
    "chans k1 = (chans k)(c \<mapsto> ch\<lparr>refobj := refobj ch @ [HandleRef]\<rparr>)"
    "chans k2 = (chans k)(c \<mapsto> ch\<lparr>refobj := remove1 TmpRef (refobj ch) @ [HandleRef]\<rparr>)" "events k2 = events k"
    "\<forall>d. d \<noteq> c \<longrightarrow> handles k2 (ChanH d) = handles k (ChanH d)"
    "waiting_for_port_chan_list k2 = waiting_for_port_chan_list k"
    "\<forall>d. d \<noteq> c \<longrightarrow> handles k1 (ChanH d) = handles k (ChanH d)"
    "ipc_inv T k1" "has_handle k1 c"
proof -
  obtain hn where hn: "handles k (ChanH c) = Some hn" using chan_handle_exists [OF inv c] by blast
  have nr: "HandleRef \<notin> set (refobj ch)" and tmp: "TmpRef \<in> set (refobj ch)"
    using chan_refs_ok [OF inv c] nh cT by (simp_all add: refs_ok_def)
  let ?k1 = "handle_inited c ch hn k" and ?ch = "ch\<lparr>refobj := refobj ch @ [HandleRef]\<rparr>"
  note i = ipc_inv_handle_inited [OF inv c hn nh st n]
  have k1: "chans ?k1 c = Some ?ch" by (simp add: handle_inited_def)
  obtain k2 where k2: "chan_del_ref c TmpRef ?k1 = Some k2" "ipc_inv (T - {c}) k2"
    "k2 = (if remove1 TmpRef (refobj ?ch) = [] then free_chan c ?k1 else ?k1\<lparr>chans := (chans ?k1)(c \<mapsto> drop_ref TmpRef ?ch)\<rparr>)"
    by (rule chan_del_tmp [OF i(1) k1 cT]) (use i(2) st w in simp_all)
  have ne: "remove1 TmpRef (refobj ch @ [HandleRef]) = remove1 TmpRef (refobj ch) @ [HandleRef]"
    using tmp by (simp add: remove1_append)
  have k2': "k2 = ?k1\<lparr>chans := (chans ?k1)(c \<mapsto> drop_ref TmpRef ?ch)\<rparr>" using k2(3) ne by simp
  show ?thesis
    by (rule that [OF chan_handle_init_eq [OF c hn nr] k2(1,2)])
      (use i in \<open>simp_all add: k2' has_handle_def handle_inited_def port_frame_def drop_ref_def ne\<close>)
qed

section \<open>Connecting\<close>

lemma ipc_inv_waiting_on:
  fixes path :: string
  assumes inv: "ipc_inv {c} k" and c: "chans k c = Some (fresh_chan_of f u)"
  defines "k' \<equiv> k\<lparr>chans := (chans k)(c \<mapsto> (fresh_chan_of f u)\<lparr>ch_path := Some path,
      ch_state := IPC_CHAN_STATE_WAITING_FOR_PORT, ch_node := OnWaiting, refobj := [TmpRef, NodeRef]\<rparr>),
    waiting_for_port_chan_list := waiting_for_port_chan_list k @ [c]\<rparr>"
  shows "ipc_inv {c} k'" "\<not> has_handle k' c"
proof -
  let ?ch = "(fresh_chan_of f u)\<lparr>ch_path := Some path,
      ch_state := IPC_CHAN_STATE_WAITING_FOR_PORT, ch_node := OnWaiting, refobj := [TmpRef, NodeRef]\<rparr>"
  have ks: "chans k' = (chans k)(c \<mapsto> ?ch)" by (simp add: k'_def)
  have pis: "peer_is k' = peer_is k" by (rule peer_is_cong [OF c ks]) (simp add: fresh_chan_of_def)
  have nh: "\<not> has_handle k c"
    using state_okD(5) [OF chan_state_ok [OF inv c]] by (simp add: fresh_chan_of_def)
  then show nh': "\<not> has_handle k' c" by (simp add: has_handle_def k'_def)
  have np: "\<not> peer_is k d c" for d using not_peer_of(1) [OF inv c] by (simp add: fresh_chan_of_def)
  have "refs_ok {c} k' c ?ch" using pis np nh' by (simp add: refs_ok_def)
  moreover have "peer_ok k' c ?ch" by (simp add: peer_ok_def fresh_chan_of_def)
  moreover have "state_ok {c} k' c ?ch"
    by (rule state_okI) (simp_all add: fresh_chan_of_def linking_def)
  moreover have "handle_ok k' c" using chan_handle_ok [OF inv c] by (simp add: handle_ok_def k'_def)
  ultimately have "chan_ok {c} k' c ?ch" by (simp add: chan_ok_def)
  then have "chans_inv {c} k'"
    by (intro chans_inv_update_one [OF ipc_invD(1) [OF inv] c ks])
      (use np in \<open>simp_all add: k'_def fresh_chan_of_def\<close>)
  moreover have "heap_inv k'" using ipc_invD(2) [OF inv] c by (auto simp: heap_inv_def k'_def)
  moreover have "lists_inv k'"
  proof -
    have u: "on_list k c l \<longleftrightarrow> l = Unlinked" for l using c by (auto simp: on_list_def fresh_chan_of_def)
    have ol: "on_list k' x l \<longleftrightarrow> (if x = c then l = OnWaiting else on_list k x l)" for x l
      using ks by (auto simp: on_list_def)
    note li = ipc_invD(3) [OF inv, unfolded lists_inv_def]
    have fields: "ports k' = ports k" "waiting_for_port_chan_list k' = waiting_for_port_chan_list k @ [c]"
      by (simp_all add: k'_def)
    show ?thesis unfolding lists_inv_def fields
    proof (intro conjI allI impI)
      show "distinct (waiting_for_port_chan_list k @ [c])" using li u [of OnWaiting] by auto
      show "x \<in> set (waiting_for_port_chan_list k @ [c]) \<longleftrightarrow> on_list k' x OnWaiting" for x
        using li ol by auto
      show "distinct (pending_list po)" if "ports k p = Some po" for p po using li that by blast
      show "x \<in> set (pending_list po) \<longleftrightarrow> on_list k' x (OnPending p)" if "ports k p = Some po" for p po x
        using li that ol [of x "OnPending p"] u [of "OnPending p"] by auto
      show "ports k p \<noteq> None" if "on_list k' x (OnPending p)" for x p
        using li that ol [of x "OnPending p"] by (auto split: if_splits)
    qed
  qed
  moreover have "ports_inv k'" using ipc_invD(4) [OF inv]
    by (subst ports_inv_cong [of _ k]) (simp_all add: k'_def)
  ultimately show "ipc_inv {c} k'" by (simp add: ipc_inv_def)
qed

text \<open>
  What a connection attempt leaves: a handle exactly on success. The client is on the
  pending list of the published port with that path if there is one, and the port let it
  in; otherwise it asked to wait and is the last of the waiting clients.
\<close>

definition connecting :: "uuid_ptr \<Rightarrow> string \<Rightarrow> nat \<Rightarrow> kern \<Rightarrow> kern \<Rightarrow> bool" where
  "connecting cid path c k k' \<longleftrightarrow> (\<exists>ch p po s. chans k' c = Some ch \<and> ch_uuid ch = cid \<and>
     ch_state ch = IPC_CHAN_STATE_CONNECTING \<and> peer ch = Some s \<and>
     p \<in> set (ipc_port_list k) \<and> ports k p = Some po \<and> po_path po = path \<and> check_access po cid = NO_ERROR \<and>
     ports k' p = Some (po\<lparr>pending_list := pending_list po @ [s]\<rparr>) \<and>
     (\<forall>hn. handles k (PortH p) = Some hn \<longrightarrow> woken hn (events k')))"

definition queued :: "uuid_ptr \<Rightarrow> string \<Rightarrow> nat \<Rightarrow> kern \<Rightarrow> kern \<Rightarrow> bool" where
  "queued cid path c k k' \<longleftrightarrow> (\<exists>ch. chans k' c = Some ch \<and> ch_uuid ch = cid \<and> ch_path ch = Some path \<and>
     ch_state ch = IPC_CHAN_STATE_WAITING_FOR_PORT \<and> waiting_for_port_chan_list k' = waiting_for_port_chan_list k @ [c])"

definition connected_async :: "uuid_ptr \<Rightarrow> string \<Rightarrow> u32 \<Rightarrow> int \<Rightarrow> hid option \<Rightarrow> kern \<Rightarrow> kern \<Rightarrow> bool" where
  "connected_async cid path flags r h k k' \<longleftrightarrow>
     (if r = NO_ERROR then h = Some (ChanH (next_chan k)) \<and> has_handle k' (next_chan k) \<and>
        (if \<exists>p\<in>set (ipc_port_list k). po_path (the (ports k p)) = path then connecting cid path (next_chan k) k k'
         else flags AND IPC_CONNECT_WAIT_FOR_PORT \<noteq> 0 \<and> queued cid path (next_chan k) k k')
      else h = None \<and> chans k' = chans k \<and> ports k' = ports k \<and> waiting_for_port_chan_list k' = waiting_for_port_chan_list k)"

lemma connect_fail:
  assumes inv: "ipc_inv {c} k1" and c: "chans k1 c = Some ((fresh_chan_of f u)\<lparr>msg_queue := q\<rparr>)"
  obtains k2 where "chan_del_ref c TmpRef k1 = Some k2" "ipc_inv {} k2" "k2 = free_chan c k1"
proof -
  have r: "remove1 TmpRef (refobj ((fresh_chan_of f u)\<lparr>msg_queue := q\<rparr>)) = []" by (simp add: fresh_chan_of_def)
  have nh: "\<not> has_handle k1 c"
    using state_okD(5) [OF chan_state_ok [OF inv c]] by (simp add: fresh_chan_of_def)
  obtain k2 where "chan_del_ref c TmpRef k1 = Some k2" "ipc_inv ({c} - {c}) k2"
    "k2 = (if remove1 TmpRef (refobj ((fresh_chan_of f u)\<lparr>msg_queue := q\<rparr>)) = [] then free_chan c k1
       else k1\<lparr>chans := (chans k1)(c \<mapsto> drop_ref TmpRef ((fresh_chan_of f u)\<lparr>msg_queue := q\<rparr>))\<rparr>)"
    by (rule chan_del_tmp [OF inv c]) (use nh in \<open>simp_all add: fresh_chan_of_def\<close>)
  with r that show ?thesis by simp
qed

lemma free_chan_undo:
  assumes inv: "ipc_inv T k" and k1: "chans k1 = (chans k)(next_chan k \<mapsto> x)"
  shows "chans (free_chan (next_chan k) k1) = chans k"
  using fresh_chan(1) [OF inv] k1 by (simp add: free_chan_def fun_upd_idem)

lemma with_fresh_client:
  assumes inv: "ipc_inv {} k"
  shows "ipc_inv {next_chan k} (with_fresh 0 cid al k)" "chans (with_fresh 0 cid al k) = (chans k)(next_chan k \<mapsto> fresh_chan_of 0 cid)"
    "\<not> has_handle (with_fresh 0 cid al k) (next_chan k)" "ports (with_fresh 0 cid al k) = ports k"
    "ipc_port_list (with_fresh 0 cid al k) = ipc_port_list k"
    "waiting_for_port_chan_list (with_fresh 0 cid al k) = waiting_for_port_chan_list k"
    "handles (with_fresh 0 cid al k) (PortH p) = handles k (PortH p)"
  using ipc_inv_with_fresh [OF inv, of 0 cid al]
  by (simp_all add: has_handle_def with_fresh_def zero_handle_def)

lemma connect_found:
  fixes cid al
  assumes inv: "ipc_inv {} k" and found: "p \<in> set (ipc_port_list k)" "ports k p = Some po" "po_path po = path"
    "handles k (PortH p) = Some hn"
  defines "c \<equiv> next_chan k" and "k1 \<equiv> with_fresh 0 cid al k"
  obtains (connected) k2 k3 k4 where "port_attach_client p c k1 = Some (NO_ERROR, k2)"
      "chan_handle_init c k2 = Some (ChanH c, k3)" "chan_del_ref c TmpRef k3 = Some k4" "ipc_inv {} k4"
      "connected_async cid path flags NO_ERROR (Some (ChanH c)) k k4"
  | (refused) r k2 k3 where "port_attach_client p c k1 = Some (r, k2)" "r \<noteq> NO_ERROR" "chan_del_ref c TmpRef k2 = Some k3"
      "ipc_inv {} k3" "connected_async cid path flags r None k k3"
proof -
  let ?ch = "fresh_chan_of 0 cid"
  note w = with_fresh_client [OF inv, of cid al, folded c_def k1_def]
  have c1: "chans k1 c = Some ?ch" using w(2) by simp
  have dom: "{c} \<subseteq> dom (chans k1)" using c1 by auto
  have st: "ch_state ?ch \<in> {IPC_CHAN_STATE_INVALID, IPC_CHAN_STATE_WAITING_FOR_PORT}" "ch_node ?ch = Unlinked"
    by (simp_all add: fresh_chan_of_def)
  have p1: "ports k1 p = Some po" "handles k1 (PortH p) = Some hn" using found w(4,7) by simp_all
  have cs: "c \<noteq> next_chan k1" by (simp add: c_def k1_def with_fresh_def)
  have path: "\<exists>p\<in>set (ipc_port_list k). po_path (the (ports k p)) = path" using found(1-3) by (intro bexI [of _ p]) simp_all
  from w(1) c1 singletonI dom st(2,1) p1 show ?thesis
  proof (cases rule: port_attach_client_cases)
    case A: (attached mq1 mq2 al2 e)
    let ?A = "(attached p c ?ch po hn mq1 mq2 al2 k1)\<lparr>events := e\<rparr>"
    let ?cA = "new_client (next_chan k1) mq1 ?ch"
    have invA: "ipc_inv {c} ?A" using A(2) by simp
    have cA: "chans ?A c = Some ?cA" using cs by (simp add: attached_def Let_def)
    have nhA: "\<not> has_handle ?A c" using w(3) cs by (simp add: has_handle_def attached_def Let_def)
    obtain k2 k3 where h: "chan_handle_init c ?A = Some (ChanH c, k2)" "chan_del_ref c TmpRef k2 = Some k3"
      "ipc_inv ({c} - {c}) k3" "has_handle k3 c" "port_frame ?A k3"
      "chans k3 = (chans ?A)(c \<mapsto> ?cA\<lparr>refobj := remove1 TmpRef (refobj ?cA) @ [HandleRef]\<rparr>)" "events k3 = events ?A"
      by (rule handle_init_del_tmp [OF invA cA _ nhA]) (simp_all add: new_client_def fresh_chan_of_def)
    have "connecting cid path c k k3"
      unfolding connecting_def using h(5-7) found A(4,5)
      by (intro exI [of _ "?cA\<lparr>refobj := remove1 TmpRef (refobj ?cA) @ [HandleRef]\<rparr>"] exI [of _ p] exI [of _ po]
          exI [of _ "next_chan k1"])
        (simp add: new_client_def fresh_chan_of_def port_frame_def attached_def Let_def)
    then show ?thesis using h path c_def by (intro connected [OF A(1)]) (simp_all add: connected_async_def)
  next
    case F: (failed r k2 q)
    have c2: "chans k2 c = Some (?ch\<lparr>msg_queue := q\<rparr>)" using F(4) by simp
    obtain k3 where k3: "chan_del_ref c TmpRef k2 = Some k3" "ipc_inv {} k3" "k3 = free_chan c k2"
      by (rule connect_fail [OF F(3) c2])
    have "chans k3 = chans k" using free_chan_undo [OF inv, of k2] F(4) w(2) k3(3) c_def by simp
    then have "connected_async cid path flags r None k k3"
      using k3(3) F(2,6,7) w by (simp add: connected_async_def free_chan_def port_frame_def)
    then show ?thesis by (rule refused [OF F(1,2) k3(1,2)])
  qed
qed

lemma connect_wait:
  fixes cid al
  assumes inv: "ipc_inv {} k"
  defines "c \<equiv> next_chan k" and "k1 \<equiv> with_fresh 0 cid al k"
  obtains k2 k3 k4 where "do {
       k \<leftarrow> update_chan c (\<lambda>ch. ch\<lparr>ch_path := Some path,
              ch_state := IPC_CHAN_STATE_WAITING_FOR_PORT, ch_node := OnWaiting\<rparr>) k1;
       let k = k\<lparr>waiting_for_port_chan_list := waiting_for_port_chan_list k @ [c]\<rparr>;
       chan_add_ref c NodeRef k } = Some k2"
    "chan_handle_init c k2 = Some (ChanH c, k3)" "chan_del_ref c TmpRef k3 = Some k4" "ipc_inv {} k4" "has_handle k4 c"
    "queued cid path c k k4"
proof -
  let ?ch = "fresh_chan_of 0 cid"
  note w = with_fresh_client [OF inv, of cid al, folded c_def k1_def]
  have c1: "chans k1 c = Some ?ch" using w(2) by simp
  let ?w = "?ch\<lparr>ch_path := Some path, ch_state := IPC_CHAN_STATE_WAITING_FOR_PORT, ch_node := OnWaiting\<rparr>"
  let ?W = "k1\<lparr>chans := (chans k1)(c \<mapsto> ?w\<lparr>refobj := [TmpRef, NodeRef]\<rparr>),
    waiting_for_port_chan_list := waiting_for_port_chan_list k1 @ [c]\<rparr>"
  note W = ipc_inv_waiting_on [OF w(1) c1, where path = path]
  have cW: "chans ?W c = Some (?w\<lparr>refobj := [TmpRef, NodeRef]\<rparr>)" by simp
  obtain k4 k5 where h: "chan_handle_init c ?W = Some (ChanH c, k4)" "chan_del_ref c TmpRef k4 = Some k5"
    "ipc_inv ({c} - {c}) k5" "has_handle k5 c"
    "chans k5 = (chans ?W)(c \<mapsto> ?w\<lparr>refobj := [TmpRef, NodeRef],
       refobj := remove1 TmpRef (refobj (?w\<lparr>refobj := [TmpRef, NodeRef]\<rparr>)) @ [HandleRef]\<rparr>)"
    "waiting_for_port_chan_list k5 = waiting_for_port_chan_list ?W"
    by (rule handle_init_del_tmp [OF W(1) cW _ W(2)]) simp_all
  have add: "do { k \<leftarrow> update_chan c (\<lambda>ch. ch\<lparr>ch_path := Some path,
              ch_state := IPC_CHAN_STATE_WAITING_FOR_PORT, ch_node := OnWaiting\<rparr>) k1;
       let k = k\<lparr>waiting_for_port_chan_list := waiting_for_port_chan_list k @ [c]\<rparr>;
       chan_add_ref c NodeRef k } = Some ?W"
    using c1 by (simp add: chan_add_self_ref [where ch = ?w] fresh_chan_of_def)
  have "queued cid path c k k5" using h(5,6) w(6) by (simp add: queued_def fresh_chan_of_def)
  then show ?thesis using h by (intro that [OF add h(1,2)]) simp_all
qed

lemma connect_abort:
  assumes inv: "ipc_inv {} k" and r: "r \<noteq> NO_ERROR"
  obtains k2 where "chan_del_ref (next_chan k) TmpRef (with_fresh 0 cid al k) = Some k2" "ipc_inv {} k2"
    "connected_async cid path flags r None k k2"
proof -
  note w = with_fresh_client [OF inv, of cid al]
  have c1: "chans (with_fresh 0 cid al k) (next_chan k) = Some ((fresh_chan_of 0 cid)\<lparr>msg_queue := None\<rparr>)"
    using w(2) by (simp add: fresh_chan_of_def)
  obtain k2 where k2: "chan_del_ref (next_chan k) TmpRef (with_fresh 0 cid al k) = Some k2" "ipc_inv {} k2"
    "k2 = free_chan (next_chan k) (with_fresh 0 cid al k)"
    by (rule connect_fail [OF w(1) c1])
  have "chans k2 = chans k" using free_chan_undo [OF inv, of "with_fresh 0 cid al k"] w(2) k2(3) by simp
  then show ?thesis using r w k2(3) by (intro that [OF k2(1,2)]) (simp add: connected_async_def free_chan_def)
qed

lemma with_fresh_alloc: "(with_fresh f u al k)\<lparr>alloc := al'\<rparr> = with_fresh f u al' k"
  by (simp add: with_fresh_def)

lemma connect_missing:
  assumes inv: "ipc_inv {} k" and none: "\<forall>p\<in>set (ipc_port_list k). po_path (the (ports k p)) \<noteq> path"
    and good: "cid \<noteq> NullUuid" "strnlen buf max_path \<noteq> 0" "strnlen buf max_path < max_path" "path = take (strnlen buf max_path) buf"
    and ok: "chan_alloc 0 cid k = (Some (next_chan k), with_fresh 0 cid al k)"
    and find: "port_find_locked path (with_fresh 0 cid al k) = Some None"
  obtains r h k' where "ipc_port_connect_async cid buf max_path flags k = Some ((r, h), k')"
    "ipc_inv {} k'" "connected_async cid path flags r h k k'"
proof (cases "flags AND IPC_CONNECT_WAIT_FOR_PORT = 0")
  case True
  obtain k2 where k2: "chan_del_ref (next_chan k) TmpRef (with_fresh 0 cid al k) = Some k2" "ipc_inv {} k2"
    "connected_async cid path flags ERR_NOT_FOUND None k k2"
    by (rule connect_abort [OF inv, of ERR_NOT_FOUND]) simp_all
  have "ipc_port_connect_async cid buf max_path flags k = Some ((ERR_NOT_FOUND, None), k2)"
    using good ok find True k2(1) by (simp add: ipc_port_connect_async_def)
  then show ?thesis by (rule that) (use k2 in simp_all)
next
  case False
  let ?c = "next_chan k"
  obtain a al2 where al2: "next_alloc al = (a, al2)" by force
  have al: "alloc (with_fresh 0 cid al k) = al" by (simp add: with_fresh_def)
  show ?thesis
  proof (cases a)
    case True
    obtain k2 k3 k4 where w: "do {
       k \<leftarrow> update_chan ?c (\<lambda>ch. ch\<lparr>ch_path := Some path,
              ch_state := IPC_CHAN_STATE_WAITING_FOR_PORT, ch_node := OnWaiting\<rparr>) (with_fresh 0 cid al2 k);
       let k = k\<lparr>waiting_for_port_chan_list := waiting_for_port_chan_list k @ [?c]\<rparr>;
       chan_add_ref ?c NodeRef k } = Some k2"
      "chan_handle_init ?c k2 = Some (ChanH ?c, k3)" "chan_del_ref ?c TmpRef k3 = Some k4"
      "ipc_inv {} k4" "has_handle k4 ?c" "queued cid path ?c k k4"
      by (rule connect_wait [OF inv])
    have "ipc_port_connect_async cid buf max_path flags k = Some ((NO_ERROR, Some (ChanH (next_chan k))), k4)"
      using good ok find False al al2 True w(1-3)
      by (auto simp: ipc_port_connect_async_def with_fresh_alloc bind_eq_Some_conv Let_def)
    then show ?thesis by (rule that) (use w none False in \<open>simp_all add: connected_async_def\<close>)
  next
    case noal: False
    obtain k2 where k2: "chan_del_ref (next_chan k) TmpRef (with_fresh 0 cid al2 k) = Some k2" "ipc_inv {} k2"
      "connected_async cid path flags ERR_NO_MEMORY None k k2"
      by (rule connect_abort [OF inv, of ERR_NO_MEMORY]) simp_all
    have "ipc_port_connect_async cid buf max_path flags k = Some ((ERR_NO_MEMORY, None), k2)"
      using good ok find False al al2 noal k2(1) by (simp add: ipc_port_connect_async_def with_fresh_alloc)
    then show ?thesis by (rule that) (use k2 in simp_all)
  qed
qed

lemma ipc_port_connect_async_ok:
  assumes inv: "ipc_inv {} k"
  obtains r h k' where "ipc_port_connect_async cid buf max_path flags k = Some ((r, h), k')"
    "ipc_inv {} k'" "connected_async cid (take (strnlen buf max_path) buf) flags r h k k'"
proof -
  let ?c = "next_chan k" and ?path = "take (strnlen buf max_path) buf"
  show ?thesis
  proof (cases "cid = NullUuid \<or> strnlen buf max_path = 0 \<or> strnlen buf max_path \<ge> max_path")
    case True
    then have "ipc_port_connect_async cid buf max_path flags k = Some ((ERR_INVALID_ARGS, None), k)"
      by (auto simp: ipc_port_connect_async_def)
    then show ?thesis by (rule that) (use inv in \<open>simp_all add: connected_async_def\<close>)
  next
    case False
    then have good: "cid \<noteq> NullUuid" "strnlen buf max_path \<noteq> 0" "strnlen buf max_path < max_path" by simp_all
    show ?thesis
    proof (cases rule: chan_alloc_cases [of 0 cid k])
      case (fail al)
      then have "ipc_port_connect_async cid buf max_path flags k = Some ((ERR_NO_MEMORY, None), k\<lparr>alloc := al\<rparr>)"
        using good by (simp add: ipc_port_connect_async_def)
      then show ?thesis by (rule that) (use inv in \<open>simp_all add: connected_async_def\<close>)
    next
      case (ok al)
      note w = with_fresh_client [OF inv, of cid al]
      from w(1) show ?thesis
      proof (cases rule: port_find_cases [where path = ?path])
        case (found p po hn)
        have f: "p \<in> set (ipc_port_list k)" "ports k p = Some po" "po_path po = ?path" "handles k (PortH p) = Some hn"
          using found(2-5) w by simp_all
        from inv f show ?thesis
        proof (cases rule: connect_found [where cid = cid and al = al and flags = flags])
          case (connected k2 k3 k4)
          have "ipc_port_connect_async cid buf max_path flags k = Some ((NO_ERROR, Some (ChanH ?c)), k4)"
            using good ok found(1) connected(1-3) by (simp add: ipc_port_connect_async_def)
          then show ?thesis by (rule that) (use connected in simp_all)
        next
          case (refused r k2 k3)
          have "ipc_port_connect_async cid buf max_path flags k = Some ((r, None), k3)"
            using good ok found(1) refused(1-3) by (simp add: ipc_port_connect_async_def)
          then show ?thesis by (rule that) (use refused in simp_all)
        qed
      next
        case none
        then have "\<forall>p\<in>set (ipc_port_list k). po_path (the (ports k p)) \<noteq> ?path" using w by simp
        then show ?thesis using that by (rule connect_missing [OF inv _ good refl ok none(1)])
      qed
    qed
  qed
qed

end
