(* ===== verification/Ipc_Accept.thy ===== *)
theory Ipc_Accept
  imports Ipc_Port
begin

text \<open>
  Accepting a connection, publishing and shutting down a port, and dropping the references
  to handles.
\<close>

section \<open>Accepting\<close>

lemma remove1_append_in: "x \<in> set xs \<Longrightarrow> remove1 x (xs @ ys) = remove1 x xs @ ys"
  by (simp add: remove1_append)

lemma take_pending_code:
  assumes inv: "ipc_inv {} k" and s: "chans k s = Some sch" and n: "ch_node sch = OnPending p"
    and p: "ports k p = Some po" and hn: "handles k (PortH p) = Some hn" and held: "port_held k p"
  obtains k1 k2 k3 where "node_list_delete s k = Some k1" "chans k1 s = Some (sch\<lparr>ch_node := Unlinked\<rparr>)"
    "ch_flags sch AND IPC_CHAN_FLAG_SERVER \<noteq> 0" "chan_add_ref s TmpRef k1 = Some k2"
    "chan_del_ref s NodeRef k2 = Some k3" "handle_decref ipc_destroy (PortH p) k3 = Some (taken p s sch po hn k)"
proof -
  note refs = chan_refs_ok [OF inv s, unfolded refs_ok_def]
  have node: "NodeRef \<in> set (refobj sch)" using refs n by simp
  have nt: "TmpRef \<notin> set (refobj sch)" using refs by simp
  have mem: "s \<in> set (pending_list po)" using lists_pending(1) [OF inv p] s n by (auto simp: on_list_def)
  have ref1: "refcnt hn \<noteq> 1" using port_held_refs [OF inv held p hn mem] .
  let ?s1 = "sch\<lparr>ch_node := Unlinked\<rparr>" and ?s2 = "sch\<lparr>ch_node := Unlinked, refobj := refobj sch @ [TmpRef]\<rparr>"
  let ?k1 = "k\<lparr>ports := (ports k)(p \<mapsto> po\<lparr>pending_list := remove1 s (pending_list po)\<rparr>), chans := (chans k)(s \<mapsto> ?s1)\<rparr>"
  let ?k2 = "?k1\<lparr>chans := (chans ?k1)(s \<mapsto> ?s2)\<rparr>"
  let ?k3 = "?k2\<lparr>chans := (chans ?k2)(s \<mapsto> drop_ref NodeRef ?s2)\<rparr>"
  have "node_list_delete s k = Some ?k1" using s n p by (simp add: node_list_delete_def)
  moreover have "chan_add_ref s TmpRef ?k1 = Some ?k2"
    using chan_add_self_ref [of ?k1 s ?s1 TmpRef] nt by simp
  moreover have "chan_del_ref s NodeRef ?k2 = Some ?k3"
    using chan_del_self_ref [of ?k2 s ?s2 NodeRef] node by (simp add: remove1_append_in)
  moreover have "handle_decref ipc_destroy (PortH p) ?k3 = Some (taken p s sch po hn k)"
    using hn ref1 node by (simp add: handle_decref_shared taken_def drop_ref_def remove1_append_in kern_commute)
  ultimately show ?thesis
    using that state_okD(10) [OF chan_state_ok [OF inv s] n] by simp
qed

definition pair_connected :: "nat \<Rightarrow> ipc_chan \<Rightarrow> nat \<Rightarrow> ipc_chan \<Rightarrow> kern \<Rightarrow> kern" where
  "pair_connected s sch c cch k = k\<lparr>chans := (chans k)(s \<mapsto> sch\<lparr>ch_state := IPC_CHAN_STATE_CONNECTED\<rparr>,
     c \<mapsto> cch\<lparr>ch_state := IPC_CHAN_STATE_CONNECTED, aux_state := aux_state cch OR IPC_CHAN_AUX_STATE_CONNECTED\<rparr>)\<rparr>"

lemma ipc_inv_pair_connected:
  assumes inv: "ipc_inv T k" and s: "chans k s = Some sch" and pc: "peer sch = Some c" and c: "chans k c = Some cch"
    and st: "ch_state sch = IPC_CHAN_STATE_ACCEPTING" "ch_state cch = IPC_CHAN_STATE_CONNECTING"
    and sT: "s \<in> T" and n: "ch_node sch = Unlinked"
  shows "ipc_inv T (pair_connected s sch c cch k)"
proof -
  let ?k = "pair_connected s sch c cch k"
  let ?s = "sch\<lparr>ch_state := IPC_CHAN_STATE_CONNECTED\<rparr>"
  let ?c = "cch\<lparr>ch_state := IPC_CHAN_STATE_CONNECTED, aux_state := aux_state cch OR IPC_CHAN_AUX_STATE_CONNECTED\<rparr>"
  have cs: "s \<noteq> c" and ps: "peer cch = Some s" using peer_known(1,3) [OF inv s pc c] st by simp_all
  have ks: "chans ?k s = Some ?s" and kc: "chans ?k c = Some ?c" using cs by (simp_all add: pair_connected_def)
  have pis: "peer_is ?k d x = peer_is k d x" for d x
    using s c cs by (auto simp: peer_is_def pair_connected_def)
  have hh: "has_handle ?k x = has_handle k x" "handle_ok ?k x = handle_ok k x" for x
    by (simp_all add: has_handle_def handle_ok_def pair_connected_def)
  note ss = state_okD [OF chan_state_ok [OF inv s]] and sc = state_okD [OF chan_state_ok [OF inv c]]
  have "chans_inv T ?k" unfolding chans_inv_def
  proof (intro allI impI)
    fix x xh assume x: "chans ?k x = Some xh"
    consider "x = s" "xh = ?s" | "x = c" "xh = ?c" | "x \<noteq> s" "x \<noteq> c" "chans k x = Some xh"
      using x cs by (auto simp: pair_connected_def split: if_splits)
    then show "chan_ok T ?k x xh"
    proof cases
      case 1
      have "refs_ok T ?k x xh" using chan_refs_ok [OF inv s] 1 pis hh by (simp add: refs_ok_def)
      moreover have "peer_ok ?k x xh"
        using 1 kc pc ps cs chan_peer_ok [OF inv s] by (simp add: peer_ok_def states_match_def)
      moreover have "state_ok T ?k x xh"
        by (rule state_okI) (use 1 ss(2,7,16) sT n pc st in \<open>simp_all add: linking_def\<close>)
      ultimately show ?thesis using chan_handle_ok [OF inv s] hh 1 by (simp add: chan_ok_def)
    next
      case 2
      have np: "ch_node cch \<noteq> OnPending q" for q using sc(9) st(2) by auto
      have nw: "ch_node cch \<noteq> OnWaiting" using sc(6) st(2) by auto
      have "refs_ok T ?k x xh" using chan_refs_ok [OF inv c] 2 pis hh by (simp add: refs_ok_def)
      moreover have "peer_ok ?k x xh"
        using 2 ks pc ps cs chan_peer_ok [OF inv c] by (simp add: peer_ok_def states_match_def)
      moreover have "state_ok T ?k x xh"
        by (rule state_okI) (use 2 sc(2,14,15,16) st np nw ps hh in \<open>simp_all add: linking_def\<close>)
      ultimately show ?thesis using chan_handle_ok [OF inv c] hh 2 by (simp add: chan_ok_def)
    next
      case 3
      have "d \<noteq> s \<and> d \<noteq> c" if pd: "peer xh = Some d" for d
      proof -
        have False if "d = s"
          using peer_known(2,3) [OF inv 3(3) pd [unfolded that] s] st pc 3 by (auto simp: states_match_def)
        moreover have False if "d = c"
          using peer_known(2,3) [OF inv 3(3) pd [unfolded that] c] st ps 3 by (auto simp: states_match_def)
        ultimately show ?thesis by blast
      qed
      then show ?thesis
        by (intro chan_unchanged [OF chan_okD [OF inv 3(3)]]) (use x pis in \<open>auto simp: pair_connected_def\<close>)
    qed
  qed
  moreover have "heap_inv ?k" using ipc_invD(2) [OF inv] s c by (auto simp: heap_inv_def pair_connected_def)
  moreover have "lists_inv ?k" using ipc_invD(3) [OF inv] s c cs
    by (subst lists_inv_cong [of _ k]) (auto simp: on_list_def pair_connected_def)
  moreover have "ports_inv ?k" using ipc_invD(4) [OF inv]
    by (subst ports_inv_cong [of _ k]) (simp_all add: pair_connected_def)
  ultimately show ?thesis by (simp add: ipc_inv_def)
qed

text \<open>Dropping the local reference to a channel that was shut down.\<close>

lemma shut_del_tmp:
  assumes inv: "ipc_inv {s} k" and s: "chans k s = Some sch" and n: "ch_node sch = Unlinked"
    and w: "ch_state sch \<noteq> IPC_CHAN_STATE_WAITING_FOR_PORT"
  obtains k1 k2 where "chan_shutdown_locked s k = Some k1" "chan_del_ref s TmpRef k1 = Some k2"
    "ipc_inv {} k2" "port_frame k k2"
proof -
  obtain k1 sch1 where k1: "chan_shutdown_locked s k = Some k1" "ipc_inv {s} k1" "chans k1 s = Some sch1" "shut sch1"
    "port_frame k k1" "ch_node sch1 = (if ch_node sch = OnWaiting then Unlinked else ch_node sch)"
    by (rule chan_shutdown_ok [OF inv s]) (use w in simp_all)
  have d: "peer sch1 = None" "ch_node sch1 = Unlinked"
    "ch_state sch1 \<in> {IPC_CHAN_STATE_INVALID, IPC_CHAN_STATE_DISCONNECTING}"
    using k1(4,6) n by (simp_all add: shut_def)
  have nh: "ch_state sch1 = IPC_CHAN_STATE_INVALID \<Longrightarrow> \<not> has_handle k1 s"
    using state_okD(5) [OF chan_state_ok [OF k1(2,3)]] .
  obtain k2 where k2: "chan_del_ref s TmpRef k1 = Some k2" "ipc_inv ({s} - {s}) k2"
    "k2 = (if remove1 TmpRef (refobj sch1) = [] then free_chan s k1 else k1\<lparr>chans := (chans k1)(s \<mapsto> drop_ref TmpRef sch1)\<rparr>)"
    by (rule chan_del_tmp [OF k1(2,3)]) (use d nh in auto)
  have "port_frame k1 k2" using k2(3) by (simp add: port_frame_def free_chan_def)
  then show ?thesis using that [OF k1(1) k2(1)] k2(2) port_frame_trans [OF k1(5)] by simp
qed

text \<open>What accepting does on success.\<close>

definition accepted :: "nat \<Rightarrow> nat \<Rightarrow> kern \<Rightarrow> kern \<Rightarrow> bool" where
  "accepted s c k k' \<longleftrightarrow> (\<exists>sch cch cch0. chans k' s = Some sch \<and> chans k' c = Some cch \<and> chans k c = Some cch0 \<and>
     peer sch = Some c \<and> peer cch = Some s \<and>
     ch_state sch = IPC_CHAN_STATE_CONNECTED \<and> ch_state cch = IPC_CHAN_STATE_CONNECTED \<and>
     aux_state cch = aux_state cch0 OR IPC_CHAN_AUX_STATE_CONNECTED \<and>
     (\<forall>hn. handles k (ChanH c) = Some hn \<longrightarrow> woken hn (events k')))"

lemma ipc_port_accept_ok:
  assumes inv: "ipc_inv {} k" and p: "ports k p = Some po" and held: "port_held k p"
  obtains r res k' where "ipc_port_accept (Some (PortH p)) k = Some ((r, res), k')" "ipc_inv {} k'" "port_held k' p"
    "r = NO_ERROR \<longrightarrow> (\<exists>s c cch. res = Some (ChanH s, ch_uuid cch) \<and> pending_list po \<noteq> [] \<and> s = hd (pending_list po) \<and>
       chans k c = Some cch \<and> accepted s c k k' \<and> has_handle k' s)"
proof -
  obtain hn where hn: "handles k (PortH p) = Some hn" using held by (auto simp: port_held_def)
  have isp: "ipc_is_port (PortH p) k = Some True"
    using hn port_heldD(2) [OF inv held p hn] by (simp add: ipc_is_port_def)
  show ?thesis
  proof (cases "po_state po = IPC_PORT_STATE_LISTENING \<and> pending_list po \<noteq> []")
    case False
    then obtain r where "r \<noteq> NO_ERROR" "ipc_port_accept (Some (PortH p)) k = Some ((r, None), k)"
      using isp p by (cases "po_state po = IPC_PORT_STATE_LISTENING") (auto simp: ipc_port_accept_def)
    then show ?thesis using that inv held by blast
  next
    case True
    then obtain s ss where pend: "pending_list po = s # ss" by (cases "pending_list po") auto
    then obtain sch where s: "chans k s = Some sch" and n: "ch_node sch = OnPending p"
      using lists_pending(1) [OF inv p, of s] by (auto simp: on_list_def)
    obtain k1 k2 k3 where code: "node_list_delete s k = Some k1" "chans k1 s = Some (sch\<lparr>ch_node := Unlinked\<rparr>)"
      "ch_flags sch AND IPC_CHAN_FLAG_SERVER \<noteq> 0" "chan_add_ref s TmpRef k1 = Some k2"
      "chan_del_ref s NodeRef k2 = Some k3" "handle_decref ipc_destroy (PortH p) k3 = Some (taken p s sch po hn k)"
      by (rule take_pending_code [OF inv s n p hn held])
    let ?t = "taken p s sch po hn k"
    let ?st = "sch\<lparr>ch_node := Unlinked, refobj := remove1 NodeRef (refobj sch) @ [TmpRef]\<rparr>"
    have invt: "ipc_inv {s} ?t" "port_held ?t p" using ipc_inv_taken [OF inv s n p hn held] by simp_all
    have st: "chans ?t s = Some ?st" by (simp add: taken_def)
    have nw: "ch_state ?st \<noteq> IPC_CHAN_STATE_WAITING_FOR_PORT"
      using state_okD(9) [OF chan_state_ok [OF inv s] n] by auto
    obtain d1 d2 where drop: "chan_shutdown_locked s ?t = Some d1" "chan_del_ref s TmpRef d1 = Some d2"
      "ipc_inv {} d2" "port_frame ?t d2"
      by (rule shut_del_tmp [OF invt(1) st]) (use nw in simp_all)
    have heldd: "port_held d2 p" using invt(2) port_held_frame [OF drop(4)] by simp
    note pre = isp p True pend code
    show ?thesis
    proof (cases "peer sch")
      case None
      then have "ipc_port_accept (Some (PortH p)) k = Some ((ERR_CHANNEL_CLOSED, None), d2)"
        using pre st drop(1,2) by (simp add: ipc_port_accept_def)
      then show ?thesis by (rule that) (use drop heldd in simp_all)
    next
      case (Some c)
      obtain cch where c: "chans k c = Some cch" by (rule peer_facts [OF inv s Some])
      have cs: "s \<noteq> c" using peer_known(1) [OF inv s Some c] .
      have ct: "chans ?t c = Some cch" using c cs by (simp add: taken_def)
      show ?thesis
      proof (cases "ch_state sch = IPC_CHAN_STATE_ACCEPTING \<and> ch_state cch = IPC_CHAN_STATE_CONNECTING")
        case False
        then have "ipc_port_accept (Some (PortH p)) k = Some ((ERR_CHANNEL_CLOSED, None), d2)"
          using pre st ct Some drop(1,2) by (auto simp: ipc_port_accept_def)
        then show ?thesis by (rule that) (use drop heldd in simp_all)
      next
        case ac: True
        let ?q = "pair_connected s ?st c cch ?t"
        let ?sq = "?st\<lparr>ch_state := IPC_CHAN_STATE_CONNECTED\<rparr>"
        have ps: "peer cch = Some s" using peer_known(3) [OF inv s Some c] ac by simp
        have invq: "ipc_inv {s} ?q"
          using ipc_inv_pair_connected [OF invt(1) st _ ct] Some ac by simp
        have sq: "chans ?q s = Some ?sq" using cs by (simp add: pair_connected_def)
        have nhq: "\<not> has_handle ?q s"
          using state_okD(11) [OF chan_state_ok [OF inv s] n] by (simp add: has_handle_def pair_connected_def taken_def)
        obtain q1 where h: "chan_handle_init s ?q = Some (ChanH s, q1)"
          "chans q1 = (chans ?q)(s \<mapsto> ?sq\<lparr>refobj := refobj ?sq @ [HandleRef]\<rparr>)"
          "\<forall>d. d \<noteq> s \<longrightarrow> handles q1 (ChanH d) = handles ?q (ChanH d)" "ipc_inv {s} q1" "has_handle q1 s"
          "events q1 = events ?q" "port_frame ?q q1"
        proof (rule handle_init_del_tmp [OF invq sq _ nhq])
          fix a b
          assume a: "chan_handle_init s ?q = Some (ChanH s, a)"
            "chans a = (chans ?q)(s \<mapsto> ?sq\<lparr>refobj := refobj ?sq @ [HandleRef]\<rparr>)"
            "\<forall>d. d \<noteq> s \<longrightarrow> handles a (ChanH d) = handles ?q (ChanH d)" "ipc_inv {s} a" "has_handle a s"
            "events a = events ?q"
          have "port_frame ?q a"
            using a(1) sq by (auto simp: chan_handle_init_def handle_init_def update_handle_def chan_add_ref_def
                obj_add_ref_def ref_in_list_def set_ref_linked_def port_frame_def bind_eq_Some_conv kassert_def
                split: option.splits if_splits)
          with a that show thesis by blast
        qed simp_all
        obtain hc where hc: "handles k (ChanH c) = Some hc" using chan_handle_exists [OF inv c] by blast
        have hcq: "handles q1 (ChanH c) = Some hc" using h(3) cs hc by (simp add: pair_connected_def taken_def)
        obtain e where e: "handle_notify (ChanH c) q1 = Some (q1\<lparr>events := e\<rparr>)" "woken hc e"
          by (rule handle_notify_events [OF hcq])
        let ?sh = "?sq\<lparr>refobj := refobj ?sq @ [HandleRef]\<rparr>"
        have inve: "ipc_inv {s} (q1\<lparr>events := e\<rparr>)" using h(4) by simp
        have se: "chans (q1\<lparr>events := e\<rparr>) s = Some ?sh" using h(2) by simp
        have hhe: "has_handle (q1\<lparr>events := e\<rparr>) s" using h(5) by (simp add: has_handle_def)
        obtain k' where k': "chan_del_ref s TmpRef (q1\<lparr>events := e\<rparr>) = Some k'" "ipc_inv ({s} - {s}) k'"
          "k' = (if remove1 TmpRef (refobj ?sh) = [] then free_chan s (q1\<lparr>events := e\<rparr>)
             else q1\<lparr>events := e, chans := (chans (q1\<lparr>events := e\<rparr>))(s \<mapsto> drop_ref TmpRef ?sh)\<rparr>)"
          by (rule chan_del_tmp [OF inve se]) (use hhe in simp_all)
        have ne: "remove1 TmpRef (refobj ?sh) \<noteq> []" by (auto simp: remove1_append split: if_splits)
        have fr: "port_frame ?t k'" using h(7) k'(3) ne by (simp add: port_frame_def pair_connected_def)
        have eq: "ipc_port_accept (Some (PortH p)) k = Some ((NO_ERROR, Some (ChanH s, ch_uuid cch)), k')"
          using pre st ct cs Some ac h(1) e(1) k'(1) by (simp add: ipc_port_accept_def pair_connected_def)
        have acc: "accepted s c k k'"
          using k'(3) ne h(2) c cs ps Some hc e(2) by (simp add: accepted_def pair_connected_def drop_ref_def)
        have hk: "has_handle k' s" using hhe k'(3) ne by (simp add: has_handle_def)
        show ?thesis
          by (rule that [OF eq]) (use k'(2) invt(2) port_held_frame [OF fr] pend c acc hk in auto)
      qed
    qed
  qed
qed

end
