(* ===== verification/Ipc_Shutdown.thy ===== *)
theory Ipc_Shutdown
  imports Ipc_Accept
begin

text \<open>
  Creating, shutting down, destroying and publishing ports, and dropping and closing
  handles. Publishing is where the code can panic: a client that was waiting for the
  port and is refused by it.
\<close>

section \<open>Removing a port\<close>

lemma ports_inv_unlist:
  assumes inv: "ports_inv k" and p: "ports k p = Some po" and hn: "handles k (PortH p) = Some hn"
    and held: "port_refs k p po < refcnt hn" and l: "p \<in> set (ipc_port_list k)"
    and p': "ports k' = (ports k)(p \<mapsto> po\<lparr>po_state := IPC_PORT_STATE_CLOSING\<rparr>)"
    and h': "handles k' = (handles k)(PortH p \<mapsto> hn\<lparr>refcnt := refcnt hn - 1\<rparr>)"
    and l': "ipc_port_list k' = remove1 p (ipc_port_list k)"
  shows "ports_inv k'" "port_held k' p"
proof -
  let ?po = "po\<lparr>po_state := IPC_PORT_STATE_CLOSING\<rparr>"
  have d: "distinct (ipc_port_list k)" using inv by (simp add: ports_inv_def)
  then have mem: "q \<in> set (ipc_port_list k') \<longleftrightarrow> q \<in> set (ipc_port_list k) \<and> q \<noteq> p" for q using l' by auto
  have refs: "port_refs k' p ?po = port_refs k p po - 1" using l mem by (simp add: port_refs_def)
  have pos: "0 \<le> port_refs k' p ?po" by (simp add: port_refs_def)
  have "port_ok k p po" using inv p by (simp add: ports_inv_def)
  then have okp: "port_ok k' p ?po" using hn held refs pos h' mem by (auto simp: port_ok_def)
  show "ports_inv k'" unfolding ports_inv_def
  proof (intro conjI allI impI ballI)
    show "port_ok k' q qo" if q: "ports k' q = Some qo" for q qo
    proof (cases "q = p")
      case True
      with q p' okp show ?thesis by simp
    next
      case False
      with q p' inv have "port_ok k q qo" by (simp add: ports_inv_def)
      with False h' mem port_ok_cong [of k' q k qo] show ?thesis by simp
    qed
    show "distinct (ipc_port_list k')" using d l' by simp
    show "ports k' q \<noteq> None" if "q \<in> set (ipc_port_list k')" for q
      using inv mem p' that by (auto simp: ports_inv_def)
    fix q r qo ro assume "q \<in> set (ipc_port_list k')" "r \<in> set (ipc_port_list k')"
      "ports k' q = Some qo" "ports k' r = Some ro" "po_path qo = po_path ro"
    with mem p' ports_paths [OF inv] show "q = r" by simp
  qed
  show "port_held k' p" using p' h' refs held by (simp add: port_held_def)
qed

lemma chans_inv_cong:
  assumes "chans k' = chans k" "\<And>c. handles k' (ChanH c) = handles k (ChanH c)"
  shows "chans_inv T k' = chans_inv T k"
proof -
  have "chan_ok T k' c ch = chan_ok T k c ch" for c ch
    using assms by (simp add: chan_defs has_handle_def peer_is_def)
  with assms show ?thesis by (simp add: chans_inv_def)
qed

lemma lists_inv_cong_ports:
  assumes inv: "lists_inv k" and c: "chans k' = chans k"
    and w: "waiting_for_port_chan_list k' = waiting_for_port_chan_list k"
    and p: "ports k p = Some po" and p': "ports k' = (ports k)(p \<mapsto> po')" "pending_list po' = pending_list po"
  shows "lists_inv k'"
proof -
  have "on_list k' = on_list k" using c by (simp add: on_list_def fun_eq_iff)
  with inv w p p' show ?thesis by (auto simp: lists_inv_def)
qed

lemma port_closing_ok:
  assumes inv: "ipc_inv T k" and p: "ports k p = Some po" and held: "port_held k p"
  obtains k1 k2 where "update_port p (\<lambda>po. po\<lparr>po_state := IPC_PORT_STATE_CLOSING\<rparr>) k = Some k1"
    "(if p \<in> set (ipc_port_list k1) then do {
             let k = k1\<lparr>ipc_port_list := remove1 p (ipc_port_list k1)\<rparr>;
             handle_decref ipc_destroy (PortH p) k
           } else Some k1) = Some k2"
    "ipc_inv T k2" "port_held k2 p" "ports k2 = (ports k)(p \<mapsto> po\<lparr>po_state := IPC_PORT_STATE_CLOSING\<rparr>)"
    "chans k2 = chans k" "p \<notin> set (ipc_port_list k2)" "spare k2 p = spare k p"
proof -
  let ?po = "po\<lparr>po_state := IPC_PORT_STATE_CLOSING\<rparr>"
  let ?k1 = "k\<lparr>ports := (ports k)(p \<mapsto> ?po)\<rparr>"
  obtain hn where hn: "handles k (PortH p) = Some hn" using held by (auto simp: port_held_def)
  note hr = port_heldD(1) [OF inv held p hn]
  have u: "update_port p (\<lambda>po. po\<lparr>po_state := IPC_PORT_STATE_CLOSING\<rparr>) k = Some ?k1" using p by simp
  have d: "distinct (ipc_port_list k)" using ipc_invD(4) [OF inv] by (simp add: ports_inv_def)
  show ?thesis
  proof (cases "p \<in> set (ipc_port_list k)")
    case True
    let ?k2 = "k\<lparr>ports := (ports k)(p \<mapsto> ?po), ipc_port_list := remove1 p (ipc_port_list k),
      handles := (handles k)(PortH p \<mapsto> hn\<lparr>refcnt := refcnt hn - 1\<rparr>)\<rparr>"
    have "1 \<le> port_refs k p po" using True by (simp add: port_refs_def)
    then have "refcnt hn \<noteq> 1" using hr by simp
    then have code: "(if p \<in> set (ipc_port_list ?k1) then do {
             let k = ?k1\<lparr>ipc_port_list := remove1 p (ipc_port_list ?k1)\<rparr>;
             handle_decref ipc_destroy (PortH p) k } else Some ?k1) = Some ?k2"
      using True hn by (simp add: handle_decref_shared)
    have ps: "ports_inv ?k2" "port_held ?k2 p"
      by (rule ports_inv_unlist [OF ipc_invD(4) [OF inv] p hn hr True]; simp)+
    have "chans_inv T ?k2" using ipc_invD(1) [OF inv] by (subst chans_inv_cong [of _ k]) simp_all
    moreover have "heap_inv ?k2" using ipc_invD(2) [OF inv] p hn by (auto simp: heap_inv_def)
    moreover have "lists_inv ?k2"
      by (rule lists_inv_cong_ports [OF ipc_invD(3) [OF inv] _ _ p, where po' = ?po]) simp_all
    ultimately have "ipc_inv T ?k2" using ps by (simp add: ipc_inv_def)
    then show ?thesis by (rule that [OF u code]) (use ps d True p hn in \<open>simp_all add: spare_def port_refs_def\<close>)
  next
    case False
    have refs: "port_refs ?k1 p ?po = port_refs k p po" by (simp add: port_refs_def)
    have "port_ok ?k1 p ?po" using port_okD [OF inv p] refs False by (auto simp: port_ok_def)
    then have ps: "ports_inv ?k1"
      by (intro ports_inv_update_port [OF ipc_invD(4) [OF inv] p]) simp_all
    have "chans_inv T ?k1" using ipc_invD(1) [OF inv] by (subst chans_inv_cong [of _ k]) simp_all
    moreover have "heap_inv ?k1" using ipc_invD(2) [OF inv] p by (auto simp: heap_inv_def)
    moreover have "lists_inv ?k1"
      by (rule lists_inv_cong_ports [OF ipc_invD(3) [OF inv] _ _ p, where po' = ?po]) simp_all
    ultimately have "ipc_inv T ?k1" using ps by (simp add: ipc_inv_def)
    moreover have "port_held ?k1 p" using hn hr refs by (simp add: port_held_def)
    ultimately show ?thesis using that [OF u] False p by (simp add: spare_def port_refs_def)
  qed
qed

lemma port_shutdown_loop_ok:
  assumes "ipc_inv {} k" "ports k p = Some po" "port_held k p" "pending_list po = servers"
  obtains k' where "port_shutdown_loop p servers k = Some k'" "ipc_inv {} k'" "port_held k' p"
    "ports k' p = Some (po\<lparr>pending_list := []\<rparr>)" "ipc_port_list k' = ipc_port_list k" "spare k' p = spare k p"
  using assms
proof (induction servers arbitrary: k po thesis)
  case Nil
  from Nil.prems(1) [of k] Nil.prems(2-5) show ?case by simp
next
  case (Cons s ss)
  note inv = Cons.prems(2) and p = Cons.prems(3) and held = Cons.prems(4) and pend = Cons.prems(5)
  obtain sch where s: "chans k s = Some sch" and n: "ch_node sch = OnPending p"
    using lists_pending(1) [OF inv p, of s] pend by (auto simp: on_list_def)
  have nw: "ch_state sch \<noteq> IPC_CHAN_STATE_WAITING_FOR_PORT"
    using state_okD(9) [OF chan_state_ok [OF inv s] n] by auto
  obtain k1 sch1 where k1: "chan_shutdown_locked s k = Some k1" "ipc_inv {} k1" "chans k1 s = Some sch1" "shut sch1"
    "port_frame k k1" "ch_node sch1 = (if ch_node sch = OnWaiting then Unlinked else ch_node sch)"
    by (rule chan_shutdown_ok [OF inv s]) (use nw in simp_all)
  have n1: "ch_node sch1 = OnPending p" using k1(6) n by simp
  have p1: "ports k1 p = Some po" "port_held k1 p"
    using k1(5) p held port_held_frame [OF k1(5)] by (simp_all add: port_frame_def)
  obtain k2 where k2: "do { k \<leftarrow> node_list_delete s k1; k \<leftarrow> chan_del_ref s NodeRef k; handle_decref ipc_destroy (PortH p) k } = Some k2"
    "ipc_inv {} k2" "port_held k2 p" "ports k2 = (ports k1)(p \<mapsto> po\<lparr>pending_list := remove1 s (pending_list po)\<rparr>)"
    "ipc_port_list k2 = ipc_port_list k1" "spare k2 p = spare k1 p"
    by (rule pending_drop [OF k1(2,3) n1 p1 k1(4)]) simp_all
  have p2: "ports k2 p = Some (po\<lparr>pending_list := ss\<rparr>)" using k2(4) pend by simp
  show ?case
  proof (rule Cons.IH [OF _ k2(2) p2 k2(3)])
    fix k'
    assume "port_shutdown_loop p ss k2 = Some k'" "ipc_inv {} k'" "port_held k' p"
      "ports k' p = Some (po\<lparr>pending_list := ss, pending_list := []\<rparr>)" "ipc_port_list k' = ipc_port_list k2" "spare k' p = spare k2 p"
    moreover have "port_shutdown_loop p (s # ss) k = Option.bind (do { k \<leftarrow> node_list_delete s k1;
        k \<leftarrow> chan_del_ref s NodeRef k; handle_decref ipc_destroy (PortH p) k }) (port_shutdown_loop p ss)"
      using k1(1) by (simp add: bind_assoc)
    ultimately show ?case
      using k2(1,5,6) k1(5) spare_frame [OF k1(5)] Cons.prems(1) [of k'] by (simp add: port_frame_def)
  qed simp
qed

lemma port_shutdown_ok:
  assumes inv: "ipc_inv {} k" and p: "ports k p = Some po" and held: "port_held k p"
  obtains k' where "port_shutdown (PortH p) k = Some k'" "ipc_inv {} k'" "port_held k' p"
    "ports k' p = Some (po\<lparr>po_state := IPC_PORT_STATE_CLOSING, pending_list := []\<rparr>)" "p \<notin> set (ipc_port_list k')"
    "spare k' p = spare k p"
proof -
  obtain hn where hn: "handles k (PortH p) = Some hn" using held by (auto simp: port_held_def)
  have isp: "ipc_is_port (PortH p) k = Some True"
    using hn port_heldD(2) [OF inv held p hn] by (simp add: ipc_is_port_def)
  obtain k1 k2 where c: "update_port p (\<lambda>po. po\<lparr>po_state := IPC_PORT_STATE_CLOSING\<rparr>) k = Some k1"
    "(if p \<in> set (ipc_port_list k1) then do {
             let k = k1\<lparr>ipc_port_list := remove1 p (ipc_port_list k1)\<rparr>;
             handle_decref ipc_destroy (PortH p) k
           } else Some k1) = Some k2"
    "ipc_inv {} k2" "port_held k2 p" "ports k2 = (ports k)(p \<mapsto> po\<lparr>po_state := IPC_PORT_STATE_CLOSING\<rparr>)"
    "p \<notin> set (ipc_port_list k2)" "spare k2 p = spare k p"
    by (rule port_closing_ok [OF inv p held])
  have p2: "ports k2 p = Some (po\<lparr>po_state := IPC_PORT_STATE_CLOSING\<rparr>)" using c(5) by simp
  obtain k' where k': "port_shutdown_loop p (pending_list po) k2 = Some k'" "ipc_inv {} k'" "port_held k' p"
    "ports k' p = Some (po\<lparr>po_state := IPC_PORT_STATE_CLOSING, pending_list := []\<rparr>)" "ipc_port_list k' = ipc_port_list k2"
    "spare k' p = spare k2 p"
    by (rule port_shutdown_loop_ok [OF c(3) p2 c(4)]) simp_all
  have "port_shutdown (PortH p) k = Some k'"
    using isp c(1,2) p2 k'(1) by (simp add: port_shutdown_def)
  then show ?thesis by (rule that) (use k' c in simp_all)
qed

section \<open>Dropping references to handles\<close>

lemma ipc_is_port_ok:
  "ipc_inv T k \<Longrightarrow> ports k p = Some po \<Longrightarrow> ipc_is_port (PortH p) k = Some True"
  by (auto dest!: port_okD simp: port_ok_def ipc_is_port_def)

lemma ipc_is_channel_ok:
  "ipc_inv T k \<Longrightarrow> chans k c = Some ch \<Longrightarrow> has_handle k c \<Longrightarrow> ipc_is_channel (ChanH c) k = Some True"
  by (auto dest!: chan_okD simp: chan_ok_def handle_ok_def has_handle_def ipc_is_channel_def)

lemma ipc_inv_chan_handle:
  assumes inv: "ipc_inv T k" and hn: "handles k (ChanH c) = Some hn" "0 < refcnt hn"
    and hn': "0 < refcnt hn'" "ops hn' = ops hn"
  shows "ipc_inv T (k\<lparr>handles := (handles k)(ChanH c \<mapsto> hn')\<rparr>)"
proof -
  let ?k = "k\<lparr>handles := (handles k)(ChanH c \<mapsto> hn')\<rparr>"
  have hh: "has_handle ?k = has_handle k" "peer_is ?k = peer_is k"
    using hn hn' by (auto simp: has_handle_def peer_is_def fun_eq_iff)
  have "handle_ok k d \<Longrightarrow> handle_ok ?k d" for d using hn hn' by (auto simp: handle_ok_def)
  then have "chan_ok T k d dh \<Longrightarrow> chan_ok T ?k d dh" for d dh
    using hh by (simp add: chan_ok_def refs_ok_def peer_ok_def state_ok_def)
  then have "chans_inv T ?k" using ipc_invD(1) [OF inv] by (simp add: chans_inv_def)
  moreover have "heap_inv ?k" using ipc_invD(2) [OF inv] hn by (auto simp: heap_inv_def)
  moreover have "lists_inv ?k" using ipc_invD(3) [OF inv] by (simp add: lists_inv_def on_list_def)
  moreover have "ports_inv ?k" using ipc_invD(4) [OF inv] by (subst ports_inv_cong [of _ k]) simp_all
  ultimately show ?thesis by (simp add: ipc_inv_def)
qed

lemma ipc_inv_port_handle:
  assumes inv: "ipc_inv T k" and p: "ports k p = Some po"
    and hn: "handles k (PortH p) = Some hn" "ops hn' = ops hn" "1 \<le> refcnt hn'" "port_refs k p po \<le> refcnt hn'"
  shows "ipc_inv T (k\<lparr>handles := (handles k)(PortH p \<mapsto> hn')\<rparr>)"
proof -
  let ?k = "k\<lparr>handles := (handles k)(PortH p \<mapsto> hn')\<rparr>"
  have "port_ok ?k p po" using port_okD [OF inv p] hn by (auto simp: port_ok_def port_refs_def)
  then have "ports_inv ?k"
    by (intro ports_inv_update_port [OF ipc_invD(4) [OF inv] p]) (use p in \<open>auto simp: fun_upd_idem\<close>)
  moreover have "chans_inv T ?k" using ipc_invD(1) [OF inv] by (subst chans_inv_cong [of _ k]) simp_all
  moreover have "heap_inv ?k" using ipc_invD(2) [OF inv] p by (auto simp: heap_inv_def)
  moreover have "lists_inv ?k" using ipc_invD(3) [OF inv] by (simp add: lists_inv_def on_list_def)
  ultimately show ?thesis by (simp add: ipc_inv_def)
qed

lemma ipc_inv_free_port:
  assumes inv: "ipc_inv T k" and p: "ports k p = Some po" and z: "port_refs k p po = 0"
    and k': "ports k' = (ports k)(p := None)" "handles k' = (handles k)(PortH p := None)"
    "chans k' = chans k" "ipc_port_list k' = ipc_port_list k"
    "waiting_for_port_chan_list k' = waiting_for_port_chan_list k" "next_chan k' = next_chan k" "next_port k' = next_port k"
  shows "ipc_inv T k'"
proof -
  have u: "p \<notin> set (ipc_port_list k)" "pending_list po = []"
    using z by (auto simp: port_refs_def split: if_splits)
  have ol: "on_list k' = on_list k" using k' by (simp add: on_list_def fun_eq_iff)
  have np: "\<not> on_list k c (OnPending p)" for c
    using lists_pending(1) [OF inv p, of c] u(2) by simp
  have "lists_inv k'" using ipc_invD(3) [OF inv] np ol k' by (auto simp: lists_inv_def)
  moreover have "chans_inv T k'" using ipc_invD(1) [OF inv] k' by (subst chans_inv_cong [of _ k]) simp_all
  moreover have "heap_inv k'" using ipc_invD(2) [OF inv] k' by (auto simp: heap_inv_def)
  moreover have "ports_inv k'"
  proof -
    have "port_ok k' q qo" if "ports k q = Some qo" "q \<noteq> p" for q qo
      using port_okD [OF inv that(1)] that(2) k' port_ok_cong [of k' q k qo] by simp
    then show ?thesis using ipc_invD(4) [OF inv] k' u(1) by (auto simp: ports_inv_def)
  qed
  ultimately show ?thesis by (simp add: ipc_inv_def)
qed

lemma port_decref_ok:
  assumes inv: "ipc_inv T k" and p: "ports k p = Some po" and held: "port_held k p"
    and hn: "handles k (PortH p) = Some hn"
  defines "k' \<equiv> if refcnt hn = 1 then k\<lparr>ports := (ports k)(p := None), handles := (handles k)(PortH p := None)\<rparr>
    else k\<lparr>handles := (handles k)(PortH p \<mapsto> hn\<lparr>refcnt := refcnt hn - 1\<rparr>)\<rparr>"
  shows "handle_decref ipc_destroy (PortH p) k = Some k'" "ipc_inv T k'"
proof -
  have r: "port_refs k p po < refcnt hn" and tab: "ops hn = Some ipc_port_handle_ops"
    using port_heldD [OF inv held p hn] by simp_all
  have nn: "0 \<le> port_refs k p po" by (simp add: port_refs_def)
  have "handle_decref ipc_destroy (PortH p) k = Some k' \<and> ipc_inv T k'"
  proof (cases "refcnt hn = 1")
    case True
    then have z: "port_refs k p po = 0" using r nn by simp
    then have u: "p \<notin> set (ipc_port_list k)" "pending_list po = []"
      by (auto simp: port_refs_def split: if_splits)
    have "ipc_inv T k'" using True by (intro ipc_inv_free_port [OF inv p z]) (simp_all add: k'_def)
    with True hn tab p u show ?thesis
      by (simp add: handle_decref_last ipc_destroy_def port_handle_destroy_def ipc_is_port_def k'_def)
  next
    case False
    then have "ipc_inv T k'" unfolding k'_def using r nn
      by (simp add: ipc_inv_port_handle [OF inv p hn])
    with False hn show ?thesis by (simp add: handle_decref_shared k'_def)
  qed
  then show "handle_decref ipc_destroy (PortH p) k = Some k'" "ipc_inv T k'" by simp_all
qed

lemma chan_release_ok:
  assumes inv: "ipc_inv T k" and c: "chans k c = Some ch" and hn: "handles k (ChanH c) = Some hn"
    and r: "0 < refcnt hn" and s: "shut ch"
  obtains k' where "chan_handle_destroy (ChanH c) (k\<lparr>handles := (handles k)(ChanH c \<mapsto> hn\<lparr>refcnt := 0\<rparr>)\<rparr>) = Some k'"
    "ipc_inv T k'" "port_frame k k'" "\<not> has_handle k' c"
    "\<forall>ch'. chans k' c = Some ch' \<longrightarrow> peer ch' = peer ch \<and> ch_state ch' = ch_state ch"
proof -
  let ?k = "k\<lparr>handles := (handles k)(ChanH c \<mapsto> hn\<lparr>refcnt := 0\<rparr>)\<rparr>"
  have hh: "has_handle k c" using hn r by (simp add: has_handle_def)
  note st = state_okD [OF chan_state_ok [OF inv c]]
  have sd: "ch_state ch = IPC_CHAN_STATE_DISCONNECTING" "peer ch = None" using s st(5) hh by (auto simp: shut_def)
  have u: "ch_node ch = Unlinked"
    using st(6,11) sd hh by (cases "ch_node ch") auto
  have refs: "HandleRef \<in> set (refobj ch)" "distinct (refobj ch)" using chan_refs_ok [OF inv c] hh by (simp_all add: refs_ok_def)
  have tab: "ops hn = Some ipc_chan_handle_ops"
    using chan_okD [OF inv c] hn r by (simp add: chan_ok_def handle_ok_def)
  have del: "chan_handle_destroy (ChanH c) ?k = chan_del_ref c HandleRef ?k"
    using tab by (simp add: chan_handle_destroy_def ipc_is_channel_def)
  note del' = chan_del_self_ref [of ?k c ch HandleRef, simplified, OF c refs(1)]
  show ?thesis
  proof (cases "remove1 HandleRef (refobj ch) = []")
    case True
    then have "refobj ch = [HandleRef]" using refs by (simp add: remove1_Nil_iff)
    then have n: "\<not> peer_is k d c" for d using chan_refs_ok [OF inv c] by (simp add: refs_ok_def)
    have eq: "chan_handle_destroy (ChanH c) ?k = Some (free_chan c k)"
      using del del' True sd(2) u by (simp add: free_chan_def)
    show ?thesis by (rule that [OF eq])
        (use ipc_inv_free [OF inv c u n sd(2)] in \<open>simp_all add: port_frame_def free_chan_def has_handle_def\<close>)
  next
    case False
    let ?ch = "drop_ref HandleRef ch"
    let ?k' = "?k\<lparr>chans := (chans ?k)(c \<mapsto> ?ch)\<rparr>"
    have eq: "chan_handle_destroy (ChanH c) ?k = Some ?k'" using del del' False by simp
    have ks: "chans ?k' = (chans k)(c \<mapsto> ?ch)" by simp
    have pis: "peer_is ?k' = peer_is k" by (rule peer_is_cong [OF c ks]) (simp add: drop_ref_def)
    have nh: "\<not> has_handle ?k' c" by (simp add: has_handle_def)
    have "refs_ok T ?k' c ?ch" using chan_refs_ok [OF inv c] False nh pis by (auto simp: refs_ok_def drop_ref_def)
    moreover have "peer_ok ?k' c ?ch" using chan_peer_ok [OF inv c] sd by (simp add: peer_ok_def drop_ref_def)
    moreover have "state_ok T ?k' c ?ch"
      by (rule state_okI) (use st(16) sd u in \<open>simp_all add: drop_ref_def linking_def\<close>)
    moreover have "handle_ok ?k' c" using tab by (simp add: handle_ok_def)
    ultimately have "chan_ok T ?k' c ?ch" by (simp add: chan_ok_def)
    then have "chans_inv T ?k'"
      by (intro chans_inv_update_one [OF ipc_invD(1) [OF inv] c ks]) (simp_all add: drop_ref_def)
    moreover have "heap_inv ?k'" using ipc_invD(2) [OF inv] c by (auto simp: heap_inv_def)
    moreover have "lists_inv ?k'" using ipc_invD(3) [OF inv] c
      by (subst lists_inv_cong [of _ k]) (auto simp: on_list_def drop_ref_def)
    moreover have "ports_inv ?k'" using ipc_invD(4) [OF inv] by (subst ports_inv_cong [of _ k]) simp_all
    ultimately have "ipc_inv T ?k'" by (simp add: ipc_inv_def)
    then show ?thesis by (rule that [OF eq]) (use nh in \<open>simp_all add: port_frame_def drop_ref_def\<close>)
  qed
qed

lemma chan_decref_ok:
  assumes inv: "ipc_inv T k" and c: "chans k c = Some ch" and hn: "handles k (ChanH c) = Some hn"
    and r: "0 < refcnt hn" and s: "refcnt hn = 1 \<Longrightarrow> shut ch"
  obtains k' where "handle_decref ipc_destroy (ChanH c) k = Some k'" "ipc_inv T k'" "port_frame k k'"
    "if refcnt hn = 1 then \<not> has_handle k' c else handles k' (ChanH c) = Some (hn\<lparr>refcnt := refcnt hn - 1\<rparr>)"
    "\<forall>ch'. chans k' c = Some ch' \<longrightarrow> peer ch' = peer ch \<and> ch_state ch' = ch_state ch"
proof (cases "refcnt hn = 1")
  case True
  have tab: "ops hn = Some ipc_chan_handle_ops"
    using chan_okD [OF inv c] hn r by (simp add: chan_ok_def handle_ok_def)
  obtain k' where k': "chan_handle_destroy (ChanH c) (k\<lparr>handles := (handles k)(ChanH c \<mapsto> hn\<lparr>refcnt := 0\<rparr>)\<rparr>) = Some k'"
    "ipc_inv T k'" "port_frame k k'" "\<not> has_handle k' c" "\<forall>ch'. chans k' c = Some ch' \<longrightarrow> peer ch' = peer ch \<and> ch_state ch' = ch_state ch"
    by (rule chan_release_ok [OF inv c hn r s [OF True]])
  have "handle_decref ipc_destroy (ChanH c) k = Some k'"
    using True hn tab k'(1) by (simp add: handle_decref_last ipc_destroy_def)
  then show ?thesis by (rule that) (use k' True in simp_all)
next
  case False
  let ?k = "k\<lparr>handles := (handles k)(ChanH c \<mapsto> hn\<lparr>refcnt := refcnt hn - 1\<rparr>)\<rparr>"
  have "ipc_inv T ?k" using False r by (intro ipc_inv_chan_handle [OF inv hn r]) simp_all
  moreover have "handle_decref ipc_destroy (ChanH c) k = Some ?k" using False hn by (simp add: handle_decref_shared)
  ultimately show ?thesis using that [of ?k] False c by (simp add: port_frame_def)
qed

section \<open>Creating and closing\<close>

lemma ipc_inv_new_port:
  assumes inv: "ipc_inv T k" and po: "pending_list po = []" "po_state po \<noteq> IPC_PORT_STATE_LISTENING"
    "0 < num_recv_bufs po" "num_recv_bufs po \<le> IPC_CHAN_MAX_BUFS" "0 < recv_buf_size po" "recv_buf_size po \<le> IPC_CHAN_MAX_BUF_SIZE"
    and hn: "refcnt hn = 1" "ops hn = Some ipc_port_handle_ops"
  defines "k' \<equiv> k\<lparr>ports := (ports k)(next_port k \<mapsto> po), handles := (handles k)(PortH (next_port k) \<mapsto> hn),
      next_port := Suc (next_port k)\<rparr>"
  shows "ipc_inv T k'" "port_held k' (next_port k)"
proof -
  let ?p = "next_port k"
  have fresh: "ports k ?p = None" using ipc_invD(2) [OF inv] by (auto simp: heap_inv_def)
  have nl: "?p \<notin> set (ipc_port_list k)" using ipc_invD(4) [OF inv] fresh by (auto simp: ports_inv_def)
  have np: "\<not> on_list k c (OnPending ?p)" for c using lists_pending(3) [OF inv] fresh by blast
  have lists: "ipc_port_list k' = ipc_port_list k" by (simp add: k'_def)
  have okp: "port_ok k' ?p po" using nl po hn by (simp add: port_ok_def port_refs_def k'_def)
  have "ports_inv k'"
  proof -
    have "port_ok k' q qo" if "ports k' q = Some qo" for q qo
    proof (cases "q = ?p")
      case True
      with that okp show ?thesis by (simp add: k'_def)
    next
      case False
      with that have "ports k q = Some qo" by (simp add: k'_def)
      from port_okD [OF inv this] False port_ok_cong [of k' q k qo] show ?thesis by (simp add: k'_def)
    qed
    then show ?thesis using ipc_invD(4) [OF inv] nl by (auto simp: ports_inv_def k'_def)
  qed
  moreover have "chans_inv T k'" using ipc_invD(1) [OF inv] by (subst chans_inv_cong [of _ k]) (simp_all add: k'_def)
  moreover have "heap_inv k'" using ipc_invD(2) [OF inv] by (auto simp: heap_inv_def k'_def less_Suc_eq)
  moreover have "lists_inv k'"
    using ipc_invD(3) [OF inv] np po(1) by (auto simp: lists_inv_def k'_def on_list_def)
  ultimately show "ipc_inv T k'" by (simp add: ipc_inv_def)
  show "port_held k' ?p" using nl po hn by (simp add: port_held_def k'_def port_refs_def)
qed

definition port_created :: "uuid_ptr \<Rightarrow> string \<Rightarrow> int \<Rightarrow> hid option \<Rightarrow> kern \<Rightarrow> kern \<Rightarrow> bool" where
  "port_created sid path r h k k' \<longleftrightarrow>
     (if r = NO_ERROR then h = Some (PortH (next_port k)) \<and> port_held k' (next_port k) \<and>
        (\<exists>po. ports k' (next_port k) = Some po \<and> po_path po = path \<and> po_uuid po = sid)
      else h = None \<and> ports k' = ports k) \<and> chans k' = chans k \<and> ipc_port_list k' = ipc_port_list k"

lemma ipc_port_create_ok:
  assumes inv: "ipc_inv {} k"
  obtains r h k' where "ipc_port_create sid path bufs bsize flags k = Some ((r, h), k')"
    "ipc_inv {} k'" "port_created sid path r h k k'"
proof -
  let ?bad = "sid = NullUuid \<or> bufs = 0 \<or> bufs > IPC_CHAN_MAX_BUFS \<or> bsize = 0 \<or> bsize > IPC_CHAN_MAX_BUF_SIZE"
  obtain a al where al: "next_alloc (alloc k) = (a, al)" by force
  show ?thesis
  proof (cases "?bad \<or> \<not> a \<or> length path = 0 \<or> length path \<ge> IPC_PORT_PATH_MAX")
    case True
    let ?r = "if ?bad \<or> a \<and> length path = 0 then ERR_INVALID_ARGS else if \<not> a then ERR_NO_MEMORY else ERR_TOO_BIG"
    have "ipc_port_create sid path bufs bsize flags k = Some ((?r, None), if ?bad then k else k\<lparr>alloc := al\<rparr>)"
      using True al by (auto simp: ipc_port_create_def)
    then show ?thesis by (rule that) (use inv in \<open>simp_all add: port_created_def\<close>)
  next
    case False
    let ?po = "\<lparr>po_path = path, po_uuid = sid, po_state = IPC_PORT_STATE_INVALID, po_flags = flags,
                    num_recv_bufs = bufs, recv_buf_size = bsize, pending_list = []\<rparr>"
    let ?hn = "\<lparr>refcnt = 1, ops = Some ipc_port_handle_ops, wait_event = None, hlist_node = None, cookie = 0\<rparr>"
    let ?k = "k\<lparr>alloc := al\<rparr>"
    let ?k' = "?k\<lparr>ports := (ports ?k)(next_port ?k \<mapsto> ?po), handles := (handles ?k)(PortH (next_port ?k) \<mapsto> ?hn),
      next_port := Suc (next_port ?k)\<rparr>"
    have code: "ipc_port_create sid path bufs bsize flags k = Some ((NO_ERROR, Some (PortH (next_port k))), ?k')"
      using False al by (simp add: ipc_port_create_def handle_init_def update_handle_def zero_handle_def refcount_init_def Let_def kern_commute)
    have i: "ipc_inv {} ?k'" "port_held ?k' (next_port ?k)"
      by (rule ipc_inv_new_port; use False inv in simp)+
    show ?thesis by (rule that [OF code i(1)]) (use i(2) in \<open>simp add: port_created_def\<close>)
  qed
qed

text \<open>What the owner of a reference may do with it: drop it after a shutdown.\<close>

lemma port_close_ok:
  assumes inv: "ipc_inv {} k" and p: "ports k p = Some po" and held: "port_held k p"
  obtains k' where "handle_close ipc_shutdown ipc_destroy (PortH p) k = Some k'" "ipc_inv {} k'"
    "p \<notin> set (ipc_port_list k')"
    "if spare k p = 1 then ports k' p = None \<and> handles k' (PortH p) = None
     else spare k' p = spare k p - 1 \<and> ports k' p = Some (po\<lparr>po_state := IPC_PORT_STATE_CLOSING, pending_list := []\<rparr>)"
proof -
  obtain hn where hn: "handles k (PortH p) = Some hn" using held by (auto simp: port_held_def)
  have tab: "ops hn = Some ipc_port_handle_ops" using port_heldD(2) [OF inv held p hn] .
  obtain k1 where k1: "port_shutdown (PortH p) k = Some k1" "ipc_inv {} k1" "port_held k1 p"
    "ports k1 p = Some (po\<lparr>po_state := IPC_PORT_STATE_CLOSING, pending_list := []\<rparr>)" "p \<notin> set (ipc_port_list k1)"
    "spare k1 p = spare k p"
    by (rule port_shutdown_ok [OF inv p held])
  obtain hn1 where hn1: "handles k1 (PortH p) = Some hn1" using k1(3) by (auto simp: port_held_def)
  note d = port_decref_ok [OF k1(2,4,3) hn1]
  have "handle_close ipc_shutdown ipc_destroy (PortH p) k = handle_decref ipc_destroy (PortH p) k1"
    using hn tab k1(1) by (simp add: handle_close_def ipc_shutdown_def)
  then have c: "handle_close ipc_shutdown ipc_destroy (PortH p) k = Some (if refcnt hn1 = 1
      then k1\<lparr>ports := (ports k1)(p := None), handles := (handles k1)(PortH p := None)\<rparr>
      else k1\<lparr>handles := (handles k1)(PortH p \<mapsto> hn1\<lparr>refcnt := refcnt hn1 - 1\<rparr>)\<rparr>)"
    using d(1) by simp
  have s: "spare k p = refcnt hn1"
    using k1(4-6) hn1 by (simp add: spare_def port_refs_def)
  show ?thesis by (rule that [OF c d(2)]) (use s k1(4,5) in \<open>auto simp: spare_def port_refs_def\<close>)
qed

lemma chan_close_ok:
  assumes inv: "ipc_inv {} k" and h: "has_handle k c"
  obtains k' where "handle_close ipc_shutdown ipc_destroy (ChanH c) k = Some k'" "ipc_inv {} k'" "port_frame k k'"
    "\<And>hn. handles k (ChanH c) = Some hn \<Longrightarrow>
      if refcnt hn = 1 then \<not> has_handle k' c else handles k' (ChanH c) = Some (hn\<lparr>refcnt := refcnt hn - 1\<rparr>)"
    "\<forall>ch. chans k' c = Some ch \<longrightarrow> peer ch = None \<and> ch_state ch = IPC_CHAN_STATE_DISCONNECTING"
proof -
  obtain hn where hn: "handles k (ChanH c) = Some hn" "0 < refcnt hn" using h by (auto simp: has_handle_def)
  obtain ch where c: "chans k c = Some ch" using ipc_invD(2) [OF inv] hn(1) by (fastforce simp: heap_inv_def)
  have tab: "ops hn = Some ipc_chan_handle_ops"
    using chan_okD [OF inv c] hn by (simp add: chan_ok_def handle_ok_def)
  obtain k1 ch1 where k1: "chan_shutdown_locked c k = Some k1" "ipc_inv {} k1" "chans k1 c = Some ch1" "shut ch1"
    "port_frame k k1" "handles k1 (ChanH c) = handles k (ChanH c)"
    by (rule chan_shutdown_ok [OF inv c]) (use state_okD(8) [OF chan_state_ok [OF inv c]] in simp_all)
  obtain k2 where k2: "handle_decref ipc_destroy (ChanH c) k1 = Some k2" "ipc_inv {} k2" "port_frame k1 k2"
    "if refcnt hn = 1 then \<not> has_handle k2 c else handles k2 (ChanH c) = Some (hn\<lparr>refcnt := refcnt hn - 1\<rparr>)"
    "\<forall>ch'. chans k2 c = Some ch' \<longrightarrow> peer ch' = peer ch1 \<and> ch_state ch' = ch_state ch1"
    by (rule chan_decref_ok [OF k1(2,3), of hn]) (use k1 hn in simp_all)
  have "has_handle k1 c" using k1(6) h by (simp add: has_handle_def)
  then have "peer ch1 = None" "ch_state ch1 = IPC_CHAN_STATE_DISCONNECTING"
    using k1(4) state_okD(5) [OF chan_state_ok [OF k1(2,3)]] by (auto simp: shut_def)
  note sd = this
  have "handle_close ipc_shutdown ipc_destroy (ChanH c) k = Some k2"
    using hn tab k1(1) k2(1) by (simp add: handle_close_def ipc_shutdown_def chan_shutdown_def ipc_is_channel_def)
  then show ?thesis by (rule that) (use k2 k1(5) hn sd in \<open>auto simp: port_frame_def\<close>)
qed

end
