(* ===== verification/Ipc_Publish.thy ===== *)
theory Ipc_Publish
  imports Ipc_Shutdown
begin

text \<open>
  Publishing a port. The clients waiting for its path are attached to it, in the order in
  which they started to wait; a client that cannot be attached brings the kernel down,
  because it is still in the waiting state when its channel is shut down although it is
  no longer on the waiting list.
\<close>

section \<open>One waiting client\<close>

definition publish_one :: "nat \<Rightarrow> nat \<Rightarrow> kern \<Rightarrow> kern option" where
  "publish_one p client k = do {
     k \<leftarrow> update_chan client (\<lambda>ch. ch\<lparr>ch_path := None\<rparr>) k;
     k \<leftarrow> chan_add_ref client TmpRef k;
     k \<leftarrow> node_list_delete client k;
     k \<leftarrow> chan_del_ref client NodeRef k;
     (err, k) \<leftarrow> port_attach_client p client k;
     k \<leftarrow> (if err \<noteq> 0 then chan_shutdown_locked client k else Some k);
     chan_del_ref client TmpRef k
   }"

lemma publish_loop_Cons:
  assumes "chans k c = Some ch" "ports k p = Some po" "ch_path ch = Some path"
  shows "ipc_port_publish_loop p (c # cs) k =
    (if path \<noteq> po_path po then ipc_port_publish_loop p cs k
     else Option.bind (publish_one p c k) (ipc_port_publish_loop p cs))"
  using assms by (simp add: publish_one_def bind_assoc case_prod_beta')

definition unwaited :: "nat \<Rightarrow> ipc_chan \<Rightarrow> kern \<Rightarrow> kern" where
  "unwaited c ch k = k\<lparr>chans := (chans k)(c \<mapsto>
       ch\<lparr>ch_path := None, ch_node := Unlinked, refobj := remove1 NodeRef (refobj ch) @ [TmpRef]\<rparr>),
     waiting_for_port_chan_list := remove1 c (waiting_for_port_chan_list k)\<rparr>"

lemma unwaited_ok:
  assumes inv: "ipc_inv {} k" and c: "chans k c = Some ch" and n: "ch_node ch = OnWaiting"
  shows "do { k \<leftarrow> update_chan c (\<lambda>ch. ch\<lparr>ch_path := None\<rparr>) k; k \<leftarrow> chan_add_ref c TmpRef k;
      k \<leftarrow> node_list_delete c k; chan_del_ref c NodeRef k } = Some (unwaited c ch k)" "ipc_inv {c} (unwaited c ch k)"
proof -
  have refs: "TmpRef \<notin> set (refobj ch)" "NodeRef \<in> set (refobj ch)" "distinct (refobj ch)"
    using chan_refs_ok [OF inv c] n by (simp_all add: refs_ok_def)
  have pn: "peer ch = None" "ch_state ch = IPC_CHAN_STATE_WAITING_FOR_PORT"
    using not_peer_of(2) [OF inv c] state_okD(6) [OF chan_state_ok [OF inv c] n] by simp_all
  have ne: "remove1 NodeRef (refobj ch @ [TmpRef]) = remove1 NodeRef (refobj ch) @ [TmpRef]"
    using refs by (simp add: remove1_append)
  show "do { k \<leftarrow> update_chan c (\<lambda>ch. ch\<lparr>ch_path := None\<rparr>) k; k \<leftarrow> chan_add_ref c TmpRef k;
      k \<leftarrow> node_list_delete c k; chan_del_ref c NodeRef k } = Some (unwaited c ch k)"
    using c n refs
    by (simp add: chan_add_self_ref node_list_delete_def chan_del_self_ref ne unwaited_def drop_ref_def)
  show "ipc_inv {c} (unwaited c ch k)"
    by (rule ipc_inv_waiting_off [OF inv c n, where ch' =
          "ch\<lparr>ch_path := None, ch_node := Unlinked, refobj := remove1 NodeRef (refobj ch) @ [TmpRef]\<rparr>"]) (use refs pn in \<open>auto simp: unwaited_def\<close>)
qed

text \<open>A client with its new server end, which waits on the port to be accepted.\<close>

definition pending_pair :: "kern \<Rightarrow> nat \<Rightarrow> nat \<Rightarrow> nat \<Rightarrow> bool" where
  "pending_pair k p c s \<longleftrightarrow> (\<exists>ch sch. chans k c = Some ch \<and> chans k s = Some sch \<and>
     ch_state ch = IPC_CHAN_STATE_CONNECTING \<and> peer ch = Some s \<and> msg_queue ch \<noteq> None \<and>
     ch_state sch = IPC_CHAN_STATE_ACCEPTING \<and> peer sch = Some c \<and> msg_queue sch \<noteq> None \<and> ch_node sch = OnPending p)"

lemma pending_pair_cong:
  "chans k' c = chans k c \<Longrightarrow> chans k' s = chans k s \<Longrightarrow> pending_pair k' p c s = pending_pair k p c s"
  by (simp add: pending_pair_def)

definition waits_for :: "kern \<Rightarrow> string \<Rightarrow> nat \<Rightarrow> bool" where
  "waits_for k path c \<longleftrightarrow> (\<exists>ch. chans k c = Some ch \<and> ch_path ch = Some path)"

lemma publish_one_cases:
  assumes inv: "ipc_inv {} k" and c: "chans k c = Some ch" and n: "ch_node ch = OnWaiting"
    and p: "ports k p = Some po" and held: "port_held k p"
  obtains (refused) r k' where "port_attach_client p c (unwaited c ch k) = Some (r, k')" "r \<noteq> NO_ERROR" "publish_one p c k = None"
  | (attached) k' a where "publish_one p c k = Some k'" "ipc_inv {} k'" "port_held k' p"
      "check_access po (ch_uuid ch) = NO_ERROR" "waiting_for_port_chan_list k' = remove1 c (waiting_for_port_chan_list k)"
      "\<forall>d. d \<noteq> c \<longrightarrow> chans k d \<noteq> None \<longrightarrow> chans k' d = chans k d"
      "ports k' p = Some (po\<lparr>pending_list := pending_list po @ [next_chan k]\<rparr>)" "ipc_port_list k' = ipc_port_list k"
      "port_attach_client p c (unwaited c ch k) = Some (NO_ERROR, a)" "alloc k' = alloc a"
      "\<forall>ev. events k ev \<longrightarrow> events k' ev" "\<forall>hn. handles k (PortH p) = Some hn \<longrightarrow> woken hn (events k')"
      "pending_pair k' p c (next_chan k)"
proof -
  let ?k = "unwaited c ch k"
  let ?ch = "ch\<lparr>ch_path := None, ch_node := Unlinked, refobj := remove1 NodeRef (refobj ch) @ [TmpRef]\<rparr>"
  note u = unwaited_ok [OF inv c n]
  have c': "chans ?k c = Some ?ch" by (simp add: unwaited_def)
  have st: "ch_state ch = IPC_CHAN_STATE_WAITING_FOR_PORT" using state_okD(6) [OF chan_state_ok [OF inv c] n] .
  obtain hn where hn: "handles k (PortH p) = Some hn" using held by (auto simp: port_held_def)
  have dom: "{c} \<subseteq> dom (chans ?k)" using c' by auto
  have hh: "has_handle ?k c" using state_okD(14) [OF chan_state_ok [OF inv c]] st by (simp add: has_handle_def unwaited_def)
  have one: "publish_one p c k = do { (err, k) \<leftarrow> port_attach_client p c ?k;
     k \<leftarrow> (if err \<noteq> 0 then chan_shutdown_locked c k else Some k); chan_del_ref c TmpRef k }"
    using u(1) by (simp add: publish_one_def flip: bind_assoc)
  have p': "ports ?k p = Some po" "handles ?k (PortH p) = Some hn" using p hn by (simp_all add: unwaited_def)
  have sc: "c \<noteq> next_chan k" using fresh_chan(1) [OF inv] c by auto
  have nst: "c \<in> {c}" "ch_node ?ch = Unlinked" "ch_state ?ch \<in> {IPC_CHAN_STATE_INVALID, IPC_CHAN_STATE_WAITING_FOR_PORT}"
    using st by simp_all
  from u(2) c' nst(1) dom nst(2,3) p' show ?thesis
  proof (cases rule: port_attach_client_cases [where ch = ?ch])
    case (failed r k' q)
    let ?ch' = "?ch\<lparr>msg_queue := q\<rparr>"
    have "chans k' c = Some ?ch'" using failed(4) by simp
    then have "chan_shutdown_locked c k' = None"
      using st not_peer_of(2) [OF inv c] by (simp add: chan_shutdown_locked_def chan_shutdown_one_def)
    then show ?thesis using refused [OF failed(1,2)] one failed(1,2) by simp
  next
    case (attached mq1 mq2 al e)
    let ?a = "attached p c ?ch po hn mq1 mq2 al ?k"
    let ?ach = "new_client (next_chan k) mq1 ?ch"
    have ach: "chans ?a c = Some ?ach" using sc by (simp add: attached_def Let_def unwaited_def)
    have nl: "next_chan ?k = next_chan k" by (simp add: unwaited_def)
    have hh': "has_handle ?a c" using hh sc by (simp add: has_handle_def attached_def Let_def unwaited_def)
    obtain k2 where k2: "chan_del_ref c TmpRef (?a\<lparr>events := e\<rparr>) = Some k2" "ipc_inv ({c} - {c}) k2"
      "k2 = (if remove1 TmpRef (refobj ?ach) = [] then free_chan c (?a\<lparr>events := e\<rparr>)
         else (?a\<lparr>events := e\<rparr>)\<lparr>chans := (chans (?a\<lparr>events := e\<rparr>))(c \<mapsto> drop_ref TmpRef ?ach)\<rparr>)"
      by (rule chan_del_tmp [of "{c}" "?a\<lparr>events := e\<rparr>" c ?ach])
        (use attached(2) ach hh' in \<open>simp_all add: new_client_def has_handle_def\<close>)
    have "remove1 TmpRef (refobj ?ach) \<noteq> []" by (simp add: new_client_def remove1_append)
    with k2(3) have k2': "k2 = (?a\<lparr>events := e\<rparr>)\<lparr>chans := (chans ?a)(c \<mapsto> drop_ref TmpRef ?ach)\<rparr>" by simp
    have r: "port_refs k p po < refcnt hn" using port_heldD(1) [OF inv held p hn] .
    have "publish_one p c k = Some k2" using one attached(1) k2(1) by simp
    moreover have pp: "pending_pair k2 p c (next_chan k)"
      using k2' sc by (simp add: pending_pair_def attached_def Let_def unwaited_def new_client_def new_server_def drop_ref_def)
    ultimately show ?thesis
      by (intro that(2) [OF _ _ _ _ _ _ _ _ attached(1) _ _ _ pp])
        (use k2(2) k2' attached(3-5) r fresh_chan(1) [OF inv] hn p' in
          \<open>auto simp: attached_def Let_def unwaited_def port_held_def port_refs_def keeps_def\<close>)
  qed
qed

section \<open>All waiting clients\<close>

definition admitted :: "kern \<Rightarrow> ipc_port \<Rightarrow> nat \<Rightarrow> bool" where
  "admitted k po c \<longleftrightarrow> (\<forall>ch. chans k c = Some ch \<longrightarrow> ch_path ch = Some (po_path po) \<longrightarrow>
     check_access po (ch_uuid ch) = NO_ERROR)"

lemma check_access_pending [simp]: "check_access (po\<lparr>pending_list := x\<rparr>) u = check_access po u"
  by (simp add: check_access_def)

lemma waiting_client:
  assumes inv: "ipc_inv {} k" and c: "c \<in> set (waiting_for_port_chan_list k)"
  obtains ch path where "chans k c = Some ch" "ch_node ch = OnWaiting" "ch_path ch = Some path"
proof -
  from lists_waiting(1) [OF inv] c obtain ch where ch: "chans k c = Some ch" "ch_node ch = OnWaiting"
    by (auto simp: on_list_def)
  from state_okD(7) [OF chan_state_ok [OF inv ch(1)] ch(2)] that ch show ?thesis by blast
qed

lemma publish_loop_ok:
  assumes "ipc_port_publish_loop p cs k = Some k'" "ipc_inv {} k" "ports k p = Some po" "port_held k p"
    "set cs \<subseteq> set (waiting_for_port_chan_list k)" "distinct cs"
  shows "ipc_inv {} k' \<and> port_held k' p \<and> ipc_port_list k' = ipc_port_list k \<and> (\<forall>c\<in>set cs. admitted k po c) \<and>
    waiting_for_port_chan_list k' =
      filter (\<lambda>c. \<not> (c \<in> set cs \<and> waits_for k (po_path po) c)) (waiting_for_port_chan_list k)"
  using assms
proof (induction cs arbitrary: k po)
  case Nil
  then show ?case by simp
next
  case (Cons c cs)
  note inv = Cons.prems(2) and p = Cons.prems(3) and held = Cons.prems(4)
  obtain ch path where c: "chans k c = Some ch" "ch_node ch = OnWaiting" "ch_path ch = Some path"
    by (rule waiting_client [OF inv, of c]) (use Cons.prems(5) in simp_all)
  note loop = Cons.prems(1) [unfolded publish_loop_Cons [OF c(1) p c(3)]]
  show ?case
  proof (cases "path = po_path po")
    case False
    then have "\<not> waits_for k (po_path po) c" "admitted k po c" using c by (simp_all add: waits_for_def admitted_def)
    moreover have "waiting_for_port_chan_list k' =
        filter (\<lambda>c. \<not> (c \<in> set cs \<and> waits_for k (po_path po) c)) (waiting_for_port_chan_list k)"
      "ipc_inv {} k'" "port_held k' p" "ipc_port_list k' = ipc_port_list k" "\<forall>c\<in>set cs. admitted k po c"
      using Cons.IH [OF _ inv p held] loop False Cons.prems(5,6) by simp_all
    ultimately show ?thesis by (auto intro: filter_cong)
  next
    case True
    from inv c(1,2) p held show ?thesis
    proof (cases rule: publish_one_cases)
      case refused
      with loop True show ?thesis by simp
    next
      case (attached k1 a)
      have d: "distinct (waiting_for_port_chan_list k)" by (rule lists_waiting(2) [OF inv])
      have mem: "set (waiting_for_port_chan_list k1) = set (waiting_for_port_chan_list k) - {c}"
        using attached(5) d by simp
      have same: "chans k1 x = chans k x" if "x \<in> set (waiting_for_port_chan_list k)" "x \<noteq> c" for x
        using attached(6) waiting_client [OF inv that(1)] that(2) by (metis option.distinct(1))
      have ad: "admitted k po c" using attached(4) c by (simp add: admitted_def)
      have wc: "waits_for k (po_path po) c" using c True by (simp add: waits_for_def)
      have eqs: "admitted k1 (po\<lparr>pending_list := y\<rparr>) x = admitted k po x" "waits_for k1 (po_path po) x = waits_for k (po_path po) x"
        if "x \<in> set (waiting_for_port_chan_list k)" "x \<noteq> c" for x y
        using same [OF that] by (simp_all add: admitted_def waits_for_def)
      have IH: "ipc_inv {} k'" "port_held k' p" "ipc_port_list k' = ipc_port_list k1"
        "\<forall>x\<in>set cs. admitted k1 (po\<lparr>pending_list := pending_list po @ [next_chan k]\<rparr>) x"
        "waiting_for_port_chan_list k' =
          filter (\<lambda>c. \<not> (c \<in> set cs \<and> waits_for k1 (po_path po) c)) (waiting_for_port_chan_list k1)"
        using Cons.IH [OF _ attached(2,7,3)] loop True attached(1) mem Cons.prems(5,6) by auto
      have "waiting_for_port_chan_list k' =
          filter (\<lambda>c. \<not> (c \<in> set cs \<and> waits_for k (po_path po) c)) (remove1 c (waiting_for_port_chan_list k))"
        unfolding IH(5) attached(5) using d by (intro filter_cong) (auto simp: eqs)
      also have "\<dots> = filter (\<lambda>x. \<not> (x \<in> set (c # cs) \<and> waits_for k (po_path po) x)) (waiting_for_port_chan_list k)"
        using wc by (auto simp: distinct_remove1_removeAll [OF d] removeAll_filter_not_eq intro!: filter_cong)
      moreover have "\<forall>x\<in>set (c # cs). admitted k po x"
        using IH(4) ad eqs(1) Cons.prems(5,6) by (auto simp: subset_iff)
      ultimately show ?thesis using IH(1-3) attached(8) by simp
    qed
  qed
qed

lemma publish_loop_attaches:
  assumes "ipc_port_publish_loop p cs k = Some k'" "ipc_inv {} k" "ports k p = Some po" "port_held k p"
    "set cs \<subseteq> set (waiting_for_port_chan_list k)" "distinct cs"
  shows "\<exists>ss. ports k' p = Some (po\<lparr>pending_list := pending_list po @ ss\<rparr>) \<and>
      list_all2 (pending_pair k' p) (filter (waits_for k (po_path po)) cs) ss \<and>
      (\<forall>d. chans k d \<noteq> None \<and> d \<notin> set cs \<longrightarrow> chans k' d = chans k d) \<and> (\<forall>ev. events k ev \<longrightarrow> events k' ev) \<and>
      (filter (waits_for k (po_path po)) cs \<noteq> [] \<longrightarrow> (\<forall>hn. handles k (PortH p) = Some hn \<longrightarrow> woken hn (events k')))"
  using assms
proof (induction cs arbitrary: k po)
  case Nil
  then show ?case by simp
next
  case (Cons c cs)
  note inv = Cons.prems(2) and p = Cons.prems(3) and held = Cons.prems(4)
  obtain ch path where c: "chans k c = Some ch" "ch_node ch = OnWaiting" "ch_path ch = Some path"
    by (rule waiting_client [OF inv, of c]) (use Cons.prems(5) in simp_all)
  note loop = Cons.prems(1) [unfolded publish_loop_Cons [OF c(1) p c(3)]]
  show ?case
  proof (cases "path = po_path po")
    case False
    then have "\<not> waits_for k (po_path po) c" using c by (simp add: waits_for_def)
    then show ?thesis using Cons.IH [OF _ inv p held] loop False Cons.prems(5,6) by auto
  next
    case True
    from inv c(1,2) p held show ?thesis
    proof (cases rule: publish_one_cases)
      case refused
      with loop True show ?thesis by simp
    next
      case (attached k1 a)
      let ?po = "po\<lparr>pending_list := pending_list po @ [next_chan k]\<rparr>"
      have sub: "set cs \<subseteq> set (waiting_for_port_chan_list k1)"
        using attached(5) lists_waiting(2) [OF inv] Cons.prems(5,6) by auto
      have same: "chans k1 x = chans k x" if "x \<in> set cs" for x
      proof -
        have "x \<in> set (waiting_for_port_chan_list k)" "x \<noteq> c" using that Cons.prems(5,6) by auto
        then show ?thesis using attached(6) waiting_client [OF inv, of x] by (metis option.distinct(1))
      qed
      have f: "filter (waits_for k1 (po_path po)) cs = filter (waits_for k (po_path po)) cs"
        using same by (intro filter_cong) (simp_all add: waits_for_def)
      obtain ss where ss: "ports k' p = Some (?po\<lparr>pending_list := pending_list ?po @ ss\<rparr>)"
        "list_all2 (pending_pair k' p) (filter (waits_for k (po_path po)) cs) ss"
        "\<forall>d. chans k1 d \<noteq> None \<and> d \<notin> set cs \<longrightarrow> chans k' d = chans k1 d" "\<forall>ev. events k1 ev \<longrightarrow> events k' ev"
        using Cons.IH [OF _ attached(2,7,3) sub] loop True attached(1) Cons.prems(6) f by auto
      have nw: "next_chan k \<notin> set cs"
      proof
        assume "next_chan k \<in> set cs"
        then have "next_chan k \<in> set (waiting_for_port_chan_list k)" using Cons.prems(5) by auto
        then show False using waiting_client [OF inv] fresh_chan(1) [OF inv] by (metis option.distinct(1))
      qed
      have "chans k1 c \<noteq> None" "chans k1 (next_chan k) \<noteq> None" using attached(13) by (auto simp: pending_pair_def)
      then have "pending_pair k' p c (next_chan k)"
        using attached(13) ss(3) nw Cons.prems(6) by (subst pending_pair_cong [of _ _ k1]) simp_all
      moreover have "waits_for k (po_path po) c" using c True by (simp add: waits_for_def)
      moreover have "\<forall>d. chans k d \<noteq> None \<and> d \<notin> set (c # cs) \<longrightarrow> chans k' d = chans k d"
        using ss(3) attached(6) by (metis list.set_intros(1,2))
      moreover have "\<forall>hn. handles k (PortH p) = Some hn \<longrightarrow> woken hn (events k')" "\<forall>ev. events k ev \<longrightarrow> events k' ev"
        using attached(11,12) ss(4) by (auto simp: woken_def split: option.splits)
      ultimately show ?thesis
        using ss(1,2) by (intro exI [of _ "next_chan k # ss"]) simp
    qed
  qed
qed

text \<open>With an allocator that does not fail, a client that is admitted is attached.\<close>

lemma alloc_frame:
  "update_chan c f k = Some k' \<Longrightarrow> alloc k' = alloc k" "update_port p g k = Some k' \<Longrightarrow> alloc k' = alloc k"
  "handle_incref h k = Some k' \<Longrightarrow> alloc k' = alloc k" "handle_notify h k = Some k' \<Longrightarrow> alloc k' = alloc k"
  "chan_add_ref c r k = Some k' \<Longrightarrow> alloc k' = alloc k" "chan_del_ref c r k = Some k' \<Longrightarrow> alloc k' = alloc k"
  by (auto simp: update_chan_def update_port_def handle_incref_def update_handle_def handle_notify_def event_signal_def
      chan_add_ref_def obj_add_ref_def chan_del_ref_def obj_del_ref_def set_ref_linked_def chan_destroy_refobj_def
      split: option.splits if_splits chan_ref.splits Option.bind_splits)

lemma attach_link_alloc: "attach_link p c s k = Some k' \<Longrightarrow> alloc k' = alloc k"
  unfolding attach_link_def by (auto simp: alloc_frame split: Option.bind_splits dest!: alloc_frame)

lemma attach_admitted:
  assumes "ports k p = Some po" "chans k c = Some ch" "po_state po = IPC_PORT_STATE_LISTENING"
    "check_access po (ch_uuid ch) = NO_ERROR" "alloc k = []" "port_attach_client p c k = Some (r, k')"
  shows "r = NO_ERROR \<and> alloc k' = []"
  using assms
  by (auto simp: port_attach_client_def chan_alloc_def create_queue_def ipc_msg_queue_create_def Let_def
      dest!: attach_link_alloc alloc_frame split: Option.bind_splits)

lemma publish_loop_returns:
  assumes "ipc_inv {} k" "ports k p = Some po" "port_held k p" "po_state po = IPC_PORT_STATE_LISTENING"
    "set cs \<subseteq> set (waiting_for_port_chan_list k)" "distinct cs" "\<forall>c\<in>set cs. admitted k po c" "alloc k = []"
  shows "ipc_port_publish_loop p cs k \<noteq> None"
  using assms
proof (induction cs arbitrary: k po)
  case Nil
  then show ?case by simp
next
  case (Cons c cs)
  note inv = Cons.prems(1) and p = Cons.prems(2) and held = Cons.prems(3)
  obtain ch path where c: "chans k c = Some ch" "ch_node ch = OnWaiting" "ch_path ch = Some path"
    by (rule waiting_client [OF inv, of c]) (use Cons.prems(5) in simp_all)
  note loop = publish_loop_Cons [OF c(1) p c(3), of cs]
  show ?case
  proof (cases "path = po_path po")
    case False
    then show ?thesis using loop Cons.IH [OF inv p held] Cons.prems by simp
  next
    case True
    then have ok: "check_access po (ch_uuid ch) = NO_ERROR" using Cons.prems(7) c by (simp add: admitted_def)
    have at: "r = NO_ERROR \<and> alloc k' = []" if "port_attach_client p c (unwaited c ch k) = Some (r, k')" for r k'
      by (rule attach_admitted [OF _ _ Cons.prems(4) _ _ that, where ch =
            "ch\<lparr>ch_path := None, ch_node := Unlinked, refobj := remove1 NodeRef (refobj ch) @ [TmpRef]\<rparr>"]) (use p ok Cons.prems(8) in \<open>simp_all add: unwaited_def\<close>)
    from inv c(1,2) p held show ?thesis
    proof (cases rule: publish_one_cases)
      case (refused r k')
      with at show ?thesis by blast
    next
      case (attached k1 a)
      have d: "distinct (waiting_for_port_chan_list k)" by (rule lists_waiting(2) [OF inv])
      have ad: "admitted k1 (po\<lparr>pending_list := y\<rparr>) x" if "x \<in> set cs" for x y
      proof -
        have "x \<in> set (waiting_for_port_chan_list k)" "x \<noteq> c" using Cons.prems(5,6) that by auto
        then have "chans k1 x = chans k x"
          using attached(6) waiting_client [OF inv, of x] by (metis option.distinct(1))
        then show ?thesis using Cons.prems(7) that by (simp add: admitted_def)
      qed
      have "ipc_port_publish_loop p cs k1 \<noteq> None"
        by (rule Cons.IH [OF attached(2,7,3)])
          (use Cons.prems(4-6) ad at [OF attached(9)] attached(5,10) d in auto)
      then show ?thesis using loop True attached(1) by simp
    qed
  qed
qed

section \<open>Publishing\<close>

definition published :: "nat \<Rightarrow> ipc_port \<Rightarrow> ipc_ops handle \<Rightarrow> kern \<Rightarrow> kern" where
  "published p po hn k = k\<lparr>ports := (ports k)(p \<mapsto> po\<lparr>po_state := IPC_PORT_STATE_LISTENING\<rparr>),
     ipc_port_list := ipc_port_list k @ [p], handles := (handles k)(PortH p \<mapsto> hn\<lparr>refcnt := refcnt hn + 1\<rparr>)\<rparr>"

lemma ipc_inv_published:
  assumes inv: "ipc_inv T k" and p: "ports k p = Some po" and hn: "handles k (PortH p) = Some hn"
    and held: "port_held k p" and nl: "p \<notin> set (ipc_port_list k)"
    and path: "\<forall>q\<in>set (ipc_port_list k). po_path (the (ports k q)) \<noteq> po_path po"
  shows "ipc_inv T (published p po hn k)" "port_held (published p po hn k) p"
proof -
  let ?k = "published p po hn k" and ?po = "po\<lparr>po_state := IPC_PORT_STATE_LISTENING\<rparr>"
  have r: "port_refs k p po < refcnt hn" using port_heldD(1) [OF inv held p hn] .
  have refs: "port_refs ?k p ?po = port_refs k p po + 1" using nl by (simp add: port_refs_def published_def)
  have okp: "port_ok ?k p ?po" using port_okD [OF inv p] hn r refs by (auto simp: port_ok_def published_def)
  have okq: "port_ok ?k q qo" if "q \<noteq> p" "ports k q = Some qo" for q qo
    using port_okD [OF inv that(2)] that(1) port_ok_cong [of ?k q k qo] by (simp add: published_def)
  have uniq: "q = q'" if "q \<in> set (ipc_port_list ?k)" "q' \<in> set (ipc_port_list ?k)" "ports ?k q = Some qo"
    "ports ?k q' = Some qo'" "po_path qo = po_path qo'" for q q' qo qo'
    using that path ports_paths [OF ipc_invD(4) [OF inv], of q q' qo qo'] nl
    by (auto simp: published_def split: if_splits)
  have "ports_inv ?k" unfolding ports_inv_def
  proof (intro conjI allI impI ballI)
    show "port_ok ?k q qo" if "ports ?k q = Some qo" for q qo
      using okp okq [of q qo] that by (cases "q = p") (simp_all add: published_def)
    show "distinct (ipc_port_list ?k)" using ipc_invD(4) [OF inv] nl by (simp add: ports_inv_def published_def)
    show "ports ?k q \<noteq> None" if "q \<in> set (ipc_port_list ?k)" for q
      using ipc_invD(4) [OF inv] that by (auto simp: ports_inv_def published_def)
  qed (use uniq in blast)
  moreover have "chans_inv T ?k" using ipc_invD(1) [OF inv] by (subst chans_inv_cong [of _ k]) (simp_all add: published_def)
  moreover have "heap_inv ?k" using ipc_invD(2) [OF inv] p by (auto simp: heap_inv_def published_def)
  moreover have "lists_inv ?k"
    by (rule lists_inv_cong_ports [OF ipc_invD(3) [OF inv] _ _ p, where po' = ?po]) (simp_all add: published_def)
  ultimately show "ipc_inv T ?k" by (simp add: ipc_inv_def)
  show "port_held ?k p" using refs r by (simp add: port_held_def published_def)
qed

lemma publish_code:
  assumes inv: "ipc_inv {} k" and p: "ports k p = Some po" and hn: "handles k (PortH p) = Some hn"
    and nl: "p \<notin> set (ipc_port_list k)"
  shows "ipc_port_publish (PortH p) k =
    (if \<exists>q\<in>set (ipc_port_list k). po_path (the (ports k q)) = po_path po then Some (ERR_ALREADY_EXISTS, k)
     else map_option (Pair NO_ERROR)
       (ipc_port_publish_loop p (waiting_for_port_chan_list k) (published p po hn k)))"
proof -
  let ?k = "published p po hn k"
  have isp: "ipc_is_port (PortH p) k = Some True" by (rule ipc_is_port_ok [OF inv p])
  from inv show ?thesis
  proof (cases rule: port_find_cases [where path = "po_path po"])
    case none
    then show ?thesis using isp p hn nl
      by (cases "ipc_port_publish_loop p (waiting_for_port_chan_list k) ?k")
        (auto simp: ipc_port_publish_def handle_incref_def update_handle_def refcount_inc_def published_def kern_commute)
  next
    case (found q qo qn)
    then have "\<exists>q\<in>set (ipc_port_list k). po_path (the (ports k q)) = po_path po" by (intro bexI [of _ q]) simp_all
    with found isp p nl show ?thesis by (simp add: ipc_port_publish_def)
  qed
qed

lemma ipc_port_publish_ok:
  assumes inv: "ipc_inv {} k" and p: "ports k p = Some po" and held: "port_held k p"
    and nl: "p \<notin> set (ipc_port_list k)" and res: "ipc_port_publish (PortH p) k = Some (r, k')"
  shows "ipc_inv {} k' \<and> port_held k' p \<and> (if r = NO_ERROR
    then p \<in> set (ipc_port_list k') \<and> (\<forall>c \<in> set (waiting_for_port_chan_list k). admitted k po c) \<and>
      waiting_for_port_chan_list k' = filter (\<lambda>c. \<not> waits_for k (po_path po) c) (waiting_for_port_chan_list k)
    else r = ERR_ALREADY_EXISTS \<and> k' = k)"
proof -
  obtain hn where hn: "handles k (PortH p) = Some hn" using held by (auto simp: port_held_def)
  let ?k = "published p po hn k" and ?po = "po\<lparr>po_state := IPC_PORT_STATE_LISTENING\<rparr>"
  let ?w = "waiting_for_port_chan_list k"
  show ?thesis
  proof (cases "\<exists>q\<in>set (ipc_port_list k). po_path (the (ports k q)) = po_path po")
    case True
    then show ?thesis using publish_code [OF inv p hn nl] res inv held by simp
  next
    case False
    then have loop: "ipc_port_publish_loop p ?w ?k = Some k'" "r = NO_ERROR"
      using publish_code [OF inv p hn nl] res by (auto simp: eq_commute [of "Some (r, k')"])
    note pub = ipc_inv_published [OF inv p hn held nl]
    have sel: "ports ?k p = Some ?po" "waiting_for_port_chan_list ?k = ?w" "chans ?k = chans k"
      "ipc_port_list ?k = ipc_port_list k @ [p]"
      by (simp_all add: published_def)
    have eqs: "admitted ?k ?po c = admitted k po c" "waits_for ?k (po_path ?po) c = waits_for k (po_path po) c" for c
      using sel by (simp_all add: admitted_def waits_for_def check_access_def)
    from publish_loop_ok [OF loop(1) pub(1) sel(1) pub(2)] False lists_waiting(2) [OF inv] sel eqs loop(2)
    show ?thesis by (auto intro: filter_cong)
  qed
qed

lemma ipc_port_publish_pairs:
  assumes inv: "ipc_inv {} k" and p: "ports k p = Some po" and held: "port_held k p"
    and nl: "p \<notin> set (ipc_port_list k)" and res: "ipc_port_publish (PortH p) k = Some (NO_ERROR, k')"
  shows "\<exists>ss. ports k' p = Some (po\<lparr>po_state := IPC_PORT_STATE_LISTENING, pending_list := pending_list po @ ss\<rparr>) \<and>
    list_all2 (pending_pair k' p) (filter (waits_for k (po_path po)) (waiting_for_port_chan_list k)) ss \<and>
    (filter (waits_for k (po_path po)) (waiting_for_port_chan_list k) \<noteq> [] \<longrightarrow>
      (\<forall>hn. handles k (PortH p) = Some hn \<longrightarrow> woken hn (events k')))"
proof -
  obtain hn where hn: "handles k (PortH p) = Some hn" using held by (auto simp: port_held_def)
  let ?k = "published p po hn k" and ?po = "po\<lparr>po_state := IPC_PORT_STATE_LISTENING\<rparr>"
  let ?w = "waiting_for_port_chan_list k"
  have nd: "\<not> (\<exists>q\<in>set (ipc_port_list k). po_path (the (ports k q)) = po_path po)"
    and loop: "ipc_port_publish_loop p ?w ?k = Some k'"
    using publish_code [OF inv p hn nl] res by (auto simp: eq_commute [of "Some (NO_ERROR, k')"] split: if_splits)
  then have "\<forall>q\<in>set (ipc_port_list k). po_path (the (ports k q)) \<noteq> po_path po" by blast
  note pub = ipc_inv_published [OF inv p hn held nl this]
  have sel: "ports ?k p = Some ?po" "waiting_for_port_chan_list ?k = ?w" "handles ?k (PortH p) = Some (hn\<lparr>refcnt := refcnt hn + 1\<rparr>)"
    "waits_for ?k = waits_for k"
    by (simp_all add: published_def waits_for_def fun_eq_iff)
  obtain ss where "ports k' p = Some (?po\<lparr>pending_list := pending_list ?po @ ss\<rparr>)"
    "list_all2 (pending_pair k' p) (filter (waits_for k (po_path po)) ?w) ss"
    "filter (waits_for k (po_path po)) ?w \<noteq> [] \<longrightarrow> woken (hn\<lparr>refcnt := refcnt hn + 1\<rparr>) (events k')"
    using publish_loop_attaches [OF loop pub(1) sel(1) pub(2)] lists_waiting(2) [OF inv] sel by auto
  then show ?thesis using hn by (intro exI [of _ ss]) (simp add: woken_def)
qed

lemma publish_refused:
  assumes inv: "ipc_inv {} k" and p: "ports k p = Some po" and held: "port_held k p"
    and nl: "p \<notin> set (ipc_port_list k)" and path: "\<forall>q\<in>set (ipc_port_list k). po_path (the (ports k q)) \<noteq> po_path po"
    and c: "c \<in> set (waiting_for_port_chan_list k)" "\<not> admitted k po c"
  shows "ipc_port_publish (PortH p) k = None"
proof (cases "ipc_port_publish (PortH p) k")
  case (Some res)
  obtain r k' where rk: "res = (r, k')" by (cases res)
  obtain hn where hn: "handles k (PortH p) = Some hn" using held by (auto simp: port_held_def)
  have "r = NO_ERROR" using publish_code [OF inv p hn nl] path Some rk
    by (auto simp: eq_commute [of "Some (r, k')"])
  with ipc_port_publish_ok [OF inv p held nl Some [unfolded rk]] c show ?thesis by auto
qed simp

lemma publish_returns:
  assumes inv: "ipc_inv {} k" and p: "ports k p = Some po" and held: "port_held k p"
    and nl: "p \<notin> set (ipc_port_list k)"
    and adm: "\<forall>c \<in> set (waiting_for_port_chan_list k). admitted k po c" and al: "alloc k = []"
  shows "ipc_port_publish (PortH p) k \<noteq> None"
proof (cases "\<exists>q\<in>set (ipc_port_list k). po_path (the (ports k q)) = po_path po")
  case dup: True
  obtain hn where hn: "handles k (PortH p) = Some hn" using held by (auto simp: port_held_def)
  show ?thesis using publish_code [OF inv p hn nl] dup by simp
next
  case False
  obtain hn where hn: "handles k (PortH p) = Some hn" using held by (auto simp: port_held_def)
  let ?k = "published p po hn k" and ?po = "po\<lparr>po_state := IPC_PORT_STATE_LISTENING\<rparr>"
  have "\<forall>q\<in>set (ipc_port_list k). po_path (the (ports k q)) \<noteq> po_path po" using False by blast
  note pub = ipc_inv_published [OF inv p hn held nl this]
  have "admitted ?k ?po c = admitted k po c" for c by (simp add: published_def admitted_def check_access_def)
  then have "ipc_port_publish_loop p (waiting_for_port_chan_list k) ?k \<noteq> None"
    by (intro publish_loop_returns [OF pub(1) _ pub(2), where po = ?po])
      (use adm al lists_waiting(2) [OF inv] in \<open>simp_all add: published_def\<close>)
  then show ?thesis using publish_code [OF inv p hn nl] False by auto
qed

lemma ipc_init_ok: "ipc_inv {} (ipc_init al)"
  by (simp add: ipc_inv_def chans_inv_def heap_inv_def lists_inv_def ports_inv_def ipc_init_def on_list_def)

section \<open>A kernel with a client of the non-secure side waiting\<close>

definition ex_wait :: kern where
  "ex_wait = snd (the (ipc_port_connect_async ZeroUuid ''srv'' 64 IPC_CONNECT_WAIT_FOR_PORT (ipc_init [])))"

definition ex_port :: "u32 \<Rightarrow> kern" where
  "ex_port flags = snd (the (ipc_port_create (AppUuid 1) ''srv'' 2 64 flags ex_wait))"

lemma ex_port_ok: "ipc_inv {} (ex_port flags)" "port_held (ex_port flags) 0" 
proof -
  obtain r h k where k: "ipc_port_connect_async ZeroUuid ''srv'' 64 IPC_CONNECT_WAIT_FOR_PORT (ipc_init []) = Some ((r, h), k)"
    "ipc_inv {} k" by (rule ipc_port_connect_async_ok [OF ipc_init_ok [of "[]"]])
  then have inv: "ipc_inv {} ex_wait" by (simp add: ex_wait_def)
  obtain r h k where c: "ipc_port_create (AppUuid 1) ''srv'' 2 64 flags ex_wait = Some ((r, h), k)"
    "ipc_inv {} k" "port_created (AppUuid 1) ''srv'' r h ex_wait k" by (rule ipc_port_create_ok [OF inv])
  then show "ipc_inv {} (ex_port flags)" by (simp add: ex_port_def)
  have "alloc ex_wait = []" "next_port ex_wait = 0" by code_simp+
  then have "r = NO_ERROR" using c(1) 
    by (auto simp: ipc_port_create_def Let_def handle_init_def update_handle_def)
  then show "port_held (ex_port flags) 0" using c \<open>next_port ex_wait = 0\<close> by (simp add: port_created_def ex_port_def)
qed

lemma ex_port_facts:
  "ipc_port_list (ex_port IPC_PORT_ALLOW_TA_CONNECT) = []" 
  "waiting_for_port_chan_list (ex_port IPC_PORT_ALLOW_TA_CONNECT) = [0]"
  "map_option po_path (ports (ex_port IPC_PORT_ALLOW_TA_CONNECT) 0) = Some ''srv''"
  "map_option ch_path (chans (ex_port IPC_PORT_ALLOW_TA_CONNECT) 0) = Some (Some ''srv'')"
  by code_simp+

end
