(* ===== verification/Ipc_Msg.thy ===== *)
theory Ipc_Msg
  imports Ipc_Publish
begin

text \<open>
  Messages over channels: the channel half of \<^verbatim>\<open>lib/trusty/ipc_msg.c\<close>. A send
  writes into the queue of the peer and wakes it; a receiver gets, reads and puts back
  messages of its own queue, and a put wakes a sender that found the queue full.
\<close>

section \<open>Definitions\<close>

definition check_channel_locked :: "hid option \<Rightarrow> kern \<Rightarrow> int option" where
  "check_channel_locked chandle k = (case chandle of
     None \<Rightarrow> Some ERR_INVALID_ARGS
   | Some h \<Rightarrow> do {
       is_chan \<leftarrow> ipc_is_channel h k;
       Some (if \<not> is_chan then ERR_INVALID_ARGS else NO_ERROR)
     })"

definition containerof_chan :: "hid option \<Rightarrow> nat option" where
  "containerof_chan chandle = Option.bind chandle chan_of"

definition check_channel_connected_locked :: "hid option \<Rightarrow> kern \<Rightarrow> int option" where
  "check_channel_connected_locked chandle k = do {
     ret \<leftarrow> check_channel_locked chandle k;
     (if ret \<noteq> NO_ERROR then Some ret
      else do {
        c \<leftarrow> containerof_chan chandle;
        ch \<leftarrow> chans k c;
        (if ch_state ch = IPC_CHAN_STATE_CONNECTED then do { kassert (peer ch \<noteq> None); Some NO_ERROR }
         else if ch_state ch = IPC_CHAN_STATE_DISCONNECTING then Some ERR_CHANNEL_CLOSED
         else Some ERR_NOT_READY)
      })
   }"

text \<open>A channel without a peer, or a peer without a queue, is a NULL dereference.\<close>

definition msg_write_locked :: "kmem \<Rightarrow> umem \<Rightarrow> nat \<Rightarrow> msg_desc \<Rightarrow> kern \<Rightarrow> (int \<times> kern) option" where
  "msg_write_locked m um c msg k = do {
     ch \<leftarrow> chans k c;
     d \<leftarrow> peer ch;
     dh \<leftarrow> chans k d;
     mq \<leftarrow> msg_queue dh;
     (ret, mq, blocked) \<leftarrow> msg_queue_write m um msg mq;
     k \<leftarrow> update_chan d (\<lambda>dh. dh\<lparr>msg_queue := Some mq\<rparr>) k;
     k \<leftarrow> (if blocked then update_chan c (\<lambda>ch. ch\<lparr>aux_state := aux_state ch OR IPC_CHAN_AUX_STATE_SEND_BLOCKED\<rparr>) k
          else Some k);
     Some (ret, k)
   }"

definition msg_put_read_locked :: "nat \<Rightarrow> u32 \<Rightarrow> kern \<Rightarrow> (int \<times> kern) option" where
  "msg_put_read_locked c msg_id k = do {
     ch \<leftarrow> chans k c;
     mq \<leftarrow> msg_queue ch;
     let (ret, mq) = msg_queue_put_read mq msg_id;
     (if ret \<noteq> NO_ERROR then Some (ret, k)
      else do {
        k \<leftarrow> update_chan c (\<lambda>ch. ch\<lparr>msg_queue := Some mq\<rparr>) k;
        k \<leftarrow> (case peer ch of
                None \<Rightarrow> Some k
              | Some d \<Rightarrow> do {
                  dh \<leftarrow> chans k d;
                  (if aux_state dh AND IPC_CHAN_AUX_STATE_SEND_BLOCKED \<noteq> 0 then do {
                     k \<leftarrow> update_chan d (\<lambda>dh. dh\<lparr>aux_state :=
                       (aux_state dh AND NOT IPC_CHAN_AUX_STATE_SEND_BLOCKED) OR IPC_CHAN_AUX_STATE_SEND_UNBLOCKED\<rparr>) k;
                     handle_notify (ChanH d) k
                   } else Some k)
                });
        Some (NO_ERROR, k)
      })
   }"

text \<open>The part of a send that runs under the lock, shared by kernel and user senders.\<close>

definition send_locked :: "kmem \<Rightarrow> umem \<Rightarrow> hid option \<Rightarrow> msg_desc \<Rightarrow> kern \<Rightarrow> (int \<times> kern) option" where
  "send_locked m um chandle msg k = do {
     ret \<leftarrow> check_channel_connected_locked chandle k;
     (if ret \<noteq> NO_ERROR then Some (ret, k)
      else do {
        c \<leftarrow> containerof_chan chandle;
        (ret, k) \<leftarrow> msg_write_locked m um c msg k;
        (if ret \<ge> 0 then do {
           ch \<leftarrow> chans k c;
           d \<leftarrow> peer ch;
           k \<leftarrow> handle_notify (ChanH d) k;
           Some (ret, k)
         } else Some (ret, k))
      })
   }"

type_synonym ipc_msg_kern = "iovec_kern list option \<times> nat \<times> nat"

fun kern_desc :: "ipc_msg_kern \<Rightarrow> msg_desc" where
  "kern_desc (iov, num_iov, num_handles) = KernMsg iov num_iov num_handles"

definition ipc_send_msg :: "kmem \<Rightarrow> hid option \<Rightarrow> ipc_msg_kern option \<Rightarrow> kern \<Rightarrow> (int \<times> kern) option" where
  "ipc_send_msg m chandle msg k = (case msg of
     None \<Rightarrow> Some (ERR_INVALID_ARGS, k)
   | Some msg \<Rightarrow> send_locked m Map.empty chandle (kern_desc msg) k)"

definition ipc_get_msg :: "hid option \<Rightarrow> ipc_msg_info \<Rightarrow> kern \<Rightarrow> ((int \<times> ipc_msg_info) \<times> kern) option" where
  "ipc_get_msg chandle info k = do {
     ret \<leftarrow> check_channel_locked chandle k;
     (if ret \<noteq> NO_ERROR then Some ((ret, info), k)
      else do {
        c \<leftarrow> containerof_chan chandle;
        ch \<leftarrow> chans k c;
        mq \<leftarrow> msg_queue ch;
        let (ret, info) = msg_peek_next_filled_locked mq info;
        (if ret \<noteq> NO_ERROR then Some ((ret, info), k)
         else do {
           mq \<leftarrow> msg_get_filled_locked mq;
           k \<leftarrow> update_chan c (\<lambda>ch. ch\<lparr>msg_queue := Some mq\<rparr>) k;
           Some ((ret, info), k)
         })
      })
   }"

definition ipc_put_msg :: "hid option \<Rightarrow> u32 \<Rightarrow> kern \<Rightarrow> (int \<times> kern) option" where
  "ipc_put_msg chandle msg_id k = do {
     ret \<leftarrow> check_channel_locked chandle k;
     (if ret \<noteq> NO_ERROR then Some (ret, k)
      else do {
        c \<leftarrow> containerof_chan chandle;
        msg_put_read_locked c msg_id k
      })
   }"

definition read_locked ::
  "kmem \<Rightarrow> umem \<Rightarrow> hid option \<Rightarrow> u32 \<Rightarrow> u32 \<Rightarrow> msg_desc \<Rightarrow> kern \<Rightarrow> (int \<times> kmem \<times> umem) option" where
  "read_locked m um chandle msg_id offset msg k = do {
     ret \<leftarrow> check_channel_locked chandle k;
     (if ret \<noteq> NO_ERROR then Some (ret, m, um)
      else do {
        c \<leftarrow> containerof_chan chandle;
        ch \<leftarrow> chans k c;
        mq \<leftarrow> msg_queue ch;
        Some (msg_read_locked m um mq msg_id offset msg)
      })
   }"

definition ipc_read_msg ::
  "kmem \<Rightarrow> hid option \<Rightarrow> u32 \<Rightarrow> u32 \<Rightarrow> ipc_msg_kern option \<Rightarrow> kern \<Rightarrow> (int \<times> kmem) option" where
  "ipc_read_msg m chandle msg_id offset msg k = (case msg of
     None \<Rightarrow> Some (ERR_INVALID_ARGS, m)
   | Some msg \<Rightarrow> do {
       (ret, m, um) \<leftarrow> read_locked m Map.empty chandle msg_id offset (kern_desc msg) k;
       Some (ret, m)
     })"

section \<open>Channels as seen through their handles\<close>

lemma chan_of_handle:
  assumes inv: "ipc_inv T k" and h: "has_handle k c"
  obtains ch where "chans k c = Some ch" "check_channel_locked (Some (ChanH c)) k = Some NO_ERROR"
    "check_channel_connected_locked (Some (ChanH c)) k =
       Some (if ch_state ch = IPC_CHAN_STATE_CONNECTED then NO_ERROR
         else if ch_state ch = IPC_CHAN_STATE_DISCONNECTING then ERR_CHANNEL_CLOSED else ERR_NOT_READY)"
proof -
  obtain hn where hn: "handles k (ChanH c) = Some hn" "0 < refcnt hn" using h by (auto simp: has_handle_def)
  obtain ch where c: "chans k c = Some ch" using ipc_invD(2) [OF inv] hn(1) by (fastforce simp: heap_inv_def)
  have is_chan: "ipc_is_channel (ChanH c) k = Some True" by (rule ipc_is_channel_ok [OF inv c h])
  moreover have "peer ch \<noteq> None" if "ch_state ch = IPC_CHAN_STATE_CONNECTED"
    using state_okD(1) [OF chan_state_ok [OF inv c]] that by (simp add: linking_def)
  ultimately show ?thesis using c
    by (intro that [OF c]) (simp_all add: check_channel_locked_def check_channel_connected_locked_def containerof_chan_def)
qed

lemma ipc_inv_msg_queue:
  assumes inv: "ipc_inv T k" and c: "chans k c = Some ch" and q: "msg_queue ch = Some mq" "mq_wf mq'"
  shows "ipc_inv T (k\<lparr>chans := (chans k)(c \<mapsto> ch\<lparr>msg_queue := Some mq'\<rparr>)\<rparr>)"
  by (rule ipc_inv_update_queue [OF inv c, where q = "Some mq'" and a = "aux_state ch"]) (use q in simp_all)

lemma ipc_inv_aux_state:
  assumes inv: "ipc_inv T k" and c: "chans k c = Some ch"
  shows "ipc_inv T (k\<lparr>chans := (chans k)(c \<mapsto> ch\<lparr>aux_state := a\<rparr>)\<rparr>)"
  by (rule ipc_inv_update_queue [OF inv c, where q = "msg_queue ch" and a = a])
    (use state_okD(2,16) [OF chan_state_ok [OF inv c]] in simp_all)

lemma connected_peer:
  assumes inv: "ipc_inv T k" and c: "chans k c = Some ch" and s: "ch_state ch = IPC_CHAN_STATE_CONNECTED"
  obtains d dh mq hn where "peer ch = Some d" "c \<noteq> d" "chans k d = Some dh" "peer dh = Some c"
    "ch_state dh = IPC_CHAN_STATE_CONNECTED" "msg_queue dh = Some mq" "mq_wf mq" "handles k (ChanH d) = Some hn"
proof -
  from state_okD(1) [OF chan_state_ok [OF inv c]] s obtain d where p: "peer ch = Some d" by (auto simp: linking_def)
  obtain dh hn where d: "chans k d = Some dh" "handles k (ChanH d) = Some hn" by (rule peer_facts [OF inv c p])
  note f = peer_known [OF inv c p d(1)]
  have sd: "ch_state dh = IPC_CHAN_STATE_CONNECTED" using f(2) s by (auto simp: states_match_def)
  obtain mq where mq: "msg_queue dh = Some mq" using state_okD(2) [OF chan_state_ok [OF inv d(1)]] sd by (auto simp: linking_def)
  show ?thesis
    by (rule that [OF p f(1) d(1) _ sd mq _ d(2)])
      (use f(3) s state_okD(16) [OF chan_state_ok [OF inv d(1)] mq] in simp_all)
qed

section \<open>Sending\<close>

lemma msg_queue_write_send:
  assumes wf: "mq_wf mq"
  obtains r mq' where "msg_queue_write m um msg mq = Some (r, mq', free_list mq = [])" "mq_wf mq'"
    "mq' = snd (mq_send (m, um, msg) mq)" "0 \<le> r \<longleftrightarrow> fst (mq_send (m, um, msg) mq) \<noteq> None"
    "r < 0 \<longrightarrow> mq_pending mq' = mq_pending mq"
    "0 \<le> r \<longrightarrow> (\<exists>x. fst (mq_send (m, um, msg) mq) = Some x \<and> mq_pending mq' = mq_pending mq @ [x])"
    "free_list mq = [] \<longrightarrow> r = ERR_NOT_ENOUGH_BUFFER" "mq_held mq' = mq_held mq"
proof -
  have law: "mq_wf q' \<and> mq_pending q' = mq_pending mq @ (case a of None \<Rightarrow> [] | Some x \<Rightarrow> [x]) \<and> mq_held q' = mq_held mq"
    if "mq_send (m, um, msg) mq = (a, q')" for a q'
    by (rule mqf.send_law [OF wf that])
  obtain r mq' where w: "msg_queue_write m um msg mq = Some (r, mq', free_list mq = [])"
    "free_list mq = [] \<longrightarrow> r = ERR_NOT_ENOUGH_BUFFER"
    using wf by (cases rule: msg_queue_write_cases [where m = m and um = um and msg = msg]) auto
  obtain a q' where s: "mq_send (m, um, msg) mq = (a, q')" by (cases "mq_send (m, um, msg) mq")
  have eq: "q' = mq'" "a \<noteq> None \<longleftrightarrow> 0 \<le> r" using s w(1) by (auto simp: mq_send_def split: if_splits)
  show ?thesis by (rule that [OF w(1)]) (use law [OF s] s eq w(2) in auto)
qed

lemma send_ok:
  assumes inv: "ipc_inv T k" and h: "has_handle k c" and c: "chans k c = Some ch"
    and s: "ch_state ch = IPC_CHAN_STATE_CONNECTED"
    and d: "peer ch = Some d" "chans k d = Some dh" "msg_queue dh = Some mq" "handles k (ChanH d) = Some hn"
  obtains r mq' e where "send_locked m um (Some (ChanH c)) msg k =
      Some (r, k\<lparr>chans := (chans k)(d \<mapsto> dh\<lparr>msg_queue := Some mq'\<rparr>, c \<mapsto> ch\<lparr>aux_state :=
        (if free_list mq = [] then aux_state ch OR IPC_CHAN_AUX_STATE_SEND_BLOCKED else aux_state ch)\<rparr>), events := e\<rparr>)"
    "ipc_inv T (k\<lparr>chans := (chans k)(d \<mapsto> dh\<lparr>msg_queue := Some mq'\<rparr>, c \<mapsto> ch\<lparr>aux_state :=
        (if free_list mq = [] then aux_state ch OR IPC_CHAN_AUX_STATE_SEND_BLOCKED else aux_state ch)\<rparr>), events := e\<rparr>)"
    "keeps (events k) e" "0 \<le> r \<longrightarrow> woken hn e" "0 \<le> r \<longleftrightarrow> fst (mq_send (m, um, msg) mq) \<noteq> None"
    "mq' = snd (mq_send (m, um, msg) mq)" "free_list mq = [] \<longrightarrow> r = ERR_NOT_ENOUGH_BUFFER"
proof -
  have cd: "c \<noteq> d" using peer_known(1) [OF inv c d(1,2)] .
  have wf: "mq_wf mq" using state_okD(16) [OF chan_state_ok [OF inv d(2)] d(3)] .
  obtain r mq' where w: "msg_queue_write m um msg mq = Some (r, mq', free_list mq = [])" "mq_wf mq'"
    "mq' = snd (mq_send (m, um, msg) mq)" "0 \<le> r \<longleftrightarrow> fst (mq_send (m, um, msg) mq) \<noteq> None"
    "free_list mq = [] \<longrightarrow> r = ERR_NOT_ENOUGH_BUFFER"
    by (rule msg_queue_write_send [OF wf])
  let ?a = "if free_list mq = [] then aux_state ch OR IPC_CHAN_AUX_STATE_SEND_BLOCKED else aux_state ch"
  let ?k = "k\<lparr>chans := (chans k)(d \<mapsto> dh\<lparr>msg_queue := Some mq'\<rparr>, c \<mapsto> ch\<lparr>aux_state := ?a\<rparr>)\<rparr>"
  have inv1: "ipc_inv T (k\<lparr>chans := (chans k)(d \<mapsto> dh\<lparr>msg_queue := Some mq'\<rparr>)\<rparr>)"
    by (rule ipc_inv_msg_queue [OF inv d(2,3) w(2)])
  have inv2: "ipc_inv T ?k"
    using ipc_inv_aux_state [OF inv1, of c ch ?a] c cd by simp
  have chk: "check_channel_connected_locked (Some (ChanH c)) k = Some NO_ERROR"
    by (rule chan_of_handle [OF inv h]) (use c s in simp)
  have wr: "msg_write_locked m um c msg k = Some (r, ?k)"
    using c d cd w(1) by (simp add: msg_write_locked_def fun_upd_idem)
  obtain e where e: "handle_notify (ChanH d) ?k = Some (?k\<lparr>events := e\<rparr>)" "keeps (events ?k) e" "woken hn e"
    by (rule handle_notify_events [of ?k]) (use d(4) in simp)
  show ?thesis
  proof (cases "0 \<le> r")
    case True
    then have "send_locked m um (Some (ChanH c)) msg k = Some (r, ?k\<lparr>events := e\<rparr>)"
      using chk wr d(1) e(1) by (simp add: send_locked_def containerof_chan_def)
    then show ?thesis by (rule that) (use inv2 e w True in simp_all)
  next
    case False
    then have "send_locked m um (Some (ChanH c)) msg k = Some (r, ?k\<lparr>events := events k\<rparr>)"
      using chk wr by (simp add: send_locked_def containerof_chan_def)
    then show ?thesis by (rule that) (use inv2 w False in simp_all)
  qed
qed

lemma send_not_connected:
  assumes inv: "ipc_inv T k" and h: "has_handle k c" and c: "chans k c = Some ch"
    and s: "ch_state ch \<noteq> IPC_CHAN_STATE_CONNECTED"
  shows "send_locked m um (Some (ChanH c)) msg k =
    Some (if ch_state ch = IPC_CHAN_STATE_DISCONNECTING then ERR_CHANNEL_CLOSED else ERR_NOT_READY, k)"
  by (rule chan_of_handle [OF inv h]) (use c s in \<open>simp add: send_locked_def\<close>)

section \<open>Receiving\<close>

lemma get_empty:
  assumes inv: "ipc_inv T k" and h: "has_handle k c" and c: "chans k c = Some ch" "msg_queue ch = Some mq" "filled_list mq = []"
  shows "ipc_get_msg (Some (ChanH c)) info k = Some ((ERR_NO_MSG, info), k)"
  by (rule chan_of_handle [OF inv h])
    (use c in \<open>simp add: ipc_get_msg_def containerof_chan_def msg_peek_next_filled_locked_def list_peek_head_def\<close>)

lemma get_ok:
  assumes inv: "ipc_inv T k" and h: "has_handle k c" and c: "chans k c = Some ch" "msg_queue ch = Some mq"
    and f: "filled_list mq = i # fs"
  defines "k' \<equiv> k\<lparr>chans := (chans k)(c \<mapsto> ch\<lparr>msg_queue := Some (get_done i mq)\<rparr>)\<rparr>"
  shows "ipc_get_msg (Some (ChanH c)) info k =
      Some ((NO_ERROR, info\<lparr>info_len := of_nat (mi_len (items mq ! i)), info_id := of_nat i\<rparr>), k')" "ipc_inv T k'"
proof -
  have wf: "mq_wf mq" using state_okD(16) [OF chan_state_ok [OF inv c(1)] c(2)] .
  have i: "i < num_items mq" using mq_wf_member(2) [OF wf] f by simp
  have "mi_id (items mq ! i) = of_nat i" using mq_wfD(11) [OF wf i] by (simp add: mq_item_ok_def)
  moreover have "i < 256" using i mq_wfD(1) [OF wf] by simp
  ultimately have id: "ucast (mi_id (items mq ! i)) = (of_nat i :: u32)"
    by (simp add: unsigned_of_nat take_bit_nat_eq_self)
  show "ipc_get_msg (Some (ChanH c)) info k =
      Some ((NO_ERROR, info\<lparr>info_len := of_nat (mi_len (items mq ! i)), info_id := of_nat i\<rparr>), k')"
    by (rule chan_of_handle [OF inv h]) (use c f id msg_get_filled_eq [OF wf f] in
        \<open>simp add: ipc_get_msg_def containerof_chan_def msg_peek_next_filled_locked_def list_peek_head_def k'_def\<close>)
  show "ipc_inv T k'" unfolding k'_def by (rule ipc_inv_msg_queue [OF inv c mq_wf_get_done [OF wf f]])
qed

definition unblock :: "u32 \<Rightarrow> u32" where
  "unblock a = (if a AND IPC_CHAN_AUX_STATE_SEND_BLOCKED \<noteq> 0
     then (a AND NOT IPC_CHAN_AUX_STATE_SEND_BLOCKED) OR IPC_CHAN_AUX_STATE_SEND_UNBLOCKED else a)"

lemma put_bad_id:
  assumes inv: "ipc_inv T k" and h: "has_handle k c" and c: "chans k c = Some ch" "msg_queue ch = Some mq"
    and i: "unat msg_id \<notin> set (read_list mq)"
  shows "ipc_put_msg (Some (ChanH c)) msg_id k = Some (ERR_INVALID_ARGS, k)"
proof -
  have wf: "mq_wf mq" using state_okD(16) [OF chan_state_ok [OF inv c(1)] c(2)] .
  show ?thesis by (rule chan_of_handle [OF inv h]) (use c i msg_queue_put_read_eq [OF wf, of msg_id] in
        \<open>simp add: ipc_put_msg_def containerof_chan_def msg_put_read_locked_def\<close>)
qed

text \<open>A put wakes the peer when the peer was blocked; a channel that lost its peer just frees the item.\<close>

lemma put_ok_no_peer:
  assumes inv: "ipc_inv T k" and h: "has_handle k c" and c: "chans k c = Some ch" "msg_queue ch = Some mq" "peer ch = None"
    and i: "unat msg_id \<in> set (read_list mq)"
  defines "k' \<equiv> k\<lparr>chans := (chans k)(c \<mapsto> ch\<lparr>msg_queue := Some (put_done (unat msg_id) mq)\<rparr>)\<rparr>"
  shows "ipc_put_msg (Some (ChanH c)) msg_id k = Some (NO_ERROR, k')" "ipc_inv T k'"
proof -
  have wf: "mq_wf mq" using state_okD(16) [OF chan_state_ok [OF inv c(1)] c(2)] .
  show "ipc_put_msg (Some (ChanH c)) msg_id k = Some (NO_ERROR, k')"
    by (rule chan_of_handle [OF inv h]) (use c i msg_queue_put_read_eq [OF wf, of msg_id] in
        \<open>simp add: ipc_put_msg_def containerof_chan_def msg_put_read_locked_def k'_def\<close>)
  show "ipc_inv T k'" unfolding k'_def by (rule ipc_inv_msg_queue [OF inv c(1,2) mq_wf_put_done [OF wf i]])
qed

lemma put_ok_peer:
  assumes inv: "ipc_inv T k" and h: "has_handle k c" and c: "chans k c = Some ch" "msg_queue ch = Some mq" "peer ch = Some d"
    and i: "unat msg_id \<in> set (read_list mq)" and d: "chans k d = Some dh" "handles k (ChanH d) = Some hn"
  obtains e where "ipc_put_msg (Some (ChanH c)) msg_id k =
      Some (NO_ERROR, k\<lparr>chans := (chans k)(c \<mapsto> ch\<lparr>msg_queue := Some (put_done (unat msg_id) mq)\<rparr>,
        d \<mapsto> dh\<lparr>aux_state := unblock (aux_state dh)\<rparr>), events := e\<rparr>)"
    "ipc_inv T (k\<lparr>chans := (chans k)(c \<mapsto> ch\<lparr>msg_queue := Some (put_done (unat msg_id) mq)\<rparr>,
        d \<mapsto> dh\<lparr>aux_state := unblock (aux_state dh)\<rparr>), events := e\<rparr>)"
    "keeps (events k) e" "aux_state dh AND IPC_CHAN_AUX_STATE_SEND_BLOCKED \<noteq> 0 \<longrightarrow> woken hn e"
proof -
  have wf: "mq_wf mq" using state_okD(16) [OF chan_state_ok [OF inv c(1)] c(2)] .
  have cd: "c \<noteq> d" using peer_known(1) [OF inv c(1,3) d(1)] .
  let ?k1 = "k\<lparr>chans := (chans k)(c \<mapsto> ch\<lparr>msg_queue := Some (put_done (unat msg_id) mq)\<rparr>)\<rparr>"
  let ?k = "k\<lparr>chans := (chans k)(c \<mapsto> ch\<lparr>msg_queue := Some (put_done (unat msg_id) mq)\<rparr>,
        d \<mapsto> dh\<lparr>aux_state := unblock (aux_state dh)\<rparr>)\<rparr>"
  have inv1: "ipc_inv T ?k1" by (rule ipc_inv_msg_queue [OF inv c(1,2) mq_wf_put_done [OF wf i]])
  have d1: "chans ?k1 d = Some dh" using d cd by simp
  have inv2: "ipc_inv T ?k" using ipc_inv_aux_state [OF inv1 d1, of "unblock (aux_state dh)"] by simp
  obtain e where e: "handle_notify (ChanH d) ?k = Some (?k\<lparr>events := e\<rparr>)" "keeps (events ?k) e" "woken hn e"
    by (rule handle_notify_events [of ?k]) (use d(2) in simp)
  note defs = ipc_put_msg_def containerof_chan_def msg_put_read_locked_def unblock_def
  note put = msg_queue_put_read_eq [OF wf, of msg_id]
  have chk: "check_channel_locked (Some (ChanH c)) k = Some NO_ERROR" by (rule chan_of_handle [OF inv h])
  show ?thesis
  proof (cases "aux_state dh AND IPC_CHAN_AUX_STATE_SEND_BLOCKED \<noteq> 0")
    case True
    have "ipc_put_msg (Some (ChanH c)) msg_id k = Some (NO_ERROR, ?k\<lparr>events := e\<rparr>)"
      using chk c i d cd True e(1) put by (simp add: defs del: handle_notify_Some)
    then show ?thesis by (rule that) (use inv2 e in simp_all)
  next
    case False
    have "ipc_put_msg (Some (ChanH c)) msg_id k = Some (NO_ERROR, ?k\<lparr>events := events k\<rparr>)"
      using chk c i d cd False put by (simp add: defs fun_upd_idem)
    then show ?thesis by (rule that) (use inv2 False in simp_all)
  qed
qed

lemma no_queue_faults:
  assumes inv: "ipc_inv T k" and h: "has_handle k c" and c: "chans k c = Some ch" "msg_queue ch = None"
  shows "ipc_get_msg (Some (ChanH c)) info k = None" "ipc_put_msg (Some (ChanH c)) msg_id k = None"
    "read_locked m um (Some (ChanH c)) msg_id offset msg k = None"
  by (rule chan_of_handle [OF inv h], use c in
      \<open>simp add: ipc_get_msg_def ipc_put_msg_def read_locked_def containerof_chan_def msg_put_read_locked_def\<close>)+

end
