(* ===== verification/Ipc_System.thy ===== *)
theory Ipc_System
  imports Ipc_Msg
begin

text \<open>
  The IPC layer as a transition system. A step is one routine of the kernel, run by a
  caller that holds a reference to the handle it passes; the locks of the code make each
  routine atomic. Every reachable kernel satisfies the invariant, and from the invariant
  follow the properties of connecting, accepting, sending, closing and waiting.
\<close>

section \<open>Steps\<close>

inductive ipc_step :: "kern \<Rightarrow> kern \<Rightarrow> bool" where
  create: "ipc_port_create sid path bufs bsize flags k = Some ((r, h), k') \<Longrightarrow> ipc_step k k'"
| publish: "ports k p = Some po \<Longrightarrow> port_held k p \<Longrightarrow> p \<notin> set (ipc_port_list k) \<Longrightarrow>
    ipc_port_publish (PortH p) k = Some (r, k') \<Longrightarrow> ipc_step k k'"
| connect: "ipc_port_connect_async cid buf max_path flags k = Some ((r, h), k') \<Longrightarrow> ipc_step k k'"
| accept: "ports k p = Some po \<Longrightarrow> port_held k p \<Longrightarrow>
    ipc_port_accept (Some (PortH p)) k = Some ((r, res), k') \<Longrightarrow> ipc_step k k'"
| close_port: "ports k p = Some po \<Longrightarrow> port_held k p \<Longrightarrow>
    handle_close ipc_shutdown ipc_destroy (PortH p) k = Some k' \<Longrightarrow> ipc_step k k'"
| close_chan: "has_handle k c \<Longrightarrow>
    handle_close ipc_shutdown ipc_destroy (ChanH c) k = Some k' \<Longrightarrow> ipc_step k k'"
| send: "has_handle k c \<Longrightarrow> send_locked m um (Some (ChanH c)) msg k = Some (r, k') \<Longrightarrow> ipc_step k k'"
| get: "has_handle k c \<Longrightarrow> ipc_get_msg (Some (ChanH c)) info k = Some ((r, info'), k') \<Longrightarrow> ipc_step k k'"
| put: "has_handle k c \<Longrightarrow> ipc_put_msg (Some (ChanH c)) msg_id k = Some (r, k') \<Longrightarrow> ipc_step k k'"
| finalize: "has_handle k c \<Longrightarrow> chan_finalize_event (ChanH c) event k = Some k' \<Longrightarrow> ipc_step k k'"
| incref: "has_handle k c \<Longrightarrow> handle_incref (ChanH c) k = Some k' \<Longrightarrow> ipc_step k k'"
| incref_port: "port_held k p \<Longrightarrow> handle_incref (PortH p) k = Some k' \<Longrightarrow> ipc_step k k'"
| decref: "handles k (ChanH c) = Some hn \<Longrightarrow> 1 < refcnt hn \<Longrightarrow>
    handle_decref ipc_destroy (ChanH c) k = Some k' \<Longrightarrow> ipc_step k k'"
| decref_port: "ports k p = Some po \<Longrightarrow> port_held k p \<Longrightarrow>
    handle_decref ipc_destroy (PortH p) k = Some k' \<Longrightarrow> ipc_step k k'"
| prepare_wait: "has_handle k c \<Longrightarrow> prepare_wait_handle ev (ChanH c) k = Some (r, k') \<Longrightarrow> ipc_step k k'"
| finish_wait: "has_handle k c \<Longrightarrow> finish_wait_handle (ChanH c) k = Some k' \<Longrightarrow> ipc_step k k'"
| prepare_wait_port: "port_held k p \<Longrightarrow> prepare_wait_handle ev (PortH p) k = Some (r, k') \<Longrightarrow> ipc_step k k'"
| finish_wait_port: "port_held k p \<Longrightarrow> finish_wait_handle (PortH p) k = Some k' \<Longrightarrow> ipc_step k k'"

inductive reachable :: "kern \<Rightarrow> bool" where
  boot: "reachable (ipc_init al)"
| step: "reachable k \<Longrightarrow> ipc_step k k' \<Longrightarrow> reachable k'"

inductive_cases ipc_stepE: "ipc_step k k'"

lemma ipc_inv_port_handle_same:
  assumes inv: "ipc_inv T k" and held: "port_held k p" and hn: "handles k (PortH p) = Some hn"
    and hn': "ops hn' = ops hn" "refcnt hn \<le> refcnt hn'"
  shows "ipc_inv T (k\<lparr>handles := (handles k)(PortH p \<mapsto> hn')\<rparr>)"
proof -
  obtain po where p: "ports k p = Some po" using held by (auto simp: port_held_def)
  have "1 \<le> refcnt hn" "port_refs k p po \<le> refcnt hn"
    using port_okD [OF inv p] hn by (auto simp: port_ok_def)
  with hn' show ?thesis by (intro ipc_inv_port_handle [OF inv p hn]) simp_all
qed

lemma finalize_ok:
  assumes inv: "ipc_inv T k" and h: "has_handle k c"
  obtains k' where "chan_finalize_event (ChanH c) event k = Some k'" "ipc_inv T k'"
proof -
  obtain ch where c: "chans k c = Some ch" by (rule chan_of_handle [OF inv h])
  have i: "ipc_is_channel (ChanH c) k = Some True" by (rule ipc_is_channel_ok [OF inv c h])
  let ?a = "let aux = aux_state ch;
      aux = (if event AND IPC_HANDLE_POLL_SEND_UNBLOCKED \<noteq> 0 then aux AND NOT IPC_CHAN_AUX_STATE_SEND_UNBLOCKED else aux)
    in if event AND IPC_HANDLE_POLL_READY \<noteq> 0 then aux AND NOT IPC_CHAN_AUX_STATE_CONNECTED else aux"
  have "chan_finalize_event (ChanH c) event k =
      Some (if event AND (IPC_HANDLE_POLL_SEND_UNBLOCKED OR IPC_HANDLE_POLL_READY) \<noteq> 0
        then k\<lparr>chans := (chans k)(c \<mapsto> ch\<lparr>aux_state := ?a\<rparr>)\<rparr> else k)"
    using i by (simp add: chan_finalize_event_def update_chan_Some [OF c] Let_def)
  then show ?thesis by (rule that) (use inv ipc_inv_aux_state [OF inv c, of ?a] in simp)
qed

lemma put_inv:
  assumes inv: "ipc_inv {} k" and h: "has_handle k c" and res: "ipc_put_msg (Some (ChanH c)) msg_id k = Some (r, k')"
  shows "ipc_inv {} k'"
proof -
  obtain ch where c: "chans k c = Some ch" by (rule chan_of_handle [OF inv h])
  obtain mq where mq: "msg_queue ch = Some mq" using no_queue_faults(2) [OF inv h c] res by fastforce
  show ?thesis
  proof (cases "unat msg_id \<in> set (read_list mq)")
    case False
    with put_bad_id [OF inv h c mq] res inv show ?thesis by simp
  next
    case True
    show ?thesis
    proof (cases "peer ch")
      case None
      with put_ok_no_peer [OF inv h c mq None True] res show ?thesis by simp
    next
      case (Some d)
      obtain dh hn where d: "chans k d = Some dh" "handles k (ChanH d) = Some hn"
        by (rule peer_facts [OF inv c Some])
      from inv h c mq Some True d show ?thesis
        by (rule put_ok_peer) (use res in simp)
    qed
  qed
qed

lemma get_inv:
  assumes inv: "ipc_inv {} k" and h: "has_handle k c" and res: "ipc_get_msg (Some (ChanH c)) info k = Some (r, k')"
  shows "ipc_inv {} k'"
proof -
  obtain ch where c: "chans k c = Some ch" by (rule chan_of_handle [OF inv h])
  obtain mq where mq: "msg_queue ch = Some mq" using no_queue_faults(1) [OF inv h c] res by fastforce
  show ?thesis
  proof (cases "filled_list mq")
    case Nil
    with get_empty [OF inv h c mq] res inv show ?thesis by simp
  next
    case (Cons i fs)
    with get_ok [OF inv h c mq Cons] res show ?thesis by simp
  qed
qed

lemma send_inv:
  assumes inv: "ipc_inv {} k" and h: "has_handle k c" and res: "send_locked m um (Some (ChanH c)) msg k = Some (r, k')"
  shows "ipc_inv {} k'"
proof -
  obtain ch where c: "chans k c = Some ch" by (rule chan_of_handle [OF inv h])
  show ?thesis
  proof (cases "ch_state ch = IPC_CHAN_STATE_CONNECTED")
    case False
    with send_not_connected [OF inv h c] res inv show ?thesis by simp
  next
    case True
    obtain d dh mq hn where d: "peer ch = Some d" "chans k d = Some dh" "msg_queue dh = Some mq" "handles k (ChanH d) = Some hn"
      by (rule connected_peer [OF inv c True])
    from inv h c True d show ?thesis by (rule send_ok [where m = m and um = um and msg = msg]) (use res in simp)
  qed
qed

lemma ipc_step_inv:
  assumes "ipc_step k k'" "ipc_inv {} k"
  shows "ipc_inv {} k'"
  using assms
proof (cases rule: ipc_step.cases)
  case (create sid path bufs bsize flags r h)
  show ?thesis by (rule ipc_port_create_ok [OF assms(2), of sid path bufs bsize flags]) (use create in simp)
next
  case publish
  then show ?thesis using ipc_port_publish_ok [OF assms(2)] by blast
next
  case (connect cid buf max_path flags r h)
  show ?thesis by (rule ipc_port_connect_async_ok [OF assms(2), of cid buf max_path flags]) (use connect in simp)
next
  case accept
  show ?thesis by (rule ipc_port_accept_ok [OF assms(2) accept(1,2)]) (use accept in simp)
next
  case close_port
  show ?thesis by (rule port_close_ok [OF assms(2) close_port(1,2)]) (use close_port in simp)
next
  case close_chan
  show ?thesis by (rule chan_close_ok [OF assms(2) close_chan(1)]) (use close_chan in simp)
next
  case (send c m um msg r)
  then show ?thesis by (rule send_inv [OF assms(2)])
next
  case get
  then show ?thesis by (rule get_inv [OF assms(2)])
next
  case put
  then show ?thesis by (rule put_inv [OF assms(2)])
next
  case (finalize c event)
  show ?thesis by (rule finalize_ok [OF assms(2) finalize(1), of event]) (use finalize in simp)
next
  case (incref c)
  then show ?thesis using ipc_inv_chan_handle [OF assms(2), of c] by (auto simp: has_handle_def)
next
  case (incref_port p)
  then show ?thesis using ipc_inv_port_handle_same [OF assms(2) incref_port(1)]
    by (auto simp: port_held_def)
next
  case (decref c hn)
  then show ?thesis
    using ipc_inv_chan_handle [OF assms(2) decref(1), of "hn\<lparr>refcnt := refcnt hn - 1\<rparr>"] by (simp add: handle_decref_shared)
next
  case (decref_port p po)
  then obtain hn where "handles k (PortH p) = Some hn" by (auto simp: port_held_def)
  with port_decref_ok [OF assms(2) decref_port(1,2)] decref_port(3) show ?thesis by simp
next
  case (prepare_wait c ev r)
  then show ?thesis using ipc_inv_chan_handle [OF assms(2), of c] assms(2)
    by (auto simp: has_handle_def prepare_wait_handle_def split: if_splits)
next
  case (finish_wait c)
  then show ?thesis using ipc_inv_chan_handle [OF assms(2), of c] by (auto simp: has_handle_def finish_wait_handle_def)
next
  case (prepare_wait_port p ev r)
  then show ?thesis using ipc_inv_port_handle_same [OF assms(2) prepare_wait_port(1)] assms(2)
    by (auto simp: port_held_def prepare_wait_handle_def split: if_splits)
next
  case (finish_wait_port p)
  then show ?thesis using ipc_inv_port_handle_same [OF assms(2) finish_wait_port(1)]
    by (auto simp: port_held_def finish_wait_handle_def)
qed

lemma reachable_inv: "reachable k \<Longrightarrow> ipc_inv {} k"
  by (induction rule: reachable.induct) (auto intro: ipc_init_ok ipc_step_inv)

definition ex_po :: ipc_port where
  "ex_po = \<lparr>po_path = ''srv'', po_uuid = AppUuid 1, po_state = IPC_PORT_STATE_INVALID,
     po_flags = IPC_PORT_ALLOW_TA_CONNECT OR IPC_PORT_ALLOW_NS_CONNECT, num_recv_bufs = 1, recv_buf_size = 4, pending_list = []\<rparr>"

definition ex_hn :: "ipc_ops \<Rightarrow> int \<Rightarrow> ipc_ops handle" where
  "ex_hn tab n = \<lparr>refcnt = n, ops = Some tab, wait_event = None, hlist_node = None, cookie = 0\<rparr>"

definition ex_created :: kern where
  "ex_created = (ipc_init [])\<lparr>ports := [0 \<mapsto> ex_po], handles := [PortH 0 \<mapsto> ex_hn ipc_port_handle_ops 1], next_port := 1\<rparr>"

definition ex_published :: kern where
  "ex_published = ex_created\<lparr>ports := [0 \<mapsto> ex_po\<lparr>po_state := IPC_PORT_STATE_LISTENING\<rparr>], ipc_port_list := [0],
     handles := [PortH 0 \<mapsto> ex_hn ipc_port_handle_ops 2]\<rparr>"

definition ex_queue :: ipc_msg_queue where
  "ex_queue = \<lparr>free_list = [0], filled_list = [], read_list = [], num_items = 1, item_sz = 4,
     mq_buf = replicate 4 0, items = [calloc_item]\<rparr>"

definition ex_client :: "chan_state \<Rightarrow> ipc_chan" where
  "ex_client s = \<lparr>refobj = [PeerRef (Suc 0), HandleRef], peer_ref = True, peer = Some (Suc 0), ch_uuid = ZeroUuid, ch_state = s,
     ch_flags = 0, aux_state = 0, ch_node = Unlinked, msg_queue = Some ex_queue, ch_path = None\<rparr>"

definition ex_server :: ipc_chan where
  "ex_server = \<lparr>refobj = [PeerRef 0, NodeRef], peer_ref = True, peer = Some 0, ch_uuid = AppUuid 1,
     ch_state = IPC_CHAN_STATE_ACCEPTING, ch_flags = IPC_CHAN_FLAG_SERVER, aux_state = 0, ch_node = OnPending 0,
     msg_queue = Some ex_queue, ch_path = None\<rparr>"

definition ex_connecting :: kern where
  "ex_connecting = ex_published\<lparr>chans := [0 \<mapsto> ex_client IPC_CHAN_STATE_CONNECTING, Suc 0 \<mapsto> ex_server],
     ports := [0 \<mapsto> ex_po\<lparr>po_state := IPC_PORT_STATE_LISTENING, pending_list := [Suc 0]\<rparr>],
     handles := [PortH 0 \<mapsto> ex_hn ipc_port_handle_ops 3, ChanH (Suc 0) \<mapsto> zero_handle, ChanH 0 \<mapsto> ex_hn ipc_chan_handle_ops 1],
     next_chan := Suc (Suc 0)\<rparr>"

definition ex_connected :: kern where
  "ex_connected = ex_published\<lparr>chans := [0 \<mapsto> (ex_client IPC_CHAN_STATE_CONNECTED)\<lparr>aux_state := IPC_CHAN_AUX_STATE_CONNECTED\<rparr>,
       Suc 0 \<mapsto> ex_server\<lparr>refobj := [PeerRef 0, HandleRef], ch_state := IPC_CHAN_STATE_CONNECTED, ch_node := Unlinked\<rparr>],
     handles := [PortH 0 \<mapsto> ex_hn ipc_port_handle_ops 2, ChanH (Suc 0) \<mapsto> ex_hn ipc_chan_handle_ops 1,
       ChanH 0 \<mapsto> ex_hn ipc_chan_handle_ops 1], next_chan := Suc (Suc 0)\<rparr>"

lemmas ex_defs = ex_created_def ex_published_def ex_connecting_def ex_connected_def ex_po_def ex_hn_def ex_queue_def
  ex_client_def ex_server_def ipc_init_def zero_handle_def calloc_item_def

lemma ex_create: "ipc_port_create (AppUuid 1) ''srv'' 1 4 (IPC_PORT_ALLOW_TA_CONNECT OR IPC_PORT_ALLOW_NS_CONNECT) (ipc_init []) =
    Some ((NO_ERROR, Some (PortH 0)), ex_created)"
  by (simp add: ex_defs ipc_port_create_def handle_init_def refcount_init_def Let_def)

lemma ex_publish: "ipc_port_publish (PortH 0) ex_created = Some (NO_ERROR, ex_published)"
  by (simp add: ex_defs ipc_port_publish_def ipc_is_port_def port_find_locked_def)

lemma ex_connect: "ipc_port_connect_async ZeroUuid ''srv'' 64 0 ex_published = Some ((NO_ERROR, Some (ChanH 0)), ex_connecting)"
  by (simp add: ex_defs ipc_port_connect_async_def strnlen_def port_find_locked_def chan_alloc_def Let_def port_attach_client_def
     check_access_def is_ns_client_def create_queue_def ipc_msg_queue_create_def attach_link_def chan_add_ref_def obj_add_ref_def
     ref_in_list_def set_ref_linked_def chan_del_ref_def obj_del_ref_def chan_handle_init_def handle_init_def refcount_init_def
     fun_upd_twist kern_commute)

lemma ex_accept: "ipc_port_accept (Some (PortH 0)) ex_connecting = Some ((NO_ERROR, Some (ChanH (Suc 0), ZeroUuid)), ex_connected)"
  by (simp add: ex_defs ipc_port_accept_def Let_def node_list_delete_def ipc_is_port_def handle_decref_def refcount_dec_def
     chan_add_ref_def obj_add_ref_def
     ref_in_list_def set_ref_linked_def chan_del_ref_def obj_del_ref_def chan_handle_init_def handle_init_def refcount_init_def
     fun_upd_twist kern_commute)

lemma ex_reachable: "reachable ex_created" "reachable ex_published" "reachable ex_connecting" "reachable ex_connected"
proof -
  show 1: "reachable ex_created" by (rule reachable.step [OF reachable.boot ipc_step.create [OF ex_create]])
  show 2: "reachable ex_published"
    by (rule reachable.step [OF 1 ipc_step.publish [OF _ _ _ ex_publish]]) (simp_all add: ex_defs port_held_def port_refs_def)
  show 3: "reachable ex_connecting" by (rule reachable.step [OF 2 ipc_step.connect [OF ex_connect]])
  show "reachable ex_connected"
    by (rule reachable.step [OF 3 ipc_step.accept [OF _ _ ex_accept]]) (simp_all add: ex_defs port_held_def port_refs_def)
qed

lemma ex_connected_facts:
  "has_handle ex_connected 0" "has_handle ex_connected (Suc 0)" "port_held ex_connected 0"
  by (simp_all add: ex_defs has_handle_def port_held_def port_refs_def)

lemma ex_refused_reachable: "reachable ex_wait" "reachable (ex_port flags)"
proof -
  show 1: "reachable ex_wait"
    by (rule ipc_port_connect_async_ok [OF ipc_init_ok [of "[]"], of ZeroUuid "''srv''" 64 IPC_CONNECT_WAIT_FOR_PORT])
      (auto simp: ex_wait_def intro: reachable.step [OF reachable.boot ipc_step.connect])
  show "reachable (ex_port flags)"
    by (rule ipc_port_create_ok [OF reachable_inv [OF 1], of "AppUuid 1" "''srv''" 2 64 flags])
      (auto simp: ex_port_def intro: reachable.step [OF 1 ipc_step.create])
qed

section \<open>Properties of every reachable kernel\<close>

text \<open>
  C1: In every reachable kernel the references to each channel are exactly the ones its
  links account for, connected channels are peers of each other and in matching states,
  the waiting list and the pending lists hold exactly the channels whose node says so,
  the reference count of a port covers its listing and its pending connections, and no
  two published ports have the same path.
\<close>

theorem ipc_reachable_invariant: "reachable k \<Longrightarrow> ipc_inv {} k"
  by (rule reachable_inv)

theorem ipc_reachable_invariant_witness: "ipc_inv {} ex_connected"
  by (rule ipc_reachable_invariant [OF ex_reachable(4)])

lemma no_panic:
  assumes "reachable k"
  shows "ipc_port_create sid path bufs bsize flags k \<noteq> None"
    and "ipc_port_connect_async cid buf max_path cflags k \<noteq> None"
    and "port_held k p \<Longrightarrow> ipc_port_accept (Some (PortH p)) k \<noteq> None"
    and "port_held k p \<Longrightarrow> handle_close ipc_shutdown ipc_destroy (PortH p) k \<noteq> None"
    and "has_handle k c \<Longrightarrow> handle_close ipc_shutdown ipc_destroy (ChanH c) k \<noteq> None"
    and "has_handle k c \<Longrightarrow> send_locked m um (Some (ChanH c)) msg k \<noteq> None"
proof -
  note inv = reachable_inv [OF assms]
  show "ipc_port_create sid path bufs bsize flags k \<noteq> None"
    by (rule ipc_port_create_ok [OF inv, of sid path bufs bsize flags]) simp
  show "ipc_port_connect_async cid buf max_path cflags k \<noteq> None"
    by (rule ipc_port_connect_async_ok [OF inv, of cid buf max_path cflags]) simp
  show "handle_close ipc_shutdown ipc_destroy (ChanH c) k \<noteq> None" if "has_handle k c"
    by (rule chan_close_ok [OF inv that]) simp
  show "send_locked m um (Some (ChanH c)) msg k \<noteq> None" if h: "has_handle k c"
  proof -
    obtain ch where c: "chans k c = Some ch" by (rule chan_of_handle [OF inv h])
    show ?thesis
    proof (cases "ch_state ch = IPC_CHAN_STATE_CONNECTED")
      case True
      obtain d dh mq hn where d: "peer ch = Some d" "chans k d = Some dh" "msg_queue dh = Some mq" "handles k (ChanH d) = Some hn"
        by (rule connected_peer [OF inv c True])
      from inv h c True d show ?thesis by (rule send_ok [where m = m and um = um and msg = msg]) simp
    qed (use send_not_connected [OF inv h c] in simp)
  qed
  show "ipc_port_accept (Some (PortH p)) k \<noteq> None" "handle_close ipc_shutdown ipc_destroy (PortH p) k \<noteq> None" if "port_held k p"
  proof -
    obtain po where p: "ports k p = Some po" using \<open>port_held k p\<close> by (auto simp: port_held_def)
    show "ipc_port_accept (Some (PortH p)) k \<noteq> None" by (rule ipc_port_accept_ok [OF inv p \<open>port_held k p\<close>]) simp
    show "handle_close ipc_shutdown ipc_destroy (PortH p) k \<noteq> None" by (rule port_close_ok [OF inv p \<open>port_held k p\<close>]) simp
  qed
qed

text \<open>
  C2: No assertion fails and no dangling pointer is followed in creating a port, in
  connecting, in accepting on a held port, in closing a held handle and in sending on a
  held channel, whatever the arguments and whatever the allocator does.
\<close>

theorem ipc_no_panic:
  assumes "reachable k"
  shows "ipc_port_create sid path bufs bsize flags k \<noteq> None \<and>
    ipc_port_connect_async cid buf max_path cflags k \<noteq> None \<and>
    (port_held k p \<longrightarrow> ipc_port_accept (Some (PortH p)) k \<noteq> None \<and>
       handle_close ipc_shutdown ipc_destroy (PortH p) k \<noteq> None) \<and>
    (has_handle k c \<longrightarrow> handle_close ipc_shutdown ipc_destroy (ChanH c) k \<noteq> None \<and>
       send_locked m um (Some (ChanH c)) msg k \<noteq> None)"
  using no_panic [OF assms] by simp

theorem ipc_no_panic_witness:
  "ipc_port_create (AppUuid 2) ''x'' 1 4 0 ex_connected \<noteq> None \<and> ipc_port_connect_async ZeroUuid ''srv'' 64 0 ex_connected \<noteq> None \<and>
   ipc_port_accept (Some (PortH 0)) ex_connected \<noteq> None \<and> handle_close ipc_shutdown ipc_destroy (PortH 0) ex_connected \<noteq> None \<and>
   handle_close ipc_shutdown ipc_destroy (ChanH 0) ex_connected \<noteq> None \<and>
   send_locked (\<lambda>_. 0) Map.empty (Some (ChanH 0)) (KernMsg (Some []) 0 0) ex_connected \<noteq> None"
  using ex_connected_facts ipc_no_panic [OF ex_reachable(4), of "AppUuid 2" "''x''" 1 4 0 ZeroUuid "''srv''" 64 0 0 0
    "\<lambda>_. 0" Map.empty "KernMsg (Some []) 0 0"] by blast

text \<open>
  C6: A connection attempt that succeeds leaves the client either connecting to the
  published port with that path, which admits it and is woken, or, when no such port is
  published and the caller asked to wait, at the end of the waiting list; one that fails
  leaves channels, ports and the waiting list as they were.
\<close>

theorem ipc_port_connect_async_outcome:
  assumes "reachable k"
  shows "\<exists>r h k'. ipc_port_connect_async cid buf max_path flags k = Some ((r, h), k') \<and>
    connected_async cid (take (strnlen buf max_path) buf) flags r h k k'"
  by (rule ipc_port_connect_async_ok [OF reachable_inv [OF assms], of cid buf max_path flags]) blast

theorem ipc_port_connect_async_outcome_witness:
  "connected_async ZeroUuid ''srv'' 0 NO_ERROR (Some (ChanH 0)) ex_published ex_connecting"
proof -
  have "take (strnlen ''srv'' 64) ''srv'' = ''srv''" by (simp add: strnlen_def)
  with ipc_port_connect_async_outcome [OF ex_reachable(2), of ZeroUuid "''srv''" 64 0] ex_connect show ?thesis by simp
qed

text \<open>
  C7: With an allocator that does not fail, publishing a port that admits the clients
  waiting for its path succeeds unless the path is taken. The port is listed and listening.
  Each client that waited for its path, in the order of the waiting list, is connecting to a
  new server end of its own; both ends have queues, and the server ends are, in this order, the
  new pending connections of the port, whose waiter is woken if there are any. Exactly these
  clients have left the waiting list.
\<close>

theorem ipc_port_publish_attaches:
  assumes "reachable k" "ports k p = Some po" "port_held k p" "p \<notin> set (ipc_port_list k)" "alloc k = []"
    and "\<forall>c \<in> set (waiting_for_port_chan_list k). admitted k po c"
    and "\<forall>q \<in> set (ipc_port_list k). po_path (the (ports k q)) \<noteq> po_path po"
  shows "\<exists>k' ss. ipc_port_publish (PortH p) k = Some (NO_ERROR, k') \<and> p \<in> set (ipc_port_list k') \<and>
    waiting_for_port_chan_list k' = filter (\<lambda>c. \<not> waits_for k (po_path po) c) (waiting_for_port_chan_list k) \<and>
    ports k' p = Some (po\<lparr>po_state := IPC_PORT_STATE_LISTENING, pending_list := pending_list po @ ss\<rparr>) \<and>
    list_all2 (pending_pair k' p) (filter (waits_for k (po_path po)) (waiting_for_port_chan_list k)) ss \<and>
    (ss \<noteq> [] \<longrightarrow> (\<forall>hn. handles k (PortH p) = Some hn \<longrightarrow> woken hn (events k')))"
proof -
  note inv = reachable_inv [OF assms(1)]
  obtain hn where hn: "handles k (PortH p) = Some hn" using assms(3) by (auto simp: port_held_def)
  from publish_returns [OF inv assms(2-4,6,5)] obtain r k' where res: "ipc_port_publish (PortH p) k = Some (r, k')" by auto
  have "r = NO_ERROR" using publish_code [OF inv assms(2) hn assms(4)] assms(7) res by (auto simp: eq_commute [of "Some (r, k')"])
  note res' = res [unfolded this]
  obtain ss where ss: "ports k' p = Some (po\<lparr>po_state := IPC_PORT_STATE_LISTENING, pending_list := pending_list po @ ss\<rparr>)"
    "list_all2 (pending_pair k' p) (filter (waits_for k (po_path po)) (waiting_for_port_chan_list k)) ss"
    "filter (waits_for k (po_path po)) (waiting_for_port_chan_list k) \<noteq> [] \<longrightarrow> (\<forall>hn. handles k (PortH p) = Some hn \<longrightarrow> woken hn (events k'))"
    using ipc_port_publish_pairs [OF inv assms(2-4) res'] by blast
  moreover have "ss \<noteq> [] \<longrightarrow> filter (waits_for k (po_path po)) (waiting_for_port_chan_list k) \<noteq> []"
    using ss(2) by auto
  ultimately show ?thesis using ipc_port_publish_ok [OF inv assms(2-4) res'] res' by (intro exI [of _ k'] exI [of _ ss]) simp
qed

text \<open>A client of the non-secure side waits for the path, and the port admits it.\<close>

lemma ex_admits:
  "ipc_port_list (ex_port IPC_PORT_ALLOW_NS_CONNECT) = []" "waiting_for_port_chan_list (ex_port IPC_PORT_ALLOW_NS_CONNECT) = [0]"
  "map_option (\<lambda>po. (po_path po, po_flags po, pending_list po)) (ports (ex_port IPC_PORT_ALLOW_NS_CONNECT) 0) = Some (''srv'', IPC_PORT_ALLOW_NS_CONNECT, [])"
  "map_option (\<lambda>ch. (ch_path ch, ch_uuid ch)) (chans (ex_port IPC_PORT_ALLOW_NS_CONNECT) 0) = Some (Some ''srv'', ZeroUuid)"
  "alloc (ex_port IPC_PORT_ALLOW_NS_CONNECT) = []"
  by code_simp+

theorem ipc_port_publish_attaches_witness:
  "\<exists>k' po s. ipc_port_publish (PortH 0) (ex_port IPC_PORT_ALLOW_NS_CONNECT) = Some (NO_ERROR, k') \<and> waiting_for_port_chan_list k' = [] \<and>
     ports k' 0 = Some po \<and> pending_list po = [s] \<and> pending_pair k' 0 0 s"
proof -
  let ?k = "ex_port IPC_PORT_ALLOW_NS_CONNECT"
  obtain po where po: "ports ?k 0 = Some po" "po_path po = ''srv''" "po_flags po = IPC_PORT_ALLOW_NS_CONNECT" "pending_list po = []"
    using ex_admits(3) by auto
  obtain ch where ch: "chans ?k 0 = Some ch" "ch_path ch = Some ''srv''" "ch_uuid ch = ZeroUuid" using ex_admits(4) by auto
  have "admitted ?k po 0" "waits_for ?k (po_path po) 0"
    using po ch by (simp_all add: admitted_def waits_for_def check_access_def is_ns_client_def)
  with ipc_port_publish_attaches [OF ex_refused_reachable(2) po(1) ex_port_ok(2)] ex_admits(1,2,5) po show ?thesis
    by (auto simp: list_all2_Cons1)
qed

text \<open>
  C19: Publishing a port that refuses a client waiting for its path stops the kernel: the
  client was taken off the waiting list before the access check, and the shutdown of its
  channel asserts that it is still on it.
\<close>

theorem ipc_port_publish_refused_panics:
  assumes "reachable k" "ports k p = Some po" "port_held k p" "p \<notin> set (ipc_port_list k)"
    and "\<forall>q \<in> set (ipc_port_list k). po_path (the (ports k q)) \<noteq> po_path po"
    and "c \<in> set (waiting_for_port_chan_list k)" "chans k c = Some ch" "ch_path ch = Some (po_path po)"
    and "check_access po (ch_uuid ch) \<noteq> NO_ERROR"
  shows "ipc_port_publish (PortH p) k = None"
  using assms by (intro publish_refused [OF reachable_inv [OF assms(1)] assms(2-6)]) (simp add: admitted_def)

theorem ipc_port_publish_refused_panics_witness:
  "ipc_port_publish (PortH 0) (ex_port IPC_PORT_ALLOW_TA_CONNECT) = None"
proof -
  let ?k = "ex_port IPC_PORT_ALLOW_TA_CONNECT"
  obtain po where po: "ports ?k 0 = Some po" "po_path po = ''srv''" using ex_port_facts(3) by auto
  obtain ch where ch: "chans ?k 0 = Some ch" "ch_path ch = Some ''srv''" using ex_port_facts(4) by auto
  have "map_option po_flags (ports ?k 0) = Some 1" "map_option ch_uuid (chans ?k 0) = Some ZeroUuid" by code_simp+
  then have "check_access po (ch_uuid ch) \<noteq> NO_ERROR" using po ch by (simp add: check_access_def is_ns_client_def)
  with ipc_port_publish_refused_panics [OF ex_refused_reachable(2) po(1) ex_port_ok(2), of 0 ch] po ch ex_port_facts(1,2)
  show ?thesis by simp
qed

text \<open>
  C4: A message that is accepted by a send is the last of the pending messages of the
  peer, whose waiter is woken; a send that fails leaves the messages pending at the peer
  as they were, and a send that finds the queue full marks the sender as blocked.
\<close>

theorem ipc_send_delivers:
  assumes "reachable k" "has_handle k c" "chans k c = Some ch" "ch_state ch = IPC_CHAN_STATE_CONNECTED"
  shows "\<exists>d dh mq hn r k' dh' mq'. peer ch = Some d \<and> chans k d = Some dh \<and> msg_queue dh = Some mq \<and> handles k (ChanH d) = Some hn \<and>
    send_locked m um (Some (ChanH c)) msg k = Some (r, k') \<and> chans k' d = Some dh' \<and> msg_queue dh' = Some mq' \<and>
    (if 0 \<le> r then (\<exists>x. fst (mq_send (m, um, msg) mq) = Some x \<and> mq_pending mq' = mq_pending mq @ [x]) \<and> woken hn (events k')
     else mq_pending mq' = mq_pending mq) \<and>
    (free_list mq = [] \<longrightarrow> r = ERR_NOT_ENOUGH_BUFFER \<and>
       (\<exists>ch'. chans k' c = Some ch' \<and> aux_state ch' = aux_state ch OR IPC_CHAN_AUX_STATE_SEND_BLOCKED))"
proof -
  note inv = reachable_inv [OF assms(1)]
  obtain d dh mq hn where d: "peer ch = Some d" "c \<noteq> d" "chans k d = Some dh" "msg_queue dh = Some mq" "mq_wf mq" "handles k (ChanH d) = Some hn"
    by (rule connected_peer [OF inv assms(3,4)])
  obtain r mq' e where s: "send_locked m um (Some (ChanH c)) msg k =
      Some (r, k\<lparr>chans := (chans k)(d \<mapsto> dh\<lparr>msg_queue := Some mq'\<rparr>, c \<mapsto> ch\<lparr>aux_state :=
        (if free_list mq = [] then aux_state ch OR IPC_CHAN_AUX_STATE_SEND_BLOCKED else aux_state ch)\<rparr>), events := e\<rparr>)"
    "0 \<le> r \<longrightarrow> woken hn e" "0 \<le> r \<longleftrightarrow> fst (mq_send (m, um, msg) mq) \<noteq> None" "mq' = snd (mq_send (m, um, msg) mq)"
    "free_list mq = [] \<longrightarrow> r = ERR_NOT_ENOUGH_BUFFER"
    by (rule send_ok [OF inv assms(2-4) d(1,3,4,6)])
  have law: "mq_pending mq' = mq_pending mq @ (case fst (mq_send (m, um, msg) mq) of None \<Rightarrow> [] | Some x \<Rightarrow> [x])"
    using mqf.send_law [OF d(5), of "(m, um, msg)"] s(4) by (cases "mq_send (m, um, msg) mq") auto
  show ?thesis
    by (intro exI [of _ d] exI [of _ dh] exI [of _ mq] exI [of _ hn] exI conjI, rule d, rule d, rule d, rule d, rule s(1))
      (use d(2) s(2-5) law in \<open>auto split: option.splits\<close>)
qed

lemma mask_bits:
  "(a :: u32) AND 1 = 0 \<longleftrightarrow> \<not> bit a 0" "a AND 2 = 0 \<longleftrightarrow> \<not> bit a 1" "a AND 16 = 0 \<longleftrightarrow> \<not> bit a 4"
  using and_exp_eq_0_iff_not_bit [of a 0] and_exp_eq_0_iff_not_bit [of a 1] and_exp_eq_0_iff_not_bit [of a 4] by simp_all

lemma ex_connected_chans:
  "chans ex_connected 0 = Some ((ex_client IPC_CHAN_STATE_CONNECTED)\<lparr>aux_state := IPC_CHAN_AUX_STATE_CONNECTED\<rparr>)"
  "chans ex_connected (Suc 0) = Some (ex_server\<lparr>refobj := [PeerRef 0, HandleRef], ch_state := IPC_CHAN_STATE_CONNECTED, ch_node := Unlinked\<rparr>)"
  by (simp_all add: ex_connected_def)

theorem ipc_send_delivers_witness:
  "\<exists>k' dh' mq'. send_locked (\<lambda>_. 7) Map.empty (Some (ChanH 0)) (KernMsg (Some [\<lparr>ik_base = 8, ik_len = 2\<rparr>]) 1 0) ex_connected =
     Some (2, k') \<and> chans k' (Suc 0) = Some dh' \<and> msg_queue dh' = Some mq' \<and> mq_pending mq' = [[7, 7]]"
proof -
  let ?s = "send_locked (\<lambda>_. 7) Map.empty (Some (ChanH 0)) (KernMsg (Some [\<lparr>ik_base = 8, ik_len = 2\<rparr>]) 1 0) ex_connected"
  have r: "map_option fst ?s = Some 2" by code_simp
  have m: "fst (mq_send (\<lambda>_. 7, Map.empty, KernMsg (Some [\<lparr>ik_base = 8, ik_len = 2\<rparr>]) 1 0) ex_queue) = Some [7, 7]"
    by code_simp
  from ipc_send_delivers [OF ex_reachable(4) ex_connected_facts(1) ex_connected_chans(1), of "\<lambda>_. 7" Map.empty
    "KernMsg (Some [\<lparr>ik_base = 8, ik_len = 2\<rparr>]) 1 0"] r m
  show ?thesis by (auto simp: ex_connected_chans(2) ex_client_def ex_server_def ex_queue_def mq_pending_def)
qed

text \<open>
  C8: When one end of a connection is shut down, the other end is disconnecting
  afterwards and its waiter is woken, and its queue is untouched so that pending messages can
  still be read. The end that was shut down has no peer any more, and the other end has lost
  the reference that stood for this peer.
\<close>

theorem chan_shutdown_hangs_up:
  assumes "reachable k" "has_handle k c" "has_handle k d" "chans k c = Some ch" "peer ch = Some d" "chans k d = Some dh"
    and "linking (ch_state ch)"
  shows "\<exists>k' ch' dh'. ipc_shutdown ipc_chan_handle_ops (ChanH c) k = Some k' \<and> chans k' c = Some ch' \<and> chans k' d = Some dh' \<and>
    ch_state ch' = IPC_CHAN_STATE_DISCONNECTING \<and> ch_state dh' = IPC_CHAN_STATE_DISCONNECTING \<and>
    peer ch' = None \<and> PeerRef c \<notin> set (refobj dh') \<and> msg_queue dh' = msg_queue dh \<and>
    (\<forall>hn. handles k (ChanH d) = Some hn \<longrightarrow> woken hn (events k'))"
proof -
  note inv = reachable_inv [OF assms(1)]
  obtain e where e: "chan_shutdown_locked c k = Some ((shut_pair c ch d dh k)\<lparr>events := e\<rparr>)"
    "\<forall>hd. handles k (ChanH d) = Some hd \<longrightarrow> ch_state dh \<in> {IPC_CHAN_STATE_CONNECTED, IPC_CHAN_STATE_CONNECTING} \<longrightarrow> woken hd e"
    by (rule chan_shutdown_locked_peer [OF inv assms(4-6)])
  note f = peer_known [OF inv assms(4-6)]
  have st: "ch_state dh \<in> {IPC_CHAN_STATE_CONNECTED, IPC_CHAN_STATE_CONNECTING}"
    using f(2) assms(7) state_okD(13) [OF chan_state_ok [OF inv assms(4)]] state_okD(13) [OF chan_state_ok [OF inv assms(6)]] assms(2,3)
    by (auto simp: states_match_def linking_def)
  have keep: "remove1 (PeerRef c) (refobj dh) \<noteq> []" using f(7) assms(3) by blast
  have "distinct (refobj dh)" using chan_refs_ok [OF inv assms(6)] by (simp add: refs_ok_def)
  moreover have "ipc_shutdown ipc_chan_handle_ops (ChanH c) k = Some ((shut_pair c ch d dh k)\<lparr>events := e\<rparr>)"
    using e(1) ipc_is_channel_ok [OF inv assms(4,2)] by (simp add: ipc_shutdown_def chan_shutdown_def)
  ultimately show ?thesis using f(1) keep st e(2) by (simp add: shut_pair_def shut_self_def shut_peer_def)
qed

theorem chan_shutdown_hangs_up_witness:
  "\<exists>k' dh'. ipc_shutdown ipc_chan_handle_ops (ChanH 0) ex_connected = Some k' \<and> chans k' (Suc 0) = Some dh' \<and>
     ch_state dh' = IPC_CHAN_STATE_DISCONNECTING"
  using chan_shutdown_hangs_up [OF ex_reachable(4) ex_connected_facts(1,2) ex_connected_chans(1) _ ex_connected_chans(2)]
  by (auto simp: ex_client_def linking_def)

text \<open>
  C9: A sender that found the queue of its peer full is told when there is room again: a
  put by the peer clears the blocked mark, makes the next poll of the sender report that
  it can send, and wakes the sender's waiter.
\<close>

theorem ipc_put_msg_unblocks_sender:
  assumes "reachable k" "has_handle k c" "chans k c = Some ch" "msg_queue ch = Some mq" "unat msg_id \<in> set (read_list mq)"
    and "peer ch = Some d" "chans k d = Some dh" "handles k (ChanH d) = Some hn" "has_handle k d"
    and "aux_state dh AND IPC_CHAN_AUX_STATE_SEND_BLOCKED \<noteq> 0"
  shows "\<exists>k' dh' events'. ipc_put_msg (Some (ChanH c)) msg_id k = Some (NO_ERROR, k') \<and> chans k' d = Some dh' \<and>
    aux_state dh' AND IPC_CHAN_AUX_STATE_SEND_BLOCKED = 0 \<and> ipc_poll ipc_chan_handle_ops (ChanH d) k' = Some events' \<and>
    events' AND IPC_HANDLE_POLL_SEND_UNBLOCKED \<noteq> 0 \<and> woken hn (events k')"
proof -
  note inv = reachable_inv [OF assms(1)]
  obtain e where e: "ipc_put_msg (Some (ChanH c)) msg_id k =
      Some (NO_ERROR, k\<lparr>chans := (chans k)(c \<mapsto> ch\<lparr>msg_queue := Some (put_done (unat msg_id) mq)\<rparr>,
        d \<mapsto> dh\<lparr>aux_state := unblock (aux_state dh)\<rparr>), events := e\<rparr>)"
    "aux_state dh AND IPC_CHAN_AUX_STATE_SEND_BLOCKED \<noteq> 0 \<longrightarrow> woken hn e"
    by (rule put_ok_peer [OF inv assms(2-4,6,5,7,8)])
  let ?dh = "dh\<lparr>aux_state := unblock (aux_state dh)\<rparr>"
  have st: "ch_state dh \<noteq> IPC_CHAN_STATE_INVALID" using state_okD(5) [OF chan_state_ok [OF inv assms(7)]] assms(9) by blast
  have is_chan: "ipc_is_channel (ChanH d) k = Some True" by (rule ipc_is_channel_ok [OF inv assms(7,9)])
  let ?k = "k\<lparr>chans := (chans k)(c \<mapsto> ch\<lparr>msg_queue := Some (put_done (unat msg_id) mq)\<rparr>, d \<mapsto> ?dh), events := e\<rparr>"
  have poll: "ipc_poll ipc_chan_handle_ops (ChanH d) ?k = Some (chan_events ?dh)"
    using is_chan by (simp add: ipc_poll_def chan_poll_def ipc_is_channel_def)
  have ub: "unblock (aux_state dh) = (aux_state dh AND NOT IPC_CHAN_AUX_STATE_SEND_BLOCKED) OR IPC_CHAN_AUX_STATE_SEND_UNBLOCKED"
    using assms(10) by (simp add: unblock_def)
  have "unblock (aux_state dh) AND IPC_CHAN_AUX_STATE_SEND_BLOCKED = 0"
    "unblock (aux_state dh) AND IPC_CHAN_AUX_STATE_SEND_UNBLOCKED \<noteq> 0"
    unfolding ub mask_bits by (simp_all add: bit_simps)
  note bits = this
  have "chan_events ?dh AND IPC_HANDLE_POLL_SEND_UNBLOCKED \<noteq> 0"
    using st bits(2) unfolding mask_bits(3) by (simp add: chan_events_def bit_simps)
  with e assms(10) poll bits(1) show ?thesis by auto
qed

definition ex_send :: "kern \<Rightarrow> (int \<times> kern) option" where
  "ex_send = send_locked (\<lambda>_. 7) Map.empty (Some (ChanH 0)) (KernMsg (Some [\<lparr>ik_base = 8, ik_len = 2\<rparr>]) 1 0)"

definition ex_sent :: kern where "ex_sent = snd (the (ex_send ex_connected))"

definition ex_blocked :: kern where "ex_blocked = snd (the (ex_send ex_sent))"

definition ex_got :: kern where
  "ex_got = snd (the (ipc_get_msg (Some (ChanH (Suc 0))) \<lparr>info_len = 0, info_id = 0\<rparr> ex_blocked))"

lemma ex_got_facts:
  "map_option refcnt (handles ex_got (ChanH (Suc 0))) = Some 1" "map_option refcnt (handles ex_got (ChanH 0)) = Some 1"
  "Option.bind (chans ex_got (Suc 0)) (\<lambda>ch. map_option read_list (msg_queue ch)) = Some [0]"
  "Option.bind (chans ex_got (Suc 0)) peer = Some 0"
  "map_option aux_state (chans ex_got 0) = Some 5"
  "map_option refcnt (handles ex_sent (ChanH 0)) = Some 1" "map_option refcnt (handles ex_blocked (ChanH (Suc 0))) = Some 1"
  "ex_send ex_connected \<noteq> None" "ex_send ex_sent \<noteq> None"
  "ipc_get_msg (Some (ChanH (Suc 0))) \<lparr>info_len = 0, info_id = 0\<rparr> ex_blocked \<noteq> None"
  by code_simp+

lemma ex_got_reachable: "reachable ex_got"
proof -
  have step: "reachable (snd (the (ex_send k)))" if k: "reachable k" "has_handle k 0" "ex_send k \<noteq> None" for k
  proof -
    from k(3) obtain r k' where s: "ex_send k = Some (r, k')" by auto
    have "reachable k'" by (rule reachable.step [OF k(1) ipc_step.send [OF k(2) s [unfolded ex_send_def]]])
    with s show ?thesis by simp
  qed
  have 1: "reachable ex_sent" unfolding ex_sent_def using step [OF ex_reachable(4) ex_connected_facts(1) ex_got_facts(8)] .
  have "has_handle ex_sent 0" using ex_got_facts(6) by (auto simp: has_handle_def)
  then have 2: "reachable ex_blocked" unfolding ex_blocked_def using step [OF 1 _ ex_got_facts(9)] by blast
  from ex_got_facts(10) obtain r i k' where g: "ipc_get_msg (Some (ChanH (Suc 0))) \<lparr>info_len = 0, info_id = 0\<rparr> ex_blocked = Some ((r, i), k')"
    by fastforce
  have "has_handle ex_blocked (Suc 0)" using ex_got_facts(7) by (auto simp: has_handle_def)
  with g show ?thesis unfolding ex_got_def by (auto intro: reachable.step [OF 2 ipc_step.get])
qed

theorem ipc_put_msg_unblocks_sender_witness:
  "\<exists>k' dh' events'. ipc_put_msg (Some (ChanH (Suc 0))) 0 ex_got = Some (NO_ERROR, k') \<and> chans k' 0 = Some dh' \<and>
    aux_state dh' AND IPC_CHAN_AUX_STATE_SEND_BLOCKED = 0 \<and> ipc_poll ipc_chan_handle_ops (ChanH 0) k' = Some events' \<and>
    events' AND IPC_HANDLE_POLL_SEND_UNBLOCKED \<noteq> 0"
proof -
  obtain ch mq where ch: "chans ex_got (Suc 0) = Some ch" "msg_queue ch = Some mq" "read_list mq = [0]" "peer ch = Some 0"
    using ex_got_facts(3,4) by (auto simp: bind_eq_Some_conv)
  obtain dh where dh: "chans ex_got 0 = Some dh" "aux_state dh = 5" using ex_got_facts(5) by auto
  obtain hn where hn: "handles ex_got (ChanH 0) = Some hn" "refcnt hn = 1" using ex_got_facts(2) by auto
  have h: "has_handle ex_got (Suc 0)" "has_handle ex_got 0" using ex_got_facts(1) hn by (auto simp: has_handle_def)
  from ipc_put_msg_unblocks_sender [OF ex_got_reachable h(1) ch(1,2) _ ch(4) dh(1) hn(1) h(2), of 0] ch(3) dh(2)
  show ?thesis by auto
qed

text \<open>
  C5: Accepting on a listening port with a pending connection whose client is still there
  takes the oldest one: server and client are connected peers afterwards, the server end
  has a handle, the caller learns the identity of the client, and the client's next poll
  reports the connection to its waiter.
\<close>

theorem ipc_port_accept_connects:
  assumes "reachable k" "ports k p = Some po" "port_held k p"
    and "ipc_port_accept (Some (PortH p)) k = Some ((NO_ERROR, res), k')"
  shows "\<exists>s c cch ss. pending_list po = s # ss \<and> chans k c = Some cch \<and> res = Some (ChanH s, ch_uuid cch) \<and>
    has_handle k' s \<and> accepted s c k k'"
proof (rule ipc_port_accept_ok [OF reachable_inv [OF assms(1)] assms(2,3)])
  fix r res' k'' assume a: "ipc_port_accept (Some (PortH p)) k = Some ((r, res'), k'')"
    "r = NO_ERROR \<longrightarrow> (\<exists>s c cch. res' = Some (ChanH s, ch_uuid cch) \<and> pending_list po \<noteq> [] \<and> s = hd (pending_list po) \<and>
       chans k c = Some cch \<and> accepted s c k k'' \<and> has_handle k'' s)"
  with assms(4) have "\<exists>s c cch. res = Some (ChanH s, ch_uuid cch) \<and> pending_list po \<noteq> [] \<and> s = hd (pending_list po) \<and>
       chans k c = Some cch \<and> accepted s c k k' \<and> has_handle k' s" by simp
  then show ?thesis by (cases "pending_list po") auto
qed

theorem ipc_port_accept_connects_witness: "\<exists>c. accepted (Suc 0) c ex_connecting ex_connected"
  using ipc_port_accept_connects [OF ex_reachable(3) _ _ ex_accept, of "ex_po\<lparr>po_state := IPC_PORT_STATE_LISTENING, pending_list := [Suc 0]\<rparr>"]
  by (auto simp: ex_connecting_def port_held_def port_refs_def ex_hn_def ex_published_def)

text \<open>
  C20: A client that has no queue yet, because it still waits for its port, brings the
  kernel down when it asks for a message, puts one back or reads one: only the type of
  the handle is checked before the queue is followed. A client with a queue does not.
\<close>

theorem ipc_get_msg_without_queue_faults:
  assumes "reachable k" "has_handle k c" "chans k c = Some ch"
  shows "(ipc_get_msg (Some (ChanH c)) info k = None \<longleftrightarrow> msg_queue ch = None) \<and>
    (msg_queue ch = None \<longrightarrow> ipc_put_msg (Some (ChanH c)) msg_id k = None \<and>
       read_locked m um (Some (ChanH c)) msg_id offset msg k = None)"
proof (cases "msg_queue ch")
  case None
  with no_queue_faults [OF reachable_inv [OF assms(1)] assms(2,3)] show ?thesis by simp
next
  case (Some mq)
  have "ipc_get_msg (Some (ChanH c)) info k \<noteq> None"
    using get_empty [OF reachable_inv [OF assms(1)] assms(2,3) Some] get_ok(1) [OF reachable_inv [OF assms(1)] assms(2,3) Some]
    by (cases "filled_list mq") simp_all
  with Some show ?thesis by simp
qed

theorem ipc_get_msg_without_queue_faults_witness: "ipc_get_msg (Some (ChanH 0)) \<lparr>info_len = 0, info_id = 0\<rparr> ex_wait = None"
proof -
  have "map_option refcnt (handles ex_wait (ChanH 0)) = Some 1" "map_option msg_queue (chans ex_wait 0) = Some None" by code_simp+
  then show ?thesis using ipc_get_msg_without_queue_faults [OF ex_refused_reachable(1), of 0]
    by (auto simp: has_handle_def)
qed

end
