(* ===== verification/Ipc_Wait.thy ===== *)
theory Ipc_Wait
  imports Ipc_System
begin

text \<open>
  Waiting on handle lists. The poll function of the kernel satisfies the interface of
  polling, so a wait on a list returns the first handle that is ready and moves every
  later one closer to the front. The last section is about emptying a list and about a
  poll that returns a value nobody set.
\<close>

section \<open>The kernel's poll function\<close>

lemma kern_more:
  assumes "hstate.more k' = hstate.more (k :: kern)"
  shows "chans k' = chans k" "ports k' = ports k"
  using assms by (cases k; cases k'; simp)+

interpretation ip: pollable ipc_poll
proof
  fix k k' :: kern and tab h
  assume m: "hstate.more k' = hstate.more k" and o: "\<And>x. map_option ops (handles k' x) = map_option ops (handles k x)"
  have "ipc_is_channel h k' = ipc_is_channel h k" "ipc_is_port h k' = ipc_is_port h k"
    using o [of h] by (cases "handles k h"; cases "handles k' h"; simp add: ipc_is_channel_def ipc_is_port_def)+
  then show "ipc_poll tab h k' = ipc_poll tab h k"
    using kern_more [OF m] by (cases tab) (simp_all add: ipc_poll_def chan_poll_def port_poll_def)
qed

lemma finalize_after_poll:
  assumes "poll_handle ipc_poll h k = Some event"
  obtains k' hn where "finalize_handle ipc_finalize h event k = Some k'" "handles k' = handles k" "hlists k' = hlists k"
    "handles k h = Some hn"
proof -
  from assms obtain hn tab where h: "handles k h = Some hn" "ops hn = Some tab" "ipc_poll tab h k = Some event"
    by (auto simp: poll_handle_def bind_eq_Some_conv)
  have "\<exists>k'. ipc_finalize tab h event k = Some k' \<and> handles k' = handles k \<and> hlists k' = hlists k"
  proof (cases tab)
    case ipc_port_handle_ops
    then show ?thesis by (simp add: ipc_finalize_def)
  next
    case ipc_chan_handle_ops
    with h obtain c ch where c: "chan_of h = Some c" "chans k c = Some ch" "ipc_is_channel h k = Some True"
      by (auto simp: ipc_poll_def chan_poll_def bind_eq_Some_conv kassert_def split: if_splits)
    with ipc_chan_handle_ops show ?thesis
      by (simp add: ipc_finalize_def chan_finalize_event_def update_chan_Some [OF c(2)])
  qed
  with h that show ?thesis by (auto simp: finalize_handle_def)
qed

section \<open>Waiting on a list\<close>

lemma handle_list_wait_first:
  assumes l: "hlists k l = Some hl" "hl_wait_event hl = None" "hl_handles hl = xs @ h # ys" and d: "distinct (xs @ h # ys)"
    and idle: "\<And>x. x \<in> set (xs @ [h]) \<Longrightarrow> \<exists>hn. handles k x = Some hn \<and> wait_event hn = None"
    and p0: "\<And>x. x \<in> set xs \<Longrightarrow> poll_handle ipc_poll x k = Some 0"
    and p: "poll_handle ipc_poll h k = Some event" "event \<noteq> 0"
  obtains k' hn where "handle_list_wait ipc_poll ipc_finalize uninit ws l k = Some (Returned k' (NO_ERROR, Some (h, event)))"
    "hlists k' l = Some (hl\<lparr>hl_handles := ys @ xs @ [h]\<rparr>)" "handles k h = Some hn"
    "handles k' = (handles k)(h \<mapsto> hn\<lparr>refcnt := refcnt hn + 1\<rparr>)"
proof -
  let ?ev = "next_event k"
  let ?k1 = "k\<lparr>next_event := Suc ?ev, events := (events k)(?ev := False)\<rparr>"
  let ?hl = "hl\<lparr>hl_wait_event := Some ?ev\<rparr>"
  let ?k2 = "?k1\<lparr>hlists := (hlists k)(l \<mapsto> ?hl)\<rparr>"
  have poll2: "poll_handle ipc_poll x ?k2 = poll_handle ipc_poll x k" for x by (rule ip.poll_handle_frame) simp_all
  have do_poll: "hlist_do_poll_locked ipc_poll l True uninit ?k2 = Some (1, Some (h, event), ?k2)"
    by (rule ip.do_poll_first [where hl = ?hl and ev = ?ev and xs = xs and ys = ys]) (use l d idle p0 p poll2 in simp_all)
  obtain k3 hn where k3: "finalize_handle ipc_finalize h event ?k2 = Some k3" "handles k3 = handles ?k2" "hlists k3 = hlists ?k2"
    "handles ?k2 h = Some hn"
    by (rule finalize_after_poll [of h ?k2 event]) (use p poll2 in simp_all)
  have "h \<notin> set xs" using d by simp
  then have rot: "rotate_after h (xs @ h # ys) = ys @ xs @ [h]" by (rule rotate_after_split)
  let ?k' = "k3\<lparr>handles := (handles k3)(h \<mapsto> hn\<lparr>refcnt := refcnt hn + 1\<rparr>),
      hlists := (hlists k3)(l \<mapsto> hl\<lparr>hl_handles := ys @ xs @ [h], hl_wait_event := None\<rparr>)\<rparr>"
  have "handle_list_wait ipc_poll ipc_finalize uninit ws l k = Some (Returned ?k' (NO_ERROR, Some (h, event)))"
    using l do_poll k3 rot
    by (simp add: handle_list_wait_def event_init_def hlist_found_def)
  then show ?thesis by (rule that) (use k3 l(2) in \<open>cases hl, simp_all\<close>)
qed

text \<open>
  C10: A wait on a handle list with a ready handle returns the first ready one with its
  event and an extra reference, and moves the head of the list behind it, so that every
  handle after it is strictly closer to the front at the next wait: a handle that stays
  ready is not overtaken forever.
\<close>

theorem handle_list_wait_fair:
  assumes "hlists k l = Some hl" "hl_wait_event hl = None" "hl_handles hl = xs @ h # ys" "distinct (xs @ h # ys)"
    and "\<forall>x \<in> set (xs @ [h]). \<exists>hn. handles k x = Some hn \<and> wait_event hn = None"
    and "\<forall>x \<in> set xs. poll_handle ipc_poll x k = Some 0"
    and "poll_handle ipc_poll h k = Some event" "event \<noteq> 0"
  shows "\<exists>k' hn. handle_list_wait ipc_poll ipc_finalize uninit ws l k = Some (Returned k' (NO_ERROR, Some (h, event))) \<and>
    hlists k' l = Some (hl\<lparr>hl_handles := ys @ xs @ [h]\<rparr>) \<and> handles k h = Some hn \<and>
    handles k' = (handles k)(h \<mapsto> hn\<lparr>refcnt := refcnt hn + 1\<rparr>) \<and>
    (\<forall>g \<in> set ys. index_of g (ys @ xs @ [h]) < index_of g (hl_handles hl))"
proof -
  obtain k' hn where "handle_list_wait ipc_poll ipc_finalize uninit ws l k = Some (Returned k' (NO_ERROR, Some (h, event)))"
    "hlists k' l = Some (hl\<lparr>hl_handles := ys @ xs @ [h]\<rparr>)" "handles k h = Some hn"
    "handles k' = (handles k)(h \<mapsto> hn\<lparr>refcnt := refcnt hn + 1\<rparr>)"
    by (rule handle_list_wait_first [OF assms(1-4) _ _ assms(7,8), of uninit ws]) (use assms(5,6) in auto)
  moreover have "\<forall>g \<in> set ys. index_of g (ys @ xs @ [h]) < index_of g (hl_handles hl)"
    using rotate_after_closer [OF assms(4)] rotate_after_split [of h xs ys] assms(3,4) by auto
  ultimately show ?thesis by blast
qed

definition ex_list :: kern where
  "ex_list = ex_connected\<lparr>hlists := [0 \<mapsto> \<lparr>hl_handles = [PortH 0, ChanH 0, ChanH (Suc 0)], hl_wait_event = None\<rparr>]\<rparr>"

theorem handle_list_wait_fair_witness:
  "\<exists>k'. handle_list_wait ipc_poll ipc_finalize 0 [] 0 ex_list = Some (Returned k' (NO_ERROR, Some (ChanH 0, IPC_HANDLE_POLL_READY))) \<and>
     hlists k' 0 = Some \<lparr>hl_handles = [ChanH (Suc 0), PortH 0, ChanH 0], hl_wait_event = None\<rparr>"
proof -
  have p: "poll_handle ipc_poll (PortH 0) ex_list = Some 0" "poll_handle ipc_poll (ChanH 0) ex_list = Some IPC_HANDLE_POLL_READY"
    by code_simp+
  from handle_list_wait_fair [of ex_list 0 "\<lparr>hl_handles = [PortH 0, ChanH 0, ChanH (Suc 0)], hl_wait_event = None\<rparr>"
    "[PortH 0]" "ChanH 0" "[ChanH (Suc 0)]" IPC_HANDLE_POLL_READY 0 "[]"] p
  show ?thesis by (auto simp: ex_list_def ex_defs)
qed

section \<open>Emptying a list\<close>

lemma handle_list_del_head:
  assumes l: "hlists k l = Some hl" "hl_handles hl = h # hs" and hn: "handles k h = Some hn" "hlist_node hn = Some l" "refcnt hn \<noteq> 1"
  obtains e w where "handle_list_del_locked destroy l h k = Some (k\<lparr>hlists := (hlists k)(l \<mapsto> hl\<lparr>hl_handles := hs\<rparr>),
    handles := (handles k)(h \<mapsto> hn\<lparr>hlist_node := None, wait_event := w, refcnt := refcnt hn - 1\<rparr>), events := e\<rparr>)"
proof (cases "hl_wait_event hl")
  case None
  then have "handle_list_del_locked destroy l h k = Some (k\<lparr>hlists := (hlists k)(l \<mapsto> hl\<lparr>hl_handles := hs\<rparr>),
    handles := (handles k)(h \<mapsto> hn\<lparr>hlist_node := None, wait_event := wait_event hn, refcnt := refcnt hn - 1\<rparr>), events := events k\<rparr>)"
    using l hn by (simp add: handle_list_del_locked_def handle_decref_shared)
  then show ?thesis by (rule that)
next
  case (Some ev)
  then have "handle_list_del_locked destroy l h k = Some (k\<lparr>hlists := (hlists k)(l \<mapsto> hl\<lparr>hl_handles := hs\<rparr>),
    handles := (handles k)(h \<mapsto> hn\<lparr>hlist_node := None, wait_event := None, refcnt := refcnt hn - 1\<rparr>),
    events := if hs = [] then (events k)(ev := True) else events k\<rparr>)"
    using l hn by (simp add: handle_list_del_locked_def handle_decref_shared finish_wait_handle_def event_signal_def)
  then show ?thesis by (rule that)
qed

lemma delete_all_loop_ends:
  assumes "hlists k l = Some hl" "distinct (hl_handles hl)"
    and "\<And>h. h \<in> set (hl_handles hl) \<Longrightarrow> \<exists>hn. handles k h = Some hn \<and> hlist_node hn = Some l \<and> refcnt hn \<noteq> 1"
  shows "\<exists>k'. delete_all_loop destroy l (length (hl_handles hl)) k = Some k' \<and> hlists k' l = Some (hl\<lparr>hl_handles := []\<rparr>) \<and>
    hstate.more k' = hstate.more k \<and> (\<forall>h. h \<notin> set (hl_handles hl) \<longrightarrow> handles k' h = handles k h) \<and>
    (\<forall>h hn. h \<in> set (hl_handles hl) \<longrightarrow> handles k h = Some hn \<longrightarrow>
       (\<exists>hn'. handles k' h = Some hn' \<and> hlist_node hn' = None \<and> refcnt hn' = refcnt hn - 1))"
  using assms
proof (induction "hl_handles hl" arbitrary: k hl)
  case Nil
  then show ?case by (cases hl) (auto split: list.splits)
next
  case (Cons h hs)
  note eq = Cons.hyps(2) [symmetric]
  from eq Cons.prems(3) [of h] obtain hn where hn: "handles k h = Some hn" "hlist_node hn = Some l" "refcnt hn \<noteq> 1"
    by auto
  obtain e w where del: "handle_list_del_locked destroy l h k = Some (k\<lparr>hlists := (hlists k)(l \<mapsto> hl\<lparr>hl_handles := hs\<rparr>),
    handles := (handles k)(h \<mapsto> hn\<lparr>hlist_node := None, wait_event := w, refcnt := refcnt hn - 1\<rparr>), events := e\<rparr>)"
    by (rule handle_list_del_head [OF Cons.prems(1) eq hn])
  let ?k = "k\<lparr>hlists := (hlists k)(l \<mapsto> hl\<lparr>hl_handles := hs\<rparr>),
    handles := (handles k)(h \<mapsto> hn\<lparr>hlist_node := None, wait_event := w, refcnt := refcnt hn - 1\<rparr>), events := e\<rparr>"
  have nin: "h \<notin> set hs" "distinct hs" using Cons.prems(2) eq by simp_all
  have "\<exists>gn. handles ?k g = Some gn \<and> hlist_node gn = Some l \<and> refcnt gn \<noteq> 1" if "g \<in> set (hl_handles (hl\<lparr>hl_handles := hs\<rparr>))" for g
    using Cons.prems(3) [of g] that nin(1) eq by (cases "g = h") auto
  from Cons.hyps(1) [of "hl\<lparr>hl_handles := hs\<rparr>" ?k, OF _ _ _ this] nin(2)
  obtain k' where k': "delete_all_loop destroy l (length hs) ?k = Some k'" "hlists k' l = Some (hl\<lparr>hl_handles := []\<rparr>)"
    "hstate.more k' = hstate.more k" "\<forall>g. g \<notin> set hs \<longrightarrow> handles k' g = handles ?k g"
    "\<forall>g gn. g \<in> set hs \<longrightarrow> handles ?k g = Some gn \<longrightarrow> (\<exists>gn'. handles k' g = Some gn' \<and> hlist_node gn' = None \<and> refcnt gn' = refcnt gn - 1)"
    by auto
  have "delete_all_loop destroy l (length (hl_handles hl)) k = Some k'"
    using Cons.prems(1) del k'(1) by (simp add: eq)
  moreover have "handles ?k g = handles k g" if "g \<in> set hs" for g using that nin(1) by auto
  then have "\<forall>g gn. g \<in> set hs \<longrightarrow> handles k g = Some gn \<longrightarrow>
      (\<exists>gn'. handles k' g = Some gn' \<and> hlist_node gn' = None \<and> refcnt gn' = refcnt gn - 1)"
    using k'(5) by metis
  ultimately show ?case using k'(2-4) nin(1) hn(1) by (simp add: eq)
qed

text \<open>
  C17: Deleting all handles of a list ends: when every handle of the list is also held by
  someone else, the list is empty afterwards, and exactly its handles have lost their
  link and one reference.
\<close>

theorem handle_list_delete_all_terminates:
  assumes "hlists k l = Some hl" "distinct (hl_handles hl)"
    and "\<forall>h \<in> set (hl_handles hl). \<exists>hn. handles k h = Some hn \<and> hlist_node hn = Some l \<and> refcnt hn \<noteq> 1"
  shows "\<exists>k'. handle_list_delete_all destroy l k = Some k' \<and> hlists k' l = Some (hl\<lparr>hl_handles := []\<rparr>) \<and>
    (\<forall>h. h \<notin> set (hl_handles hl) \<longrightarrow> handles k' h = handles k h) \<and>
    (\<forall>h hn. h \<in> set (hl_handles hl) \<longrightarrow> handles k h = Some hn \<longrightarrow>
       (\<exists>hn'. handles k' h = Some hn' \<and> hlist_node hn' = None \<and> refcnt hn' = refcnt hn - 1))"
  using delete_all_loop_ends [OF assms(1,2), of destroy] assms by (simp add: handle_list_delete_all_def) blast

theorem handle_list_delete_all_terminates_witness:
  "\<exists>k'. handle_list_delete_all ipc_destroy 0
      ((ex_connected :: kern)\<lparr>hlists := [0 \<mapsto> \<lparr>hl_handles = [PortH 0], hl_wait_event = None\<rparr>],
        handles := [PortH 0 \<mapsto> (ex_hn ipc_port_handle_ops 3)\<lparr>hlist_node := Some 0\<rparr>]\<rparr>) = Some k' \<and>
     hlists k' 0 = Some \<lparr>hl_handles = [], hl_wait_event = None\<rparr>"
  using handle_list_delete_all_terminates [of "(ex_connected :: kern)\<lparr>hlists := [0 \<mapsto> \<lparr>hl_handles = [PortH 0], hl_wait_event = None\<rparr>],
        handles := [PortH 0 \<mapsto> (ex_hn ipc_port_handle_ops 3)\<lparr>hlist_node := Some 0\<rparr>]\<rparr>" 0
        "\<lparr>hl_handles = [PortH 0], hl_wait_event = None\<rparr>" ipc_destroy]
  by (auto simp: ex_hn_def)

section \<open>The result of an idle poll\<close>

lemma idle_poll_loop:
  assumes "\<forall>h \<in> set hs. poll_handle ipc_poll h k = Some 0"
  shows "hlist_poll_loop ipc_poll ev False hs ret lp k = Some (ret, lp, None, k)"
  using assms by (induction hs) simp_all

text \<open>
  C21: After a wait on a list was woken, the handles are polled again without preparing
  them. When none has an event the result is the variable \<open>ret\<close>, which nothing on this
  path assigns: the value is whatever the stack holds, and the caller treats a value other
  than 0 as the outcome of the wait.
\<close>

theorem hlist_do_poll_uninitialised:
  assumes "hlists k l = Some hl" "hl_wait_event hl = Some ev" "hl_handles hl \<noteq> []"
    and "\<forall>h \<in> set (hl_handles hl). poll_handle ipc_poll h k = Some 0"
  shows "hlist_do_poll_locked ipc_poll l False uninit k = Some (uninit, None, k)"
  using assms idle_poll_loop [OF assms(4)] by (simp add: hlist_do_poll_locked_def)

theorem hlist_do_poll_uninitialised_witness:
  "hlist_do_poll_locked ipc_poll 0 False (- 7) (ex_published\<lparr>hlists := [0 \<mapsto> \<lparr>hl_handles = [PortH 0], hl_wait_event = Some 0\<rparr>]\<rparr>) =
     Some (- 7, None, ex_published\<lparr>hlists := [0 \<mapsto> \<lparr>hl_handles = [PortH 0], hl_wait_event = Some 0\<rparr>]\<rparr>)"
  by (rule hlist_do_poll_uninitialised)
    (auto simp: ex_defs poll_handle_def ipc_poll_def port_poll_def ipc_is_port_def port_events_def)

end
