(* ===== verification/Uctx.thy ===== *)
theory Uctx
  imports Bitmap Ipc_Wait
begin

text \<open>
  The user context of an application, \<^verbatim>\<open>lib/trusty/uctx.c\<close>: a table of at most 64
  handles with a bitmap of the slots in use, and a handle list for waiting on all of
  them. The system calls that work on it are here too, with those of \<^verbatim>\<open>ipc.c\<close> and
  \<^verbatim>\<open>ipc_msg.c\<close>; they take the memory of the application and return it updated.
\<close>

section \<open>The handle table\<close>

abbreviation IPC_MAX_HANDLES :: nat where "IPC_MAX_HANDLES \<equiv> 64"
abbreviation INVALID_HANDLE_ID :: u32 where "INVALID_HANDLE_ID \<equiv> 0xFFFFFFFF"
abbreviation IPC_CONNECT_MASK :: u32 where "IPC_CONNECT_MASK \<equiv> 0x3"

record uctx =
  inuse :: bitmap
  uhandles :: "hid option list"
  handle_list_id :: nat

definition check_handle_id :: "uctx \<Rightarrow> u32 \<Rightarrow> int option" where
  "check_handle_id ctx handle_id =
     (if unat handle_id \<ge> IPC_MAX_HANDLES then Some ERR_BAD_HANDLE
      else if \<not> bitmap_test (inuse ctx) (unat handle_id) then Some ERR_NOT_FOUND
      else do {
        kassert (uhandles ctx ! unat handle_id \<noteq> None);
        Some NO_ERROR
      })"

fun handle_to_id_loop :: "hid option list \<Rightarrow> hid \<Rightarrow> nat \<Rightarrow> u32" where
  "handle_to_id_loop [] h i = INVALID_HANDLE_ID"
| "handle_to_id_loop (x # xs) h i = (if x = Some h then of_nat i else handle_to_id_loop xs h (Suc i))"

definition handle_to_id_locked :: "uctx \<Rightarrow> hid \<Rightarrow> u32" where
  "handle_to_id_locked ctx h = handle_to_id_loop (uhandles ctx) h 0"

definition uctx_create :: "nat \<Rightarrow> kern \<Rightarrow> (int \<times> uctx option) \<times> kern" where
  "uctx_create l k =
     (let (ok, al) = next_alloc (alloc k); k = k\<lparr>alloc := al\<rparr> in
      if \<not> ok then ((ERR_NO_MEMORY, None), k)
      else ((NO_ERROR, Some \<lparr>inuse = bitmap_empty IPC_MAX_HANDLES, uhandles = replicate IPC_MAX_HANDLES None,
               handle_list_id = l\<rparr>), handle_list_init l k))"

primrec uctx_destroy_loop :: "nat \<Rightarrow> hid option list \<Rightarrow> kern \<Rightarrow> kern option" where
  "uctx_destroy_loop l [] k = Some k"
| "uctx_destroy_loop l (x # xs) k = (case x of
     None \<Rightarrow> uctx_destroy_loop l xs k
   | Some h \<Rightarrow> do {
       k \<leftarrow> handle_list_del ipc_destroy l h k;
       k \<leftarrow> handle_close ipc_shutdown ipc_destroy h k;
       uctx_destroy_loop l xs k
     })"

definition uctx_destroy :: "uctx \<Rightarrow> kern \<Rightarrow> kern option" where
  "uctx_destroy ctx k = uctx_destroy_loop (handle_list_id ctx) (uhandles ctx) k"

definition uctx_handle_install :: "uctx \<Rightarrow> hid \<Rightarrow> kern \<Rightarrow> ((int \<times> u32 option) \<times> uctx \<times> kern) option" where
  "uctx_handle_install ctx h k =
     (let new_id = bitmap_ffz (inuse ctx) IPC_MAX_HANDLES in
      if new_id < 0 then Some ((ERR_NO_RESOURCES, None), ctx, k)
      else do {
        let i = nat new_id;
        kassert (uhandles ctx ! i = None);
        let ctx = ctx\<lparr>inuse := fst (bitmap_set (inuse ctx) i), uhandles := (uhandles ctx)[i := Some h]\<rparr>;
        k \<leftarrow> handle_list_add ipc_poll (handle_list_id ctx) h k;
        Some ((NO_ERROR, Some (of_nat i)), ctx, k)
      })"

definition uctx_handle_get :: "uctx \<Rightarrow> u32 \<Rightarrow> kern \<Rightarrow> ((int \<times> hid option) \<times> kern) option" where
  "uctx_handle_get ctx handle_id k = do {
     ret \<leftarrow> check_handle_id ctx handle_id;
     (if ret = NO_ERROR then do {
        h \<leftarrow> uhandles ctx ! unat handle_id;
        k \<leftarrow> handle_incref h k;
        Some ((ret, Some h), k)
      } else Some ((ret, None), k))
   }"

definition uctx_handle_remove :: "uctx \<Rightarrow> u32 \<Rightarrow> kern \<Rightarrow> ((int \<times> hid option) \<times> uctx \<times> kern) option" where
  "uctx_handle_remove ctx handle_id k = do {
     ret \<leftarrow> check_handle_id ctx handle_id;
     (if ret = NO_ERROR then do {
        h \<leftarrow> uhandles ctx ! unat handle_id;
        let ctx = ctx\<lparr>inuse := fst (bitmap_clear (inuse ctx) (unat handle_id)), uhandles := (uhandles ctx)[unat handle_id := None]\<rparr>;
        k \<leftarrow> handle_list_del ipc_destroy (handle_list_id ctx) h k;
        Some ((ret, Some h), ctx, k)
      } else Some ((ret, None), ctx, k))
   }"

section \<open>System calls\<close>

definition le32_bytes :: "u32 \<Rightarrow> u8 list" where
  "le32_bytes w = [ucast w, ucast (drop_bit 8 w), ucast (drop_bit 16 w), ucast (drop_bit 24 w)]"

definition uevent_bytes :: "u32 \<Rightarrow> u32 \<Rightarrow> u32 \<Rightarrow> u8 list" where
  "uevent_bytes h event c = le32_bytes h @ le32_bytes event @ le32_bytes c"

text \<open>The waits a blocked call goes through are given as for \<^const>\<open>handle_wait\<close>.\<close>

definition sys_wait ::
  "kern wait_env \<Rightarrow> uctx \<Rightarrow> umem \<Rightarrow> u32 \<Rightarrow> u32 \<Rightarrow> kern \<Rightarrow> (kern, int \<times> umem) waiting option" where
  "sys_wait ws ctx um handle_id user_event k = do {
     ((ret, h_opt), k) \<leftarrow> uctx_handle_get ctx handle_id k;
     (if ret \<noteq> NO_ERROR then Some (Returned k (ret, um))
      else do {
        h \<leftarrow> h_opt;
        w \<leftarrow> handle_wait ipc_poll ipc_finalize ws (Some h) k;
        (case w of
           Blocked k \<Rightarrow> Some (Blocked k)
         | Returned k (ret, event) \<Rightarrow> do {
             (ret, um) \<leftarrow> (if ret < 0 then Some (ret, um)
               else do {
                 event \<leftarrow> event;
                 c \<leftarrow> handle_get_cookie h k;
                 let (status, um) = copy_to_user um user_event (uevent_bytes handle_id event c);
                 Some (if status \<noteq> 0 then status else ret, um)
               });
             k \<leftarrow> handle_decref ipc_destroy h k;
             Some (Returned k (ret, um))
           })
      })
   }"

definition sys_wait_any ::
  "int \<Rightarrow> (int \<times> (kern \<Rightarrow> int \<times> kern)) list \<Rightarrow> uctx \<Rightarrow> umem \<Rightarrow> u32 \<Rightarrow> kern \<Rightarrow> (kern, int \<times> umem) waiting option" where
  "sys_wait_any uninit ws ctx um user_event k = do {
     w \<leftarrow> handle_list_wait ipc_poll ipc_finalize uninit ws (handle_list_id ctx) k;
     (case w of
        Blocked k \<Rightarrow> Some (Blocked k)
      | Returned k (ret, found) \<Rightarrow>
          (if ret < 0 then Some (Returned k (ret, um))
           else do {
             (h, event) \<leftarrow> found;
             let handle = handle_to_id_locked ctx h;
             c \<leftarrow> handle_get_cookie h k;
             k \<leftarrow> handle_decref ipc_destroy h k;
             kassert (unat handle < IPC_MAX_HANDLES);
             let (status, um) = copy_to_user um user_event (uevent_bytes handle event c);
             Some (Returned k (if status \<noteq> 0 then status else ret, um))
           }))
   }"

definition sys_close :: "uctx \<Rightarrow> u32 \<Rightarrow> kern \<Rightarrow> (int \<times> uctx \<times> kern) option" where
  "sys_close ctx handle_id k = do {
     ((ret, h_opt), ctx, k) \<leftarrow> uctx_handle_remove ctx handle_id k;
     (if ret \<noteq> NO_ERROR then Some (ret, ctx, k)
      else do {
        h \<leftarrow> h_opt;
        k \<leftarrow> handle_close ipc_shutdown ipc_destroy h k;
        Some (NO_ERROR, ctx, k)
      })
   }"

definition sys_set_cookie :: "uctx \<Rightarrow> u32 \<Rightarrow> u32 \<Rightarrow> kern \<Rightarrow> (int \<times> kern) option" where
  "sys_set_cookie ctx handle_id c k = do {
     ((ret, h_opt), k) \<leftarrow> uctx_handle_get ctx handle_id k;
     (if ret \<noteq> NO_ERROR then Some (ret, k)
      else do {
        h \<leftarrow> h_opt;
        k \<leftarrow> handle_set_cookie h c k;
        k \<leftarrow> handle_decref ipc_destroy h k;
        Some (NO_ERROR, k)
      })
   }"

subsection \<open>Strings from user space\<close>

text \<open>
  \<^verbatim>\<open>arch_strlcpy_from_user\<close> of \<^verbatim>\<open>usercopy.S\<close>: copies up to and including the NUL, cuts at
  the size of the destination, where the last byte is a NUL, and returns the length of
  the string in user memory. A byte that is not mapped ends it with \<^verbatim>\<open>ERR_FAULT\<close> and
  zeros in the rest of the destination. The loop has no other end: on a memory that is
  mapped everywhere and has no zero byte it does not return.
\<close>

partial_function (option) strlcpy_loop :: "umem \<Rightarrow> u32 \<Rightarrow> u32 \<Rightarrow> nat \<Rightarrow> u8 list \<Rightarrow> (int \<times> u8 list) option" where
  "strlcpy_loop um start a len acc = (case um a of
     None \<Rightarrow> Some (ERR_FAULT, acc @ replicate len 0)
   | Some b \<Rightarrow>
       let acc' = (if len = 0 then acc else if len = 1 then acc @ [0] else acc @ [b]) in
       if b = 0 then Some (sint (a - start), acc')
       else strlcpy_loop um start (a + 1) (len - 1) acc')"

declare strlcpy_loop.simps [code]

definition strncpy_from_user :: "umem \<Rightarrow> u32 \<Rightarrow> nat \<Rightarrow> (int \<times> u8 list) option" where
  "strncpy_from_user um usrc len = strlcpy_loop um usrc usrc len []"

definition chars_of :: "u8 list \<Rightarrow> string" where
  "chars_of bs = map (char_of \<circ> unat) bs"

definition c_string :: "u8 list \<Rightarrow> string" where
  "c_string bs = takeWhile (\<lambda>x. x \<noteq> CHR 0x00) (chars_of bs)"

subsection \<open>Ports and channels\<close>

definition sys_port_create ::
  "uuid_ptr \<Rightarrow> uctx \<Rightarrow> umem \<Rightarrow> u32 \<Rightarrow> nat \<Rightarrow> nat \<Rightarrow> u32 \<Rightarrow> kern \<Rightarrow> (int \<times> uctx \<times> kern) option" where
  "sys_port_create uuid ctx um path bufs bsize flags k = do {
     (ret, tmp_path) \<leftarrow> strncpy_from_user um path IPC_PORT_PATH_MAX;
     (if ret < 0 then Some (ret, ctx, k)
      else if ret \<ge> int IPC_PORT_PATH_MAX then Some (ERR_INVALID_ARGS, ctx, k)
      else do {
        ((ret, port_handle), k) \<leftarrow> ipc_port_create uuid (c_string tmp_path) bufs bsize flags k;
        (if ret \<noteq> NO_ERROR then Some (ret, ctx, k)
         else do {
           h \<leftarrow> port_handle;
           ((ret, id_opt), ctx, k) \<leftarrow> uctx_handle_install ctx h k;
           (if ret \<noteq> NO_ERROR then do {
              k \<leftarrow> handle_decref ipc_destroy h k;
              Some (ret, ctx, k)
            } else do {
              handle_id \<leftarrow> id_opt;
              (ret, k) \<leftarrow> ipc_port_publish h k;
              (if ret \<noteq> NO_ERROR then do {
                 ((_, h_opt), ctx, k) \<leftarrow> uctx_handle_remove ctx handle_id k;
                 h \<leftarrow> h_opt;
                 k \<leftarrow> handle_decref ipc_destroy h k;
                 Some (ret, ctx, k)
               } else Some (int (unat handle_id), ctx, k))
            })
         })
      })
   }"

text \<open>What a connect does once it has a channel: wait for it, and install it.\<close>

definition connect_finish :: "uctx \<Rightarrow> hid \<Rightarrow> kern \<Rightarrow> (int \<times> uctx \<times> kern) option" where
  "connect_finish ctx h k = do {
     ((ret, id_opt), ctx, k) \<leftarrow> uctx_handle_install ctx h k;
     (if ret \<noteq> NO_ERROR then do {
        k \<leftarrow> handle_close ipc_shutdown ipc_destroy h k;
        Some (ret, ctx, k)
      } else do { handle_id \<leftarrow> id_opt; Some (int (unat handle_id), ctx, k) })
   }"

definition connect_waited :: "uctx \<Rightarrow> hid \<Rightarrow> int \<Rightarrow> u32 option \<Rightarrow> kern \<Rightarrow> (int \<times> uctx \<times> kern) option" where
  "connect_waited ctx h ret event k =
     (if ret < 0 then do {
        k \<leftarrow> handle_close ipc_shutdown ipc_destroy h k;
        Some (ret, ctx, k)
      } else do {
        event \<leftarrow> event;
        (if event AND IPC_HANDLE_POLL_HUP \<noteq> 0 \<and> event AND IPC_HANDLE_POLL_MSG = 0 then do {
           k \<leftarrow> handle_close ipc_shutdown ipc_destroy h k;
           Some (ERR_CHANNEL_CLOSED, ctx, k)
         } else if event AND IPC_HANDLE_POLL_READY = 0 then do {
           k \<leftarrow> handle_close ipc_shutdown ipc_destroy h k;
           Some (ERR_NOT_READY, ctx, k)
         } else connect_finish ctx h k)
      })"

definition sys_connect ::
  "kern wait_env \<Rightarrow> kern wait_env \<Rightarrow> uuid_ptr \<Rightarrow> uctx \<Rightarrow> umem \<Rightarrow> u32 \<Rightarrow> u32 \<Rightarrow> kern \<Rightarrow> (kern, int \<times> uctx) waiting option" where
  "sys_connect ws ws2 uuid ctx um path flags k =
     (if flags AND NOT IPC_CONNECT_MASK \<noteq> 0 then Some (Returned k (ERR_INVALID_ARGS, ctx))
      else do {
        (ret, tmp_path) \<leftarrow> strncpy_from_user um path IPC_PORT_PATH_MAX;
        (if ret < 0 then Some (Returned k (ret, ctx))
         else if ret \<ge> int IPC_PORT_PATH_MAX then Some (Returned k (ERR_INVALID_ARGS, ctx))
         else do {
           ((ret, h_opt), k) \<leftarrow> ipc_port_connect_async uuid (chars_of tmp_path) IPC_PORT_PATH_MAX flags k;
           (if ret \<noteq> NO_ERROR then Some (Returned k (ret, ctx))
            else do {
              h \<leftarrow> h_opt;
              (if flags AND IPC_CONNECT_ASYNC = 0 then do {
                 w \<leftarrow> handle_wait ipc_poll ipc_finalize ws (Some h) k;
                 (case w of
                    Blocked k \<Rightarrow> Some (Blocked k)
                  | Returned k (ret, event) \<Rightarrow> do {
                      w \<leftarrow> (if ret = ERR_TIMED_OUT then handle_wait ipc_poll ipc_finalize ws2 (Some h) k
                            else Some (Returned k (ret, event)));
                      (case w of
                         Blocked k \<Rightarrow> Some (Blocked k)
                       | Returned k (ret, event) \<Rightarrow> do {
                           (ret, ctx, k) \<leftarrow> connect_waited ctx h ret event k;
                           Some (Returned k (ret, ctx))
                         })
                    })
               } else do {
                 (ret, ctx, k) \<leftarrow> connect_finish ctx h k;
                 Some (Returned k (ret, ctx))
               })
            })
         })
      })"

text \<open>The bytes of an identity are a parameter: the pointer is followed only to copy them out.\<close>

definition sys_accept ::
  "(uuid_ptr \<Rightarrow> u8 list) \<Rightarrow> uctx \<Rightarrow> umem \<Rightarrow> u32 \<Rightarrow> u32 \<Rightarrow> kern \<Rightarrow> (int \<times> uctx \<times> umem \<times> kern) option" where
  "sys_accept uuid_bytes ctx um handle_id user_uuid k = do {
     ((ret, ph_opt), k) \<leftarrow> uctx_handle_get ctx handle_id k;
     (if ret \<noteq> NO_ERROR then Some (ret, ctx, um, k)
      else do {
        phandle \<leftarrow> ph_opt;
        ((ret, res), k) \<leftarrow> ipc_port_accept (Some phandle) k;
        (if ret \<noteq> NO_ERROR then do {
           k \<leftarrow> handle_decref ipc_destroy phandle k;
           Some (ret, ctx, um, k)
         } else do {
           (chandle, peer_uuid) \<leftarrow> res;
           ((ret, id_opt), ctx, k) \<leftarrow> uctx_handle_install ctx chandle k;
           (if ret \<noteq> NO_ERROR then do {
              k \<leftarrow> handle_close ipc_shutdown ipc_destroy chandle k;
              k \<leftarrow> handle_decref ipc_destroy phandle k;
              Some (ret, ctx, um, k)
            } else do {
              new_id \<leftarrow> id_opt;
              let (ret, um) = copy_to_user um user_uuid (uuid_bytes peer_uuid);
              (if ret \<noteq> NO_ERROR then do {
                 ((_, h_opt), ctx, k) \<leftarrow> uctx_handle_remove ctx new_id k;
                 chandle \<leftarrow> h_opt;
                 k \<leftarrow> handle_close ipc_shutdown ipc_destroy chandle k;
                 k \<leftarrow> handle_decref ipc_destroy phandle k;
                 Some (ret, ctx, um, k)
               } else do {
                 k \<leftarrow> handle_decref ipc_destroy phandle k;
                 Some (int (unat new_id), ctx, um, k)
               })
            })
         })
      })
   }"

subsection \<open>Messages\<close>

definition decode_msg_user :: "u8 list \<Rightarrow> msg_desc" where
  "decode_msg_user bs = UserMsg (le32 (take 4 (drop 4 bs))) (unat (le32 (take 4 bs))) (unat (le32 (take 4 (drop 8 bs))))"

definition sys_send_msg :: "uctx \<Rightarrow> umem \<Rightarrow> u32 \<Rightarrow> u32 \<Rightarrow> kern \<Rightarrow> (int \<times> kern) option" where
  "sys_send_msg ctx um handle_id user_msg k =
     (let (ret, raw) = copy_from_user um user_msg 16 in
      if ret \<noteq> NO_ERROR then Some (ret, k)
      else do {
        ((ret, h_opt), k) \<leftarrow> uctx_handle_get ctx handle_id k;
        (if ret \<noteq> NO_ERROR then Some (ret, k)
         else do {
           (ret, k) \<leftarrow> send_locked (\<lambda>_. 0) um h_opt (decode_msg_user raw) k;
           h \<leftarrow> h_opt;
           k \<leftarrow> handle_decref ipc_destroy h k;
           Some (ret, k)
         })
      })"

text \<open>The information is copied out before the message is taken off the queue.\<close>

definition get_msg_locked :: "umem \<Rightarrow> hid option \<Rightarrow> u32 \<Rightarrow> kern \<Rightarrow> (int \<times> umem \<times> kern) option" where
  "get_msg_locked um chandle user_msg_info k = do {
     ret \<leftarrow> check_channel_locked chandle k;
     (if ret \<noteq> NO_ERROR then Some (ret, um, k)
      else do {
        c \<leftarrow> containerof_chan chandle;
        ch \<leftarrow> chans k c;
        mq \<leftarrow> msg_queue ch;
        let (ret, info) = msg_peek_next_filled_locked mq \<lparr>info_len = 0, info_id = 0\<rparr>;
        (if ret \<noteq> NO_ERROR then Some (ret, um, k)
         else let (ret, um) = copy_to_user um user_msg_info (le32_bytes (info_len info) @ le32_bytes (info_id info)) in
           if ret \<noteq> NO_ERROR then Some (ret, um, k)
           else do {
             mq \<leftarrow> msg_get_filled_locked mq;
             k \<leftarrow> update_chan c (\<lambda>ch. ch\<lparr>msg_queue := Some mq\<rparr>) k;
             Some (ret, um, k)
           })
      })
   }"

definition sys_get_msg :: "uctx \<Rightarrow> umem \<Rightarrow> u32 \<Rightarrow> u32 \<Rightarrow> kern \<Rightarrow> (int \<times> umem \<times> kern) option" where
  "sys_get_msg ctx um handle_id user_msg_info k = do {
     ((ret, h_opt), k) \<leftarrow> uctx_handle_get ctx handle_id k;
     (if ret \<noteq> NO_ERROR then Some (ret, um, k)
      else do {
        (ret, um, k) \<leftarrow> get_msg_locked um h_opt user_msg_info k;
        h \<leftarrow> h_opt;
        k \<leftarrow> handle_decref ipc_destroy h k;
        Some (ret, um, k)
      })
   }"

definition sys_put_msg :: "uctx \<Rightarrow> u32 \<Rightarrow> u32 \<Rightarrow> kern \<Rightarrow> (int \<times> kern) option" where
  "sys_put_msg ctx handle_id msg_id k = do {
     ((ret, h_opt), k) \<leftarrow> uctx_handle_get ctx handle_id k;
     (if ret \<noteq> NO_ERROR then Some (ret, k)
      else do {
        (ret, k) \<leftarrow> ipc_put_msg h_opt msg_id k;
        h \<leftarrow> h_opt;
        k \<leftarrow> handle_decref ipc_destroy h k;
        Some (ret, k)
      })
   }"

definition sys_read_msg :: "uctx \<Rightarrow> umem \<Rightarrow> u32 \<Rightarrow> u32 \<Rightarrow> u32 \<Rightarrow> u32 \<Rightarrow> kern \<Rightarrow> (int \<times> umem \<times> kern) option" where
  "sys_read_msg ctx um handle_id msg_id offset user_msg k =
     (let (ret, raw) = copy_from_user um user_msg 16 in
      if ret \<noteq> NO_ERROR then Some (ret, um, k)
      else do {
        ((ret, h_opt), k) \<leftarrow> uctx_handle_get ctx handle_id k;
        (if ret \<noteq> NO_ERROR then Some (ret, um, k)
         else do {
           (ret, _, um) \<leftarrow> read_locked (\<lambda>_. 0) um h_opt msg_id offset (decode_msg_user raw) k;
           h \<leftarrow> h_opt;
           k \<leftarrow> handle_decref ipc_destroy h k;
           Some (ret, um, k)
         })
      })"

section \<open>The table\<close>

definition uctx_wf :: "uctx \<Rightarrow> bool" where
  "uctx_wf ctx \<longleftrightarrow> bitmap_wf IPC_MAX_HANDLES (inuse ctx) \<and> length (uhandles ctx) = IPC_MAX_HANDLES \<and>
     (\<forall>i < IPC_MAX_HANDLES. bitmap_test (inuse ctx) i \<longleftrightarrow> uhandles ctx ! i \<noteq> None)"

lemma uctx_wfD:
  assumes "uctx_wf ctx"
  shows "bitmap_wf IPC_MAX_HANDLES (inuse ctx)" "length (uhandles ctx) = IPC_MAX_HANDLES"
    "i < IPC_MAX_HANDLES \<Longrightarrow> bitmap_test (inuse ctx) i = (uhandles ctx ! i \<noteq> None)"
  using assms by (simp_all add: uctx_wf_def)

lemma uctx_create_wf:
  assumes "uctx_create l k = ((r, Some ctx), k')"
  shows "r = NO_ERROR \<and> uctx_wf ctx \<and> (\<forall>i < IPC_MAX_HANDLES. uhandles ctx ! i = None) \<and>
    hlists k' l = Some \<lparr>hl_handles = [], hl_wait_event = None\<rparr>"
  using assms by (auto simp: uctx_create_def uctx_wf_def handle_list_init_def Let_def split: prod.splits if_splits)

lemma check_handle_id_eq:
  assumes "uctx_wf ctx"
  shows "check_handle_id ctx hi = Some (if unat hi \<ge> IPC_MAX_HANDLES then ERR_BAD_HANDLE
    else if uhandles ctx ! unat hi = None then ERR_NOT_FOUND else NO_ERROR)"
  using uctx_wfD(3) [OF assms, of "unat hi"] by (simp add: check_handle_id_def)

lemma install_cases:
  assumes wf: "uctx_wf ctx"
  obtains (full) "uctx_handle_install ctx h k = Some ((ERR_NO_RESOURCES, None), ctx, k)"
      "\<forall>i < IPC_MAX_HANDLES. uhandles ctx ! i \<noteq> None"
  | (free) i ctx' where "i < IPC_MAX_HANDLES" "uhandles ctx ! i = None" "\<forall>j < i. uhandles ctx ! j \<noteq> None" "uctx_wf ctx'"
      "uhandles ctx' = (uhandles ctx)[i := Some h]" "handle_list_id ctx' = handle_list_id ctx"
      "uctx_handle_install ctx h k = map_option (\<lambda>k. ((NO_ERROR, Some (of_nat i)), ctx', k)) (handle_list_add ipc_poll (handle_list_id ctx) h k)"
proof -
  from uctx_wfD(1) [OF wf] show ?thesis
  proof (cases rule: bm.first_free_cases)
    case full': full
    then show ?thesis by (intro full) (simp_all add: uctx_handle_install_def uctx_wfD(3) [OF wf])
  next
    case free': (free i)
    let ?ctx = "ctx\<lparr>inuse := fst (bitmap_set (inuse ctx) i), uhandles := (uhandles ctx)[i := Some h]\<rparr>"
    have none: "uhandles ctx ! i = None" "\<forall>j < i. uhandles ctx ! j \<noteq> None"
      using free' uctx_wfD(3) [OF wf] by auto
    have "uctx_wf ?ctx"
      using wf free'(2) bm.test_set [OF uctx_wfD(1) [OF wf] free'(2)] by (auto simp: uctx_wf_def nth_list_update)
    moreover have "uctx_handle_install ctx h k = map_option (\<lambda>k. ((NO_ERROR, Some (of_nat i)), ?ctx, k)) (handle_list_add ipc_poll (handle_list_id ctx) h k)"
      using free'(1) none(1) by (simp add: uctx_handle_install_def map_conv_bind_option comp_def)
    ultimately show ?thesis using free'(2) none by (intro free [of i ?ctx]) simp_all
  qed
qed

lemma remove_eq:
  assumes wf: "uctx_wf ctx" and i: "unat hi < IPC_MAX_HANDLES" "uhandles ctx ! unat hi = Some h"
  defines "ctx' \<equiv> ctx\<lparr>inuse := fst (bitmap_clear (inuse ctx) (unat hi)), uhandles := (uhandles ctx)[unat hi := None]\<rparr>"
  shows "uctx_handle_remove ctx hi k =
      map_option (\<lambda>k. ((NO_ERROR, Some h), ctx', k)) (handle_list_del ipc_destroy (handle_list_id ctx) h k)" "uctx_wf ctx'"
proof -
  show "uctx_handle_remove ctx hi k =
      map_option (\<lambda>k. ((NO_ERROR, Some h), ctx', k)) (handle_list_del ipc_destroy (handle_list_id ctx) h k)"
    using check_handle_id_eq [OF wf, of hi] i by (simp add: uctx_handle_remove_def map_conv_bind_option comp_def ctx'_def)
  show "uctx_wf ctx'" using wf i bm.test_clear [OF uctx_wfD(1) [OF wf] i(1)] by (auto simp: uctx_wf_def nth_list_update ctx'_def)
qed

lemma unat_slot: "i < IPC_MAX_HANDLES \<Longrightarrow> unat (of_nat i :: u32) = i"
  by (simp add: unat_of_nat take_bit_nat_eq_self)

text \<open>
  C11: Installing a handle gives it the lowest free id, and from then on that id names it:
  the lookup returns the handle with one more reference, no other id changes its meaning,
  and the table stays well formed. Only a table with all 64 slots taken refuses.
\<close>

theorem uctx_install_then_get:
  assumes "uctx_wf ctx" "handle_list_add ipc_poll (handle_list_id ctx) h k = Some k'" "handles k' h = Some hn"
  shows "if \<forall>i < IPC_MAX_HANDLES. uhandles ctx ! i \<noteq> None
    then uctx_handle_install ctx h k = Some ((ERR_NO_RESOURCES, None), ctx, k)
    else \<exists>i ctx'. uctx_handle_install ctx h k = Some ((NO_ERROR, Some (of_nat i)), ctx', k') \<and> uctx_wf ctx' \<and>
      i < IPC_MAX_HANDLES \<and> uhandles ctx ! i = None \<and> (\<forall>j < i. uhandles ctx ! j \<noteq> None) \<and>
      uctx_handle_get ctx' (of_nat i) k' = Some ((NO_ERROR, Some h), k'\<lparr>handles := (handles k')(h \<mapsto> hn\<lparr>refcnt := refcnt hn + 1\<rparr>)\<rparr>) \<and>
      (\<forall>j < IPC_MAX_HANDLES. j \<noteq> i \<longrightarrow> uhandles ctx' ! j = uhandles ctx ! j)"
  using assms(1)
proof (cases rule: install_cases [where h = h and k = k])
  case full
  then show ?thesis by simp
next
  case (free i ctx')
  have "uctx_handle_get ctx' (of_nat i) k' = Some ((NO_ERROR, Some h), k'\<lparr>handles := (handles k')(h \<mapsto> hn\<lparr>refcnt := refcnt hn + 1\<rparr>)\<rparr>)"
    using check_handle_id_eq [OF free(4), of "of_nat i"] free(1,5) assms(3) uctx_wfD(2) [OF assms(1)]
    by (simp add: uctx_handle_get_def unat_slot)
  then have "\<exists>i ctx'. uctx_handle_install ctx h k = Some ((NO_ERROR, Some (of_nat i)), ctx', k') \<and> uctx_wf ctx' \<and>
      i < IPC_MAX_HANDLES \<and> uhandles ctx ! i = None \<and> (\<forall>j < i. uhandles ctx ! j \<noteq> None) \<and>
      uctx_handle_get ctx' (of_nat i) k' = Some ((NO_ERROR, Some h), k'\<lparr>handles := (handles k')(h \<mapsto> hn\<lparr>refcnt := refcnt hn + 1\<rparr>)\<rparr>) \<and>
      (\<forall>j < IPC_MAX_HANDLES. j \<noteq> i \<longrightarrow> uhandles ctx' ! j = uhandles ctx ! j)"
    using free assms(2) by (intro exI [of _ i] exI [of _ ctx']) (simp add: nth_list_update)
  moreover have "\<not> (\<forall>i < IPC_MAX_HANDLES. uhandles ctx ! i \<noteq> None)" using free(1,2) by blast
  ultimately show ?thesis by (simp only: if_False)
qed

definition ex_ctx :: uctx where
  "ex_ctx = \<lparr>inuse = bitmap_empty IPC_MAX_HANDLES, uhandles = replicate IPC_MAX_HANDLES None, handle_list_id = 0\<rparr>"

lemma ex_ctx_wf: "uctx_wf ex_ctx"
  by (simp add: uctx_wf_def ex_ctx_def)

definition ex_uk :: kern where
  "ex_uk = ex_connected\<lparr>hlists := [0 \<mapsto> \<lparr>hl_handles = [], hl_wait_event = None\<rparr>]\<rparr>"

theorem uctx_install_then_get_witness:
  "\<exists>i ctx' k'. uctx_handle_install ex_ctx (ChanH 0) ex_uk = Some ((NO_ERROR, Some (of_nat i)), ctx', k') \<and>
     i < IPC_MAX_HANDLES \<and> (\<exists>k''. uctx_handle_get ctx' (of_nat i) k' = Some ((NO_ERROR, Some (ChanH 0)), k''))"
proof -
  have n: "\<not> (\<forall>i < IPC_MAX_HANDLES. uhandles ex_ctx ! i \<noteq> None)" by (auto simp: ex_ctx_def intro!: exI [of _ 0])
  have "\<exists>k' hn. handle_list_add ipc_poll (handle_list_id ex_ctx) (ChanH 0) ex_uk = Some k' \<and> handles k' (ChanH 0) = Some hn"
    by (simp add: ex_ctx_def ex_uk_def handle_list_add_def ex_defs)
  then obtain k' hn where "handle_list_add ipc_poll (handle_list_id ex_ctx) (ChanH 0) ex_uk = Some k'" "handles k' (ChanH 0) = Some hn" by blast
  from uctx_install_then_get [OF ex_ctx_wf this, unfolded if_not_P [OF n]] show ?thesis by blast
qed

section \<open>Closing\<close>

text \<open>What it takes for an entry of the table to be closed: the list and the table each hold a reference.\<close>

definition entry_ok :: "kern \<Rightarrow> nat \<Rightarrow> hid \<Rightarrow> bool" where
  "entry_ok k l h \<longleftrightarrow> (\<exists>hl hn. hlists k l = Some hl \<and> hl_wait_event hl = None \<and> handles k h = Some hn \<and> hlist_node hn = Some l \<and>
     (case h of ChanH c \<Rightarrow> 2 \<le> refcnt hn
      | PortH p \<Rightarrow> (\<exists>po. ports k p = Some po \<and> port_refs k p po + 2 \<le> refcnt hn)))"

lemma ipc_inv_hlists [simp]: "ipc_inv T (k\<lparr>hlists := x\<rparr>) = ipc_inv T k"
proof -
  have "chans_inv T (k\<lparr>hlists := x\<rparr>) = chans_inv T k" by (rule chans_inv_cong) simp_all
  moreover have "ports_inv (k\<lparr>hlists := x\<rparr>) = ports_inv k" by (rule ports_inv_cong) simp_all
  ultimately show ?thesis by (simp add: ipc_inv_def heap_inv_def lists_inv_def on_list_def)
qed

lemma list_del_entry:
  assumes inv: "ipc_inv {} k" and e: "entry_ok k l h"
  obtains k' where "handle_list_del ipc_destroy l h k = Some k'" "ipc_inv {} k'"
    "case h of ChanH c \<Rightarrow> has_handle k' c | PortH p \<Rightarrow> port_held k' p"
    "\<forall>hn. handles k h = Some hn \<longrightarrow> handles k' h = Some (hn\<lparr>hlist_node := None, refcnt := refcnt hn - 1\<rparr>)"
    "\<forall>p. h = PortH p \<longrightarrow> spare k' p = spare k p - 1"
proof -
  from e obtain hl hn where k: "hlists k l = Some hl" "hl_wait_event hl = None" "handles k h = Some hn" "hlist_node hn = Some l"
    and r: "case h of ChanH c \<Rightarrow> 2 \<le> refcnt hn | PortH p \<Rightarrow> (\<exists>po. ports k p = Some po \<and> port_refs k p po + 2 \<le> refcnt hn)"
    by (auto simp: entry_ok_def)
  have nn: "0 \<le> port_refs k p po" for p po by (simp add: port_refs_def)
  have r1: "refcnt hn \<noteq> 1" using r nn by (cases h) (auto, smt (verit))
  let ?hn = "hn\<lparr>hlist_node := None, refcnt := refcnt hn - 1\<rparr>"
  let ?kh = "k\<lparr>handles := (handles k)(h \<mapsto> ?hn)\<rparr>"
  let ?k = "?kh\<lparr>hlists := (hlists k)(l \<mapsto> hl\<lparr>hl_handles := remove1 h (hl_handles hl)\<rparr>)\<rparr>"
  have del: "handle_list_del ipc_destroy l h k = Some ?k"
    using k r1 by (simp add: handle_list_del_def handle_list_del_locked_def handle_decref_shared)
  have "ipc_inv {} ?kh"
  proof (cases h)
    case (ChanH c)
    with r k show ?thesis by (simp add: ipc_inv_chan_handle [OF inv])
  next
    case (PortH p)
    with r k nn show ?thesis by (auto intro!: ipc_inv_port_handle [OF inv]) (smt (verit))
  qed
  then have "ipc_inv {} ?k" by simp
  then show ?thesis using r
    by (intro that [OF del]) (use k in \<open>auto simp: has_handle_def port_held_def port_refs_def spare_def split: hid.splits\<close>)
qed

text \<open>
  What is left of a handle when \<open>n\<close> references to it have been dropped and it has been shut down.
  A channel is disconnecting and has no peer, a port is not listed and has no pending
  connections; the listing of a port and its pending connections have given up their references
  as well. With its last reference the handle is destroyed.
\<close>

definition released :: "int \<Rightarrow> kern \<Rightarrow> hid \<Rightarrow> kern \<Rightarrow> bool" where
  "released n k h k' \<longleftrightarrow> (case h of
     ChanH c \<Rightarrow> (\<forall>ch. chans k' c = Some ch \<longrightarrow> peer ch = None \<and> ch_state ch = IPC_CHAN_STATE_DISCONNECTING) \<and>
       (\<forall>hn. handles k h = Some hn \<longrightarrow> (if refcnt hn = n then \<not> has_handle k' c
          else handles k' h = Some (hn\<lparr>hlist_node := None, refcnt := refcnt hn - n\<rparr>)))
   | PortH p \<Rightarrow> p \<notin> set (ipc_port_list k') \<and>
       (if spare k p = n then ports k' p = None \<and> handles k' h = None
        else spare k' p = spare k p - n \<and>
          (\<exists>po. ports k' p = Some po \<and> po_state po = IPC_PORT_STATE_CLOSING \<and> pending_list po = [])))"

lemma close_entry:
  assumes inv: "ipc_inv {} k" and h: "case h of ChanH c \<Rightarrow> has_handle k c | PortH p \<Rightarrow> port_held k p"
    and n: "\<And>hn. handles k h = Some hn \<Longrightarrow> hlist_node hn = None"
  obtains k' where "handle_close ipc_shutdown ipc_destroy h k = Some k'" "ipc_inv {} k'" "released 1 k h k'"
proof (cases h)
  case (ChanH c)
  with h have "has_handle k c" by simp
  from chan_close_ok [OF inv this] obtain k' where k': "handle_close ipc_shutdown ipc_destroy h k = Some k'" "ipc_inv {} k'"
    "\<And>hn. handles k h = Some hn \<Longrightarrow> if refcnt hn = 1 then \<not> has_handle k' c else handles k' h = Some (hn\<lparr>refcnt := refcnt hn - 1\<rparr>)"
    "\<forall>ch. chans k' c = Some ch \<longrightarrow> peer ch = None \<and> ch_state ch = IPC_CHAN_STATE_DISCONNECTING"
    unfolding ChanH by metis
  have "hn\<lparr>hlist_node := None, refcnt := refcnt hn - 1\<rparr> = hn\<lparr>refcnt := refcnt hn - 1\<rparr>" if "handles k h = Some hn" for hn
    using n [OF that] by (cases hn) simp
  then have "released 1 k h k'" using k'(3,4) unfolding released_def by (auto simp: ChanH split: if_splits)
  with k'(1,2) that show ?thesis by blast
next
  case (PortH p)
  with h have held: "port_held k p" by simp
  then obtain po where "ports k p = Some po" by (auto simp: port_held_def)
  then show ?thesis unfolding PortH
    by (rule port_close_ok [OF inv _ held]) (use that PortH in \<open>auto simp: released_def split: if_splits\<close>)
qed

text \<open>
  C12: Closing an id that names a handle takes the handle off the list of the context and shuts
  it down. A channel is disconnecting afterwards and has lost its peer, a port is unlisted,
  closing and without pending connections. The references of the table and of the list are
  dropped, so that the handle is destroyed if there were no others. No assertion fails, the kernel
  stays consistent, and the id is free; an id that is out of range or unused is refused and
  nothing changes.
\<close>

theorem sys_close_releases:
  assumes "ipc_inv {} k" "uctx_wf ctx"
    and "\<forall>h. unat hi < IPC_MAX_HANDLES \<longrightarrow> uhandles ctx ! unat hi = Some h \<longrightarrow> entry_ok k (handle_list_id ctx) h"
  shows "if unat hi \<ge> IPC_MAX_HANDLES then sys_close ctx hi k = Some (ERR_BAD_HANDLE, ctx, k)
    else if uhandles ctx ! unat hi = None then sys_close ctx hi k = Some (ERR_NOT_FOUND, ctx, k)
    else \<exists>ctx' k'. sys_close ctx hi k = Some (NO_ERROR, ctx', k') \<and> ipc_inv {} k' \<and> uctx_wf ctx' \<and>
      released 2 k (the (uhandles ctx ! unat hi)) k' \<and>
      uhandles ctx' = (uhandles ctx)[unat hi := None] \<and> check_handle_id ctx' hi = Some ERR_NOT_FOUND"
proof (cases "unat hi < IPC_MAX_HANDLES \<and> uhandles ctx ! unat hi \<noteq> None")
  case False
  then show ?thesis using check_handle_id_eq [OF assms(2), of hi]
    by (auto simp: sys_close_def uctx_handle_remove_def)
next
  case True
  then obtain h where h: "unat hi < IPC_MAX_HANDLES" "uhandles ctx ! unat hi = Some h" by auto
  then have e: "entry_ok k (handle_list_id ctx) h" using assms(3) by blast
  obtain k1 where k1: "handle_list_del ipc_destroy (handle_list_id ctx) h k = Some k1" "ipc_inv {} k1"
    "case h of ChanH c \<Rightarrow> has_handle k1 c | PortH p \<Rightarrow> port_held k1 p"
    "\<forall>hn. handles k h = Some hn \<longrightarrow> handles k1 h = Some (hn\<lparr>hlist_node := None, refcnt := refcnt hn - 1\<rparr>)"
    "\<forall>p. h = PortH p \<longrightarrow> spare k1 p = spare k p - 1"
    by (rule list_del_entry [OF assms(1) e])
  obtain hn where hn: "handles k h = Some hn" using e by (auto simp: entry_ok_def)
  obtain k2 where k2: "handle_close ipc_shutdown ipc_destroy h k1 = Some k2" "ipc_inv {} k2" "released 1 k1 h k2"
    by (rule close_entry [OF k1(2,3)]) (use k1(4) hn in auto)
  have "released 2 k h k2"
    using k2(3) k1(4,5) hn by (cases h) (auto simp: released_def split: if_splits)
  moreover note rm = remove_eq [OF assms(2) h]
  moreover have "check_handle_id (ctx\<lparr>inuse := fst (bitmap_clear (inuse ctx) (unat hi)), uhandles := (uhandles ctx)[unat hi := None]\<rparr>) hi = Some ERR_NOT_FOUND"
    using check_handle_id_eq [OF rm(2), of hi] h(1) uctx_wfD(2) [OF assms(2)] by simp
  ultimately show ?thesis using h k1(1) k2(1,2) by (simp add: sys_close_def)
qed

theorem sys_close_releases_witness:
  "\<exists>ctx' k'. sys_close (ex_ctx\<lparr>inuse := fst (bitmap_set (inuse ex_ctx) 0), uhandles := (uhandles ex_ctx)[0 := Some (ChanH 0)]\<rparr>) 0
     (ex_uk\<lparr>hlists := [0 \<mapsto> \<lparr>hl_handles = [ChanH 0], hl_wait_event = None\<rparr>],
        handles := (handles ex_uk)(ChanH 0 \<mapsto> (ex_hn ipc_chan_handle_ops 2)\<lparr>hlist_node := Some 0\<rparr>)\<rparr>) = Some (NO_ERROR, ctx', k') \<and> \<not> has_handle k' 0"
proof -
  let ?kl = "ex_uk\<lparr>hlists := [0 \<mapsto> \<lparr>hl_handles = [ChanH 0], hl_wait_event = None\<rparr>]\<rparr>"
  let ?k = "?kl\<lparr>handles := (handles ?kl)(ChanH 0 \<mapsto> (ex_hn ipc_chan_handle_ops 2)\<lparr>hlist_node := Some 0\<rparr>)\<rparr>"
  let ?ctx = "ex_ctx\<lparr>inuse := fst (bitmap_set (inuse ex_ctx) 0), uhandles := (uhandles ex_ctx)[0 := Some (ChanH 0)]\<rparr>"
  have "ipc_inv {} ?kl" using reachable_inv [OF ex_reachable(4)] by (simp add: ex_uk_def)
  from ipc_inv_chan_handle [OF this, of 0 "ex_hn ipc_chan_handle_ops 1" "(ex_hn ipc_chan_handle_ops 2)\<lparr>hlist_node := Some 0\<rparr>"]
  have inv: "ipc_inv {} ?k" by (simp add: ex_uk_def ex_connected_def ex_hn_def)
  have "bitmap_test (fst (bitmap_set (inuse ex_ctx) 0)) i = (i = 0)" if "i < IPC_MAX_HANDLES" for i
    using bm.test_set [of IPC_MAX_HANDLES "inuse ex_ctx" 0 i] that by (simp add: ex_ctx_def)
  then have wf: "uctx_wf ?ctx" using ex_ctx_wf by (auto simp: uctx_wf_def ex_ctx_def nth_list_update)
  have e: "entry_ok ?k (handle_list_id ?ctx) (ChanH 0)" by (simp add: entry_ok_def ex_hn_def ex_ctx_def)
  from sys_close_releases [OF inv wf, of 0] e show ?thesis by (auto simp: ex_ctx_def released_def ex_hn_def)
qed

section \<open>Strings\<close>

lemma strlcpy_loop_returns:
  assumes "um (a + of_nat n) \<in> {None, Some 0}"
  shows "\<exists>r bs. strlcpy_loop um start a len acc = Some (r, bs) \<and> length bs \<le> length acc + len"
  using assms
proof (induction n arbitrary: a len acc)
  case 0
  then show ?case by (subst strlcpy_loop.simps) (auto simp: Let_def)
next
  case (Suc n)
  show ?case
  proof (cases "um a \<in> {None, Some 0}")
    case True
    then show ?thesis by (subst strlcpy_loop.simps) (auto simp: Let_def)
  next
    case False
    then obtain b where b: "um a = Some b" "b \<noteq> 0" by auto
    have next_byte: "um (a + 1 + of_nat n) \<in> {None, Some 0}" using Suc.prems by (simp add: algebra_simps)
    let ?acc = "if len = 0 then acc else if len = 1 then acc @ [0] else acc @ [b]"
    obtain r bs where "strlcpy_loop um start (a + 1) (len - 1) ?acc = Some (r, bs)" "length bs \<le> length ?acc + (len - 1)"
      using Suc.IH [OF next_byte] by blast
    with b show ?thesis by (subst strlcpy_loop.simps) (auto simp: Let_def split: if_splits)
  qed
qed

text \<open>
  C18: Copying a string from user space returns whenever some byte from its start on is zero
  or not mapped, and never writes more than the size of the destination.
\<close>

theorem strncpy_from_user_returns:
  assumes "\<exists>n. um (usrc + of_nat n) \<in> {None, Some 0}"
  shows "\<exists>r bs. strncpy_from_user um usrc len = Some (r, bs) \<and> length bs \<le> len"
  using assms strlcpy_loop_returns [of um usrc _ usrc len "[]"] by (auto simp: strncpy_from_user_def)

theorem strncpy_from_user_returns_witness:
  "\<exists>r bs. strncpy_from_user [0 \<mapsto> 115, 1 \<mapsto> 114] 0 2 = Some (r, bs) \<and> length bs \<le> 2"
  by (rule strncpy_from_user_returns) (rule exI [of _ 2], simp)

end
