(* ===== verification/Pmm.thy ===== *)
theory Pmm
  imports Trusty_Base
begin

text \<open>
  The physical page allocator, \<^verbatim>\<open>external/lk/kernel/vm/pmm.c\<close>: arenas of pages, each with
  an array of page flags and a list of free pages. A pointer to a page is the identity of
  its arena with the index of the page in the array.
\<close>

section \<open>Arenas\<close>

abbreviation PAGE_SIZE :: u32 where "PAGE_SIZE \<equiv> 4096"
abbreviation PAGE_SIZE_SHIFT :: nat where "PAGE_SIZE_SHIFT \<equiv> 12"
abbreviation VM_PAGE_FLAG_NONFREE :: u8 where "VM_PAGE_FLAG_NONFREE \<equiv> 1"
abbreviation PMM_ARENA_FLAG_KMAP :: u32 where "PMM_ARENA_FLAG_KMAP \<equiv> 1"

type_synonym vm_page = "nat \<times> nat"

record pmm_arena =
  ar_id :: nat
  ar_flags :: u32
  ar_priority :: u32
  ar_base :: u32
  ar_size :: u32
  free_count :: u32
  page_flags :: "u8 list"
  free_list :: "nat list"

definition IS_PAGE_ALIGNED :: "u32 \<Rightarrow> bool" where
  "IS_PAGE_ALIGNED x = (x AND (PAGE_SIZE - 1) = 0)"

definition page_count :: "pmm_arena \<Rightarrow> nat" where
  "page_count a = unat (ar_size a div PAGE_SIZE)"

definition ADDRESS_IN_ARENA :: "u32 \<Rightarrow> pmm_arena \<Rightarrow> bool" where
  "ADDRESS_IN_ARENA address a = (address \<ge> ar_base a \<and> address \<le> ar_base a + ar_size a - 1)"

definition PAGE_BELONGS_TO_ARENA :: "vm_page \<Rightarrow> pmm_arena \<Rightarrow> bool" where
  "PAGE_BELONGS_TO_ARENA p a = (fst p = ar_id a \<and> snd p < page_count a)"

definition page_is_free :: "u8 \<Rightarrow> bool" where
  "page_is_free fl = (fl AND VM_PAGE_FLAG_NONFREE = 0)"

fun page_to_address :: "pmm_arena list \<Rightarrow> vm_page \<Rightarrow> u32" where
  "page_to_address [] p = - 1"
| "page_to_address (a # as) p =
     (if PAGE_BELONGS_TO_ARENA p a then of_nat (snd p) * PAGE_SIZE + ar_base a else page_to_address as p)"

fun address_to_page :: "pmm_arena list \<Rightarrow> u32 \<Rightarrow> vm_page option" where
  "address_to_page [] addr = None"
| "address_to_page (a # as) addr =
     (if ADDRESS_IN_ARENA addr a then Some (ar_id a, unat ((addr - ar_base a) div PAGE_SIZE))
      else address_to_page as addr)"

fun add_by_priority :: "pmm_arena \<Rightarrow> pmm_arena list \<Rightarrow> pmm_arena list" where
  "add_by_priority a [] = [a]"
| "add_by_priority a (b # bs) = (if ar_priority b > ar_priority a then a # b # bs else b # add_by_priority a bs)"

definition pmm_add_arena :: "pmm_arena \<Rightarrow> pmm_arena list \<Rightarrow> (int \<times> pmm_arena list) option" where
  "pmm_add_arena arena as = do {
     kassert (IS_PAGE_ALIGNED (ar_base arena));
     kassert (IS_PAGE_ALIGNED (ar_size arena));
     (if ar_size arena = 0 then Some (NO_ERROR, as)
      else
        let n = page_count arena;
            arena = arena\<lparr>free_count := of_nat n, free_list := [0..<n], page_flags := replicate n 0\<rparr>
        in Some (NO_ERROR, add_by_priority arena as))
   }"

section \<open>Allocating pages\<close>

definition take_page :: "nat \<Rightarrow> pmm_arena \<Rightarrow> pmm_arena" where
  "take_page i a = a\<lparr>free_list := remove1 i (free_list a), free_count := free_count a - 1,
     page_flags := (page_flags a)[i := (page_flags a ! i) OR VM_PAGE_FLAG_NONFREE]\<rparr>"

text \<open>The pages taken from one arena, and whether its free list ran empty before there were enough.\<close>

fun pages_from_arena :: "nat \<Rightarrow> pmm_arena \<Rightarrow> vm_page list \<times> bool \<times> pmm_arena" where
  "pages_from_arena 0 a = ([], False, a)"
| "pages_from_arena (Suc n) a = (case free_list a of
     [] \<Rightarrow> ([], True, a)
   | i # is \<Rightarrow> let (ps, exhausted, b) = pages_from_arena n (take_page i a) in ((ar_id a, i) # ps, exhausted, b))"

fun alloc_pages_loop :: "nat \<Rightarrow> pmm_arena list \<Rightarrow> vm_page list \<times> pmm_arena list" where
  "alloc_pages_loop n [] = ([], [])"
| "alloc_pages_loop n (a # as) = (case pages_from_arena n a of
     (ps, True, b) \<Rightarrow> (ps, b # as)
   | (ps, False, b) \<Rightarrow> let (qs, bs) = alloc_pages_loop (n - length ps) as in (ps @ qs, b # bs))"

definition pmm_alloc_pages :: "u32 \<Rightarrow> vm_page list \<Rightarrow> pmm_arena list \<Rightarrow> u32 \<times> vm_page list \<times> pmm_arena list" where
  "pmm_alloc_pages cnt list as =
     (if cnt = 0 then (0, list, as)
      else let (ps, as) = alloc_pages_loop (unat cnt) as in (of_nat (length ps), list @ ps, as))"

fun range_from_arena :: "nat \<Rightarrow> u32 \<Rightarrow> pmm_arena \<Rightarrow> (vm_page list \<times> u32 \<times> pmm_arena) option" where
  "range_from_arena 0 address a = Some ([], address, a)"
| "range_from_arena (Suc n) address a =
     (if \<not> ADDRESS_IN_ARENA address a then Some ([], address, a)
      else let index = unat ((address - ar_base a) div PAGE_SIZE) in do {
        kassert (index < page_count a);
        (if \<not> page_is_free (page_flags a ! index) then Some ([], address, a)
         else do {
           kassert (index \<in> set (free_list a));
           (ps, address, b) \<leftarrow> range_from_arena n (address + PAGE_SIZE) (take_page index a);
           Some ((ar_id a, index) # ps, address, b)
         })
      })"

fun alloc_range_loop :: "nat \<Rightarrow> u32 \<Rightarrow> pmm_arena list \<Rightarrow> (vm_page list \<times> pmm_arena list) option" where
  "alloc_range_loop n address [] = Some ([], [])"
| "alloc_range_loop n address (a # as) = do {
     (ps, address, b) \<leftarrow> range_from_arena n address a;
     (if length ps = n then Some (ps, b # as)
      else do {
        (qs, bs) \<leftarrow> alloc_range_loop (n - length ps) address as;
        Some (ps @ qs, b # bs)
      })
   }"

definition pmm_alloc_range :: "u32 \<Rightarrow> u32 \<Rightarrow> vm_page list \<Rightarrow> pmm_arena list \<Rightarrow> (u32 \<times> vm_page list \<times> pmm_arena list) option" where
  "pmm_alloc_range address cnt list as =
     (if cnt = 0 then Some (0, list, as)
      else do {
        (ps, as) \<leftarrow> alloc_range_loop (unat cnt) (ROUNDDOWN address PAGE_SIZE) as;
        Some (of_nat (length ps), list @ ps, as)
      })"

section \<open>Freeing pages\<close>

definition put_page :: "nat \<Rightarrow> pmm_arena \<Rightarrow> pmm_arena" where
  "put_page i a = a\<lparr>page_flags := (page_flags a)[i := (page_flags a ! i) AND NOT VM_PAGE_FLAG_NONFREE],
     free_list := i # free_list a, free_count := free_count a + 1\<rparr>"

text \<open>A page of no arena is not a page: reading its flags is a fault.\<close>

fun free_one :: "vm_page \<Rightarrow> pmm_arena list \<Rightarrow> pmm_arena list option" where
  "free_one p [] = None"
| "free_one p (a # as) =
     (if PAGE_BELONGS_TO_ARENA p a then do {
        kassert (\<not> page_is_free (page_flags a ! snd p));
        Some (put_page (snd p) a # as)
      } else do {
        as \<leftarrow> free_one p as;
        Some (a # as)
      })"

primrec pmm_free :: "vm_page list \<Rightarrow> pmm_arena list \<Rightarrow> (u32 \<times> pmm_arena list) option" where
  "pmm_free [] as = Some (0, as)"
| "pmm_free (p # ps) as = do {
     as \<leftarrow> free_one p as;
     (cnt, as) \<leftarrow> pmm_free ps as;
     Some (cnt + 1, as)
   }"

definition pmm_free_page :: "vm_page \<Rightarrow> pmm_arena list \<Rightarrow> (u32 \<times> pmm_arena list) option" where
  "pmm_free_page p as = pmm_free [p] as"

section \<open>Allocating a run\<close>

text \<open>The inner loop: the offset of the first page of the run that is in use, or that there is none.\<close>

fun broken_at :: "u8 list \<Rightarrow> nat \<Rightarrow> nat \<Rightarrow> nat \<Rightarrow> nat option option" where
  "broken_at fl p i 0 = Some None"
| "broken_at fl p i (Suc n) =
     (if p \<ge> length fl then None
      else if \<not> page_is_free (fl ! p) then Some (Some i) else broken_at fl (Suc p) (Suc i) n)"

text \<open>The search for a run in one arena; \<open>None\<close> is a search that faults or does not end.\<close>

partial_function (option) find_run :: "pmm_arena \<Rightarrow> u32 \<Rightarrow> u32 \<Rightarrow> u32 \<Rightarrow> u32 \<Rightarrow> u32 option option" where
  "find_run a cnt step aligned_offset start =
     (if start < ar_size a div PAGE_SIZE \<and> start + cnt \<le> ar_size a div PAGE_SIZE then do {
        broken \<leftarrow> broken_at (page_flags a) (unat start) 0 (unat cnt);
        (case broken of
           Some i \<Rightarrow> find_run a cnt step aligned_offset (ROUNDUP (start - aligned_offset + of_nat i + 1) step + aligned_offset)
         | None \<Rightarrow> Some (Some start))
      } else Some None)"

fun take_run :: "nat \<Rightarrow> nat \<Rightarrow> pmm_arena \<Rightarrow> (vm_page list \<times> pmm_arena) option" where
  "take_run i 0 a = Some ([], a)"
| "take_run i (Suc n) a = do {
     kassert (page_is_free (page_flags a ! i));
     kassert (i \<in> set (free_list a));
     (ps, b) \<leftarrow> take_run (Suc i) n (take_page i a);
     Some ((ar_id a, i) # ps, b)
   }"

fun alloc_contiguous_loop :: "u32 \<Rightarrow> nat \<Rightarrow> pmm_arena list \<Rightarrow> ((u32 \<times> vm_page list) option \<times> pmm_arena list) option" where
  "alloc_contiguous_loop cnt alignment_log2 [] = Some (None, [])"
| "alloc_contiguous_loop cnt alignment_log2 (a # as) =
     (let rounded_base = ROUNDUP (ar_base a) (2 ^ alignment_log2);
          skip = do { (r, bs) \<leftarrow> alloc_contiguous_loop cnt alignment_log2 as; Some (r, a # bs) } in
      if ar_flags a AND PMM_ARENA_FLAG_KMAP = 0 then skip
      else if rounded_base < ar_base a \<or> rounded_base > ar_base a + ar_size a - 1 then skip
      else let aligned_offset = (rounded_base - ar_base a) div PAGE_SIZE in do {
        found \<leftarrow> find_run a cnt (2 ^ (alignment_log2 - PAGE_SIZE_SHIFT)) aligned_offset aligned_offset;
        (case found of
           None \<Rightarrow> skip
         | Some start \<Rightarrow> do {
             (ps, b) \<leftarrow> take_run (unat start) (unat cnt) a;
             Some (Some (ar_base a + start * PAGE_SIZE, ps), b # as)
           })
      })"

text \<open>The pages of the run are appended to the list of the caller, if it gave one.\<close>

definition pmm_alloc_contiguous ::
  "u32 \<Rightarrow> nat \<Rightarrow> pmm_arena list \<Rightarrow> (u32 \<times> u32 option \<times> vm_page list \<times> pmm_arena list) option" where
  "pmm_alloc_contiguous cnt alignment_log2 as =
     (if cnt = 0 then Some (0, None, [], as)
      else do {
        (r, as) \<leftarrow> alloc_contiguous_loop cnt (max alignment_log2 PAGE_SIZE_SHIFT) as;
        (case r of None \<Rightarrow> Some (0, None, [], as) | Some (pa, ps) \<Rightarrow> Some (cnt, Some pa, ps, as))
      })"

section \<open>Rounding up\<close>

lemma unat_exp_minus_1:
  assumes "k < LENGTH('a)"
  shows "unat (2 ^ k - 1 :: 'a::len word) = 2 ^ k - 1"
proof -
  have "unat (mask k :: 'a word) = 2 ^ k - 1"
    using assms by (simp add: unat_eq_nat_uint uint_mask_eq min_def nat_mask_eq) (simp add: mask_eq_exp_minus_1)
  then show ?thesis
    by (simp add: mask_eq_exp_minus_1)
qed

lemma ROUNDUP_nat:
  assumes "k < LENGTH('a)" "unat x + 2 ^ k - 1 < 2 ^ LENGTH('a)"
  shows "unat (ROUNDUP x (2 ^ k) :: 'a::len word) = (unat x + 2 ^ k - 1) div 2 ^ k * 2 ^ k"
proof -
  have m: "(2 ^ k - 1 :: 'a word) = mask k"
    by (simp add: mask_eq_exp_minus_1)
  note u = unat_exp_minus_1 [OF assms(1), unfolded m]
  have "y AND NOT (mask k) = push_bit k (drop_bit k y)" for y :: "'a word"
    by (rule bit_eqI) (auto simp: bit_simps)
  moreover have "unat (push_bit k (drop_bit k y)) = unat y div 2 ^ k * 2 ^ k" for y :: "'a word"
  proof -
    have "unat y div 2 ^ k * 2 ^ k \<le> unat y"
      by simp
    also have "unat y < 2 ^ LENGTH('a)"
      by (rule unsigned_less)
    finally have "take_bit LENGTH('a) (push_bit k (drop_bit k (unat y))) = unat y div 2 ^ k * 2 ^ k"
      by (simp add: push_bit_eq_mult drop_bit_eq_div take_bit_nat_eq_self)
    then show ?thesis
      by (simp only: unsigned_push_bit_eq unsigned_drop_bit_eq take_bit_nat_eq_self [OF unsigned_less])
  qed
  moreover have "unat (x + mask k) = unat x + 2 ^ k - 1"
    using assms(2) u by (simp add: unat_word_ariths)
  ultimately show ?thesis
    by (simp add: ROUNDUP_def m)
qed

lemma roundup_least:
  fixes x d y :: nat
  assumes "0 < d" "x \<le> y" "d dvd y"
  shows "(x + d - 1) div d * d \<le> y"
proof -
  obtain q where q: "y = d * q" using assms(3) by auto
  have "(x + d - 1) div d \<le> (y + d - 1) div d" using assms(2) by (intro div_le_mono) simp
  also have "... = q" using assms(1) by (simp add: q div_nat_eqI)
  finally show ?thesis by (simp add: q mult.commute)
qed

lemma roundup_ge:
  fixes x d :: nat
  assumes "0 < d"
  shows "x \<le> (x + d - 1) div d * d" "(x + d - 1) div d * d < x + d"
proof -
  have "(x + d - 1) mod d < d" using assms by simp
  moreover have "(x + d - 1) div d * d + (x + d - 1) mod d = x + d - 1" by simp
  ultimately show "x \<le> (x + d - 1) div d * d" "(x + d - 1) div d * d < x + d"
    using assms by linarith+
qed

section \<open>Well-formed arenas\<close>

text \<open>The free list of an arena holds exactly the pages whose flags say they are free.\<close>

definition arena_wf :: "pmm_arena \<Rightarrow> bool" where
  "arena_wf a \<longleftrightarrow> length (page_flags a) = page_count a \<and> distinct (free_list a) \<and>
     set (free_list a) = {i. i < page_count a \<and> page_is_free (page_flags a ! i)} \<and>
     free_count a = of_nat (length (free_list a)) \<and> 4096 dvd unat (ar_base a) \<and> 0 < ar_size a \<and> 4096 dvd unat (ar_size a) \<and>
     unat (ar_base a) + unat (ar_size a) \<le> 2 ^ 32"

definition pmm_wf :: "pmm_arena list \<Rightarrow> bool" where
  "pmm_wf as \<longleftrightarrow> (\<forall>a \<in> set as. arena_wf a) \<and> distinct (map ar_id as)"

definition free_pages :: "pmm_arena list \<Rightarrow> vm_page set" where
  "free_pages as = {(ar_id a, i) | a i. a \<in> set as \<and> i \<in> set (free_list a)}"

definition all_pages :: "pmm_arena list \<Rightarrow> vm_page set" where
  "all_pages as = {(ar_id a, i) | a i. a \<in> set as \<and> i < page_count a}"

definition same_arena :: "pmm_arena \<Rightarrow> pmm_arena \<Rightarrow> bool" where
  "same_arena a b \<longleftrightarrow> ar_id b = ar_id a \<and> ar_flags b = ar_flags a \<and> ar_priority b = ar_priority a \<and>
     ar_base b = ar_base a \<and> ar_size b = ar_size a"

text \<open>What an allocation does to the arenas: exactly the pages \<open>P\<close> leave the free lists.\<close>

definition without :: "vm_page set \<Rightarrow> pmm_arena \<Rightarrow> pmm_arena \<Rightarrow> bool" where
  "without P a b \<longleftrightarrow> same_arena a b \<and> arena_wf b \<and> set (free_list b) = {i \<in> set (free_list a). (ar_id a, i) \<notin> P}"

lemma arena_wfD:
  assumes "arena_wf a"
  shows "length (page_flags a) = page_count a" "distinct (free_list a)"
    "i \<in> set (free_list a) \<longleftrightarrow> i < page_count a \<and> page_is_free (page_flags a ! i)"
    "free_count a = of_nat (length (free_list a))"
  using assms by (auto simp: arena_wf_def)

lemma page_flag_ops [simp]:
  "\<not> page_is_free (fl OR VM_PAGE_FLAG_NONFREE)" "page_is_free (fl AND NOT VM_PAGE_FLAG_NONFREE)"
  by (simp_all add: page_is_free_def and_one_eq mod_2_eq_odd even_or_iff even_and_iff even_not_iff)

lemma page_count_take_put [simp]:
  "page_count (take_page i a) = page_count a" "page_count (put_page i a) = page_count a"
  by (simp_all add: page_count_def take_page_def put_page_def)

lemma same_arena_take_put [simp]:
  "same_arena a (take_page i a)" "same_arena a (put_page i a)" "same_arena a a"
  by (simp_all add: same_arena_def take_page_def put_page_def)

lemma same_arena_trans: "same_arena a b \<Longrightarrow> same_arena b c \<Longrightarrow> same_arena a c"
  by (simp add: same_arena_def)

lemma same_arena_page_count: "same_arena a b \<Longrightarrow> page_count b = page_count a"
  by (simp add: same_arena_def page_count_def)

lemma arena_wf_frame:
  assumes "arena_wf a" "same_arena a b" "length (page_flags b) = length (page_flags a)" "distinct (free_list b)"
    and "set (free_list b) = {i. i < page_count a \<and> page_is_free (page_flags b ! i)}"
    and "free_count b = of_nat (length (free_list b))"
  shows "arena_wf b"
  using assms same_arena_page_count [OF assms(2)] unfolding arena_wf_def same_arena_def by (elim conjE) simp

lemma arena_wf_take_page:
  assumes "arena_wf a" "i \<in> set (free_list a)"
  shows "arena_wf (take_page i a)" "set (free_list (take_page i a)) = set (free_list a) - {i}"
proof -
  note w = arena_wfD [OF assms(1)]
  show s: "set (free_list (take_page i a)) = set (free_list a) - {i}"
    using w(2) by (simp add: take_page_def)
  define n where "n = length (remove1 i (free_list a))"
  have "length (free_list a) = Suc n"
    unfolding n_def by (rule length_remove1_mem [OF assms(2), symmetric])
  then have c: "free_count a - 1 = of_nat n"
    by (simp add: w(4))
  show "arena_wf (take_page i a)"
  proof (rule arena_wf_frame [OF assms(1)])
    show "set (free_list (take_page i a)) = {j. j < page_count a \<and> page_is_free (page_flags (take_page i a) ! j)}"
      unfolding s using w(1,3) assms(2) by (auto simp: take_page_def nth_list_update)
    show "free_count (take_page i a) = of_nat (length (free_list (take_page i a)))"
      using c by (simp add: take_page_def n_def)
  qed (use w(2) in \<open>simp_all add: take_page_def same_arena_def\<close>)
qed

lemma put_page_flags:
  assumes "i < length (page_flags a)"
  shows "page_is_free (page_flags (put_page i a) ! j) \<longleftrightarrow> j = i \<or> page_is_free (page_flags a ! j)"
proof -
  have "page_flags (put_page i a) = (page_flags a)[i := (page_flags a ! i) AND NOT VM_PAGE_FLAG_NONFREE]"
    by (simp add: put_page_def)
  then show ?thesis
    using assms by (simp only: nth_list_update page_flag_ops split: if_splits) blast
qed

lemma arena_wf_put_page:
  assumes "arena_wf a" "i < page_count a" "\<not> page_is_free (page_flags a ! i)"
  shows "arena_wf (put_page i a)" "set (free_list (put_page i a)) = insert i (set (free_list a))"
proof -
  note w = arena_wfD [OF assms(1)]
  show s: "set (free_list (put_page i a)) = insert i (set (free_list a))"
    by (simp add: put_page_def)
  show "arena_wf (put_page i a)"
  proof (rule arena_wf_frame [OF assms(1)])
    show "set (free_list (put_page i a)) = {j. j < page_count a \<and> page_is_free (page_flags (put_page i a) ! j)}"
      unfolding s using w(1,3) assms(2) by (auto simp: put_page_flags)
    show "free_count (put_page i a) = of_nat (length (free_list (put_page i a)))"
      by (simp add: put_page_def w(4))
    show "distinct (free_list (put_page i a))"
      using w(2) w(3) [of i] assms(3) by (simp add: put_page_def)
  qed (simp_all add: put_page_def same_arena_def)
qed

section \<open>Allocations\<close>

definition allocates :: "vm_page list \<Rightarrow> pmm_arena list \<Rightarrow> pmm_arena list \<Rightarrow> bool" where
  "allocates ps as bs \<longleftrightarrow> distinct ps \<and> set ps \<subseteq> free_pages as \<and> list_all2 (without (set ps)) as bs"

lemma free_pages_simps [simp]:
  "free_pages [] = {}" "free_pages (a # as) = Pair (ar_id a) ` set (free_list a) \<union> free_pages as"
  by (auto simp: free_pages_def)

lemma free_pages_id: "p \<in> free_pages as \<Longrightarrow> fst p \<in> ar_id ` set as"
  by (auto simp: free_pages_def)

lemma pmm_wf_Cons: "pmm_wf (a # as) \<longleftrightarrow> arena_wf a \<and> pmm_wf as \<and> ar_id a \<notin> ar_id ` set as"
  by (auto simp: pmm_wf_def)

lemma allocates_Nil:
  assumes "pmm_wf as"
  shows "allocates [] as as"
  using assms by (auto simp: allocates_def without_def pmm_wf_def list_all2_same)

lemma without_other:
  assumes "\<And>i. i \<in> set (free_list a) \<Longrightarrow> (ar_id a, i) \<in> P \<longleftrightarrow> (ar_id a, i) \<in> Q"
  shows "without P a b \<longleftrightarrow> without Q a b"
  using assms by (auto simp: without_def)

lemma allocates_Cons:
  assumes "pmm_wf (a # as)" "allocates ps [a] [b]" "allocates qs as bs"
  shows "allocates (ps @ qs) (a # as) (b # bs)"
proof -
  have ids: "ar_id a \<notin> ar_id ` set as"
    using assms(1) by (simp add: pmm_wf_Cons)
  have p: "fst x = ar_id a" if "x \<in> set ps" for x
    using assms(2) that by (auto simp: allocates_def)
  have q: "fst x \<in> ar_id ` set as" if "x \<in> set qs" for x
    using assms(3) that unfolding allocates_def by (intro free_pages_id) blast
  have "(ar_id a, i) \<notin> set qs" for i
    using q [of "(ar_id a, i)"] ids by auto
  then have "without (set (ps @ qs)) a b"
    using assms(2) by (simp add: allocates_def without_other [where P = "set ps \<union> set qs" and Q = "set ps"])
  moreover have "list_all2 (without (set (ps @ qs))) as bs"
  proof (rule list.rel_mono_strong)
    show "list_all2 (without (set qs)) as bs"
      using assms(3) by (simp add: allocates_def)
  next
    fix x y assume x: "x \<in> set as" "without (set qs) x y"
    have "(ar_id x, i) \<notin> set ps" for i
      using p [of "(ar_id x, i)"] ids x(1) by (metis fst_conv imageI)
    then show "without (set (ps @ qs)) x y"
      using x(2) by (simp add: without_other [where P = "set ps \<union> set qs" and Q = "set qs"])
  qed
  moreover have "set ps \<inter> set qs = {}"
    using p q ids by (metis disjoint_iff)
  ultimately show ?thesis
    using assms(2,3) by (auto simp: allocates_def)
qed

lemma allocates_skip:
  assumes "pmm_wf (a # as)" "allocates qs as bs"
  shows "allocates qs (a # as) (a # bs)"
  using allocates_Cons [OF assms(1) allocates_Nil [of "[a]"] assms(2)] assms(1) by (simp add: pmm_wf_Cons pmm_wf_def)

lemma allocates_stop:
  assumes "pmm_wf (a # as)" "allocates ps [a] [b]"
  shows "allocates ps (a # as) (b # as)"
  using allocates_Cons [OF assms allocates_Nil] assms(1) by (simp add: pmm_wf_Cons)

lemma allocates_page:
  assumes "arena_wf a" "i \<in> set (free_list a)" "allocates ps [take_page i a] [b]"
  shows "allocates ((ar_id a, i) # ps) [a] [b]"
  using assms arena_wf_take_page [OF assms(1,2)]
  by (auto simp: allocates_def without_def take_page_def intro: same_arena_trans [OF same_arena_take_put(1)])

lemma all_pages_simps [simp]:
  "all_pages [] = {}" "all_pages (a # as) = Pair (ar_id a) ` {..<page_count a} \<union> all_pages as"
  by (auto simp: all_pages_def)

lemma without_facts:
  assumes "without P a b"
  shows "ar_id b = ar_id a" "arena_wf b" "page_count b = page_count a"
    "Pair (ar_id a) ` set (free_list b) = Pair (ar_id a) ` set (free_list a) - P"
  using assms same_arena_page_count [of a b] by (auto simp: without_def same_arena_def)

lemma without_list:
  assumes "list_all2 (without P) as bs"
  shows "map ar_id bs = map ar_id as \<and> (\<forall>b \<in> set bs. arena_wf b) \<and> free_pages bs = free_pages as - P \<and> all_pages bs = all_pages as"
  using assms
proof (induction rule: list_all2_induct)
  case (Cons a as b bs)
  then show ?case
    by (simp add: without_facts [OF Cons.hyps(1)] Un_Diff)
qed simp

lemma allocates_facts:
  assumes "pmm_wf as" "allocates ps as bs"
  shows "pmm_wf bs" "free_pages bs = free_pages as - set ps" "all_pages bs = all_pages as" "set ps \<subseteq> free_pages as" "distinct ps"
  using assms without_list [of "set ps" as bs] by (simp_all add: allocates_def pmm_wf_def)

lemma pages_from_arena_spec:
  assumes "arena_wf a"
  shows "\<exists>b. pages_from_arena n a = (map (Pair (ar_id a)) (take n (free_list a)), length (free_list a) < n, b) \<and>
    allocates (map (Pair (ar_id a)) (take n (free_list a))) [a] [b]"
  using assms
proof (induction n arbitrary: a)
  case 0
  then show ?case using allocates_Nil [of "[a]"] by (simp add: pmm_wf_def)
next
  case (Suc n)
  show ?case
  proof (cases "free_list a")
    case Nil
    then show ?thesis using Suc.prems allocates_Nil [of "[a]"] by (simp add: pmm_wf_def)
  next
    case (Cons i xs)
    have f: "free_list (take_page i a) = xs" "ar_id (take_page i a) = ar_id a"
      by (simp_all add: take_page_def Cons)
    show ?thesis
      using Suc.IH [OF arena_wf_take_page(1) [OF Suc.prems]] allocates_page [OF Suc.prems]
      by (fastforce simp: Cons f)
  qed
qed

lemma alloc_pages_loop_allocates:
  assumes "pmm_wf as" "alloc_pages_loop n as = (ps, bs)"
  shows "allocates ps as bs \<and> length ps \<le> n"
  using assms
proof (induction n as arbitrary: ps bs rule: alloc_pages_loop.induct)
  case (1 n)
  then show ?case using allocates_Nil [of "[]"] by (simp add: pmm_wf_def)
next
  case (2 n a as)
  obtain b where b: "pages_from_arena n a = (map (Pair (ar_id a)) (take n (free_list a)), length (free_list a) < n, b)"
      "allocates (map (Pair (ar_id a)) (take n (free_list a))) [a] [b]"
    using pages_from_arena_spec 2(2) pmm_wf_Cons by blast
  show ?case
  proof (cases "length (free_list a) < n")
    case True
    then show ?thesis
      using 2(2,3) b allocates_stop [OF 2(2) b(2)] by auto
  next
    case False
    then obtain qs cs where q: "alloc_pages_loop (n - length (map (Pair (ar_id a)) (take n (free_list a)))) as = (qs, cs)"
      by (metis surj_pair)
    have "allocates qs as cs \<and> length qs \<le> n - length (map (Pair (ar_id a)) (take n (free_list a)))"
      using 2(1) [OF b(1) [symmetric] refl _ _ q] False 2(2) by (auto simp: pmm_wf_Cons)
    then show ?thesis
      using 2(2,3) b(1) q False allocates_Cons [OF 2(2) b(2), of qs cs] by auto
  qed
qed

lemma unat_last:
  fixes b s :: u32
  assumes "0 < s" "unat b + unat s \<le> 2 ^ 32"
  shows "unat (b + s - 1) = unat b + unat s - 1"
proof -
  have s: "0 < unat s" using assms(1) by (simp add: word_less_nat_alt)
  have "unat (s - 1) = unat s - 1"
    using assms(1) by (intro unat_minus_one) auto
  moreover have "b + s - 1 = b + (s - 1)"
    by simp
  ultimately have "unat (b + s - 1) = (unat b + (unat s - 1)) mod 2 ^ 32"
    by (simp only: unat_word_ariths(1)) simp
  then show ?thesis
    using assms(2) s by simp
qed

lemma arena_index:
  assumes "arena_wf a" "ADDRESS_IN_ARENA address a"
  shows "unat ((address - ar_base a) div PAGE_SIZE) < page_count a"
proof -
  have b: "ar_base a \<le> address" "address \<le> ar_base a + ar_size a - 1"
    using assms(2) by (simp_all add: ADDRESS_IN_ARENA_def)
  have s: "0 < unat (ar_size a)" "4096 dvd unat (ar_size a)" "unat (ar_base a) + unat (ar_size a) \<le> 2 ^ 32"
    using assms(1) by (auto simp: arena_wf_def word_less_nat_alt)
  have "unat (ar_base a + ar_size a - 1) = unat (ar_base a) + unat (ar_size a) - 1"
    using assms(1) by (intro unat_last) (auto simp: arena_wf_def)
  then have "unat (address - ar_base a) < unat (ar_size a)"
    using b s by (simp add: unat_sub word_le_nat_alt)
  then have "unat (address - ar_base a) div 4096 < unat (ar_size a) div 4096"
    using s(2) by (simp add: less_mult_imp_div_less)
  then show ?thesis
    by (simp add: page_count_def unat_div)
qed

lemma range_from_arena_allocates:
  assumes "arena_wf a"
  shows "\<exists>ps ad b. range_from_arena n address a = Some (ps, ad, b) \<and> allocates ps [a] [b] \<and> length ps \<le> n"
  using assms
proof (induction n arbitrary: a address)
  case 0
  then show ?case using allocates_Nil [of "[a]"] by (simp add: pmm_wf_def)
next
  case (Suc n)
  let ?i = "unat ((address - ar_base a) div PAGE_SIZE)"
  note nil = allocates_Nil [of "[a]", unfolded pmm_wf_def, simplified, OF Suc.prems]
  show ?case
  proof (cases "ADDRESS_IN_ARENA address a \<and> page_is_free (page_flags a ! ?i)")
    case True
    then have i: "?i < page_count a" "?i \<in> set (free_list a)"
      using arena_index [OF Suc.prems] arena_wfD(3) [OF Suc.prems] by auto
    obtain ps ad b where "range_from_arena n (address + PAGE_SIZE) (take_page ?i a) = Some (ps, ad, b)"
        "allocates ps [take_page ?i a] [b]" "length ps \<le> n"
      using Suc.IH [OF arena_wf_take_page(1) [OF Suc.prems i(2)]] by blast
    then show ?thesis
      using True i allocates_page [OF Suc.prems i(2)] by (simp add: Let_def)
  next
    case False
    then show ?thesis
      using nil arena_index [OF Suc.prems, of address] by (auto simp: Let_def)
  qed
qed

lemma alloc_range_loop_allocates:
  assumes "pmm_wf as"
  shows "\<exists>ps bs. alloc_range_loop n address as = Some (ps, bs) \<and> allocates ps as bs \<and> length ps \<le> n"
  using assms
proof (induction as arbitrary: n address)
  case Nil
  then show ?case using allocates_Nil [of "[]"] by simp
next
  case (Cons a as)
  obtain ps ad b where p: "range_from_arena n address a = Some (ps, ad, b)" "allocates ps [a] [b]" "length ps \<le> n"
    using range_from_arena_allocates Cons.prems pmm_wf_Cons by blast
  obtain qs bs where "alloc_range_loop (n - length ps) ad as = Some (qs, bs)" "allocates qs as bs" "length qs \<le> n - length ps"
    using Cons.IH Cons.prems pmm_wf_Cons by blast
  then show ?case
    using p allocates_stop [OF Cons.prems p(2)] allocates_Cons [OF Cons.prems p(2)] by (simp, linarith)
qed

lemma take_run_allocates:
  assumes "arena_wf a" "\<forall>j < n. i + j < page_count a \<and> page_is_free (page_flags a ! (i + j))"
  shows "\<exists>b. take_run i n a = Some (map (Pair (ar_id a)) [i..<i + n], b) \<and> allocates (map (Pair (ar_id a)) [i..<i + n]) [a] [b]"
  using assms
proof (induction n arbitrary: i a)
  case 0
  then show ?case using allocates_Nil [of "[a]"] by (simp add: pmm_wf_def)
next
  case (Suc n)
  have i: "page_is_free (page_flags a ! i)" "i \<in> set (free_list a)"
    using Suc.prems(2)[rule_format, of 0] arena_wfD(3) [OF Suc.prems(1)] by auto
  have "\<forall>j < n. Suc i + j < page_count (take_page i a) \<and> page_is_free (page_flags (take_page i a) ! (Suc i + j))"
    using Suc.prems(2)[rule_format, of "Suc _"] by (simp add: take_page_def page_count_def)
  from Suc.IH [OF arena_wf_take_page(1) [OF Suc.prems(1) i(2)] this]
  obtain b where "take_run (Suc i) n (take_page i a) = Some (map (Pair (ar_id a)) [Suc i..<Suc i + n], b)"
      "allocates (map (Pair (ar_id a)) [Suc i..<Suc i + n]) [take_page i a] [b]"
    by (auto simp: take_page_def)
  moreover have "[i..<i + Suc n] = i # [Suc i..<Suc i + n]"
    by (simp add: upt_conv_Cons)
  ultimately show ?case
    using i allocates_page [OF Suc.prems(1) i(2)] by simp
qed

section \<open>The search for a run\<close>

definition run_free :: "pmm_arena \<Rightarrow> nat \<Rightarrow> nat \<Rightarrow> bool" where
  "run_free a s n \<longleftrightarrow> s + n \<le> page_count a \<and> (\<forall>i < n. page_is_free (page_flags a ! (s + i)))"

lemma broken_at_spec:
  assumes "p + n \<le> length fl"
  shows "\<exists>r. broken_at fl p i n = Some r \<and>
    (case r of None \<Rightarrow> \<forall>j < n. page_is_free (fl ! (p + j))
     | Some m \<Rightarrow> i \<le> m \<and> m < i + n \<and> \<not> page_is_free (fl ! (p + (m - i))))"
  using assms
proof (induction fl p i n rule: broken_at.induct)
  case (2 fl p i n)
  show ?case
  proof (cases "page_is_free (fl ! p)")
    case True
    obtain r where "broken_at fl (Suc p) (Suc i) n = Some r"
        "case r of None \<Rightarrow> \<forall>j < n. page_is_free (fl ! (Suc p + j))
         | Some m \<Rightarrow> Suc i \<le> m \<and> m < Suc i + n \<and> \<not> page_is_free (fl ! (Suc p + (m - Suc i)))"
      using 2 True by fastforce
    then show ?thesis
      using True 2(2) by (auto split: option.splits simp: less_Suc_eq_0_disj Suc_diff_le)
  qed (use 2(2) in simp)
qed simp

text \<open>
  The pages a search can start at are the multiples of \<open>d\<close> after the first aligned page.
  The search returns the first of them with a run of free pages, or that there is none.
\<close>

definition search_result :: "pmm_arena \<Rightarrow> nat \<Rightarrow> nat \<Rightarrow> nat \<Rightarrow> nat \<Rightarrow> u32 option \<Rightarrow> bool" where
  "search_result a cnt d ao start r = (case r of
     Some s \<Rightarrow> d dvd unat s - ao \<and> start \<le> unat s \<and> run_free a (unat s) cnt \<and>
       (\<forall>s'. start \<le> s' \<longrightarrow> s' < unat s \<longrightarrow> d dvd s' - ao \<longrightarrow> \<not> run_free a s' cnt)
   | None \<Rightarrow> \<forall>s' \<ge> start. d dvd s' - ao \<longrightarrow> \<not> run_free a s' cnt)"

lemma search_result_skip:
  assumes "search_result a cnt d ao y r" "start \<le> y"
    and "\<And>s'. start \<le> s' \<Longrightarrow> s' < y \<Longrightarrow> d dvd s' - ao \<Longrightarrow> \<not> run_free a s' cnt"
  shows "search_result a cnt d ao start r"
  using assms unfolding search_result_def by (cases r) (simp_all, (metis le_trans not_less)+)

lemma unat_u32: "unat (x :: u32) < 2 ^ 32"
proof -
  have "unat x < 2 ^ LENGTH(32)" by (rule unsigned_less)
  then show ?thesis by simp
qed

text \<open>The next page to try after a run is broken at offset \<open>m\<close>.\<close>

lemma next_start:
  assumes "k \<le> 19" "unat ao \<le> unat start" "unat start + m + 1 \<le> 2 ^ 20"
  defines "y \<equiv> ROUNDUP (start - ao + of_nat m + 1) (2 ^ k) + ao :: u32"
  shows "unat start + m < unat y" "unat y \<le> 2 ^ 21" "unat ao \<le> unat y" "2 ^ k dvd unat y - unat ao"
    and "\<And>s. unat start + m < s \<Longrightarrow> 2 ^ k dvd s - unat ao \<Longrightarrow> unat y \<le> s"
proof -
  let ?x = "unat start - unat ao + m + 1"
  have k: "(2::nat) ^ k \<le> 2 ^ 19"
    using assms(1) by (intro power_increasing) auto
  have s: "?x + unat ao = unat start + m + 1"
    using assms(2) by simp
  have x: "unat (start - ao + of_nat m + 1) = ?x" "?x \<le> 2 ^ 20"
    using assms(2,3) by (simp_all add: unat_word_ariths unat_sub word_le_nat_alt unsigned_of_nat take_bit_nat_eq_self)
  have r: "unat (ROUNDUP (start - ao + of_nat m + 1) (2 ^ k)) = (?x + 2 ^ k - 1) div 2 ^ k * 2 ^ k"
    using x k assms(1) by (subst ROUNDUP_nat) simp_all
  note ge = roundup_ge [of "2 ^ k" ?x, simplified]
  have y: "unat y = (?x + 2 ^ k - 1) div 2 ^ k * 2 ^ k + unat ao"
    using r x ge k assms(2,3) unfolding y_def by (subst unat_word_ariths) simp
  show "unat start + m < unat y" "unat y \<le> 2 ^ 21" "unat ao \<le> unat y" "2 ^ k dvd unat y - unat ao"
    using y ge k s assms(3) by simp_all
  show "unat y \<le> t" if "unat start + m < t" "2 ^ k dvd t - unat ao" for t
    using roundup_least [of "2 ^ k" ?x "t - unat ao"] that y s by simp linarith
qed

lemma find_run_spec:
  assumes "arena_wf a" "k \<le> 19" "0 < unat cnt" "unat cnt \<le> 2 ^ 31"
    and "2 ^ k dvd unat start - unat ao" "unat ao \<le> unat start" "unat start \<le> 2 ^ 21"
  shows "\<exists>r. find_run a cnt (2 ^ k) ao start = Some r \<and> search_result a (unat cnt) (2 ^ k) (unat ao) (unat start) r"
  using assms(5-7)
proof (induction "2 ^ 22 - unat start" arbitrary: start rule: less_induct)
  case less
  note w = arena_wfD [OF assms(1)]
  have n: "page_count a = unat (ar_size a div PAGE_SIZE)" "page_count a \<le> 2 ^ 20"
    using unat_u32 [of "ar_size a"] by (simp_all add: page_count_def unat_div)
  have sum: "unat (start + cnt) = unat start + unat cnt"
    using assms(4) less.prems(3) by (simp add: unat_word_ariths)
  show ?case
  proof (cases "unat start + unat cnt \<le> page_count a")
    case False
    then have "find_run a cnt (2 ^ k) ao start = Some None"
      using n sum by (subst find_run.simps) (simp add: word_less_nat_alt word_le_nat_alt)
    then show ?thesis
      using False by (auto simp: search_result_def run_free_def)
  next
    case True
    then have guard: "start < ar_size a div PAGE_SIZE \<and> start + cnt \<le> ar_size a div PAGE_SIZE"
      using n sum assms(3) by (simp add: word_less_nat_alt word_le_nat_alt)
    obtain br where br: "broken_at (page_flags a) (unat start) 0 (unat cnt) = Some br"
        "case br of None \<Rightarrow> \<forall>j < unat cnt. page_is_free (page_flags a ! (unat start + j))
         | Some m \<Rightarrow> m < unat cnt \<and> \<not> page_is_free (page_flags a ! (unat start + m))"
      using broken_at_spec [of "unat start" "unat cnt" "page_flags a" 0] True w(1) by (auto cong: option.case_cong split: option.splits)
    show ?thesis
    proof (cases br)
      case None
      then have "find_run a cnt (2 ^ k) ao start = Some (Some start)"
        using guard br(1) by (subst find_run.simps) simp
      then show ?thesis
        using None br(2) True less.prems by (auto simp: search_result_def run_free_def)
    next
      case (Some m)
      then have m: "m < unat cnt" "\<not> page_is_free (page_flags a ! (unat start + m))"
        using br(2) by simp_all
      define y where "y = ROUNDUP (start - ao + of_nat m + 1) (2 ^ k) + ao"
      have step: "find_run a cnt (2 ^ k) ao start = find_run a cnt (2 ^ k) ao y"
        using guard br(1) Some by (subst find_run.simps) (simp add: y_def)
      have "unat start + m + 1 \<le> 2 ^ 20"
        using True n(2) m(1) by simp
      note b = next_start [OF assms(2) less.prems(2) this, folded y_def]
      have "2 ^ 22 - unat y < 2 ^ 22 - unat start"
        by (rule diff_less_mono2) (use b(1,2) in simp_all)
      from less.hyps [OF this b(4,3,2)] obtain r' where r': "find_run a cnt (2 ^ k) ao y = Some r'" "search_result a (unat cnt) (2 ^ k) (unat ao) (unat y) r'"
        by blast
      have "\<not> run_free a s' (unat cnt)" if s': "unat start \<le> s'" "s' < unat y" "2 ^ k dvd s' - unat ao" for s'
      proof
        assume f: "run_free a s' (unat cnt)"
        have "s' \<le> unat start + m"
          using b(5) [of s'] s' by (meson not_less)
        then show False
          using f m s'(1) unfolding run_free_def by (auto dest!: spec [of _ "unat start + m - s'"])
      qed
      then have "search_result a (unat cnt) (2 ^ k) (unat ao) (unat start) r'"
        using search_result_skip [OF r'(2)] b(1) by simp
      then show ?thesis
        using step r'(1) by auto
    qed
  qed
qed

section \<open>Aligned runs\<close>

definition aligned_run :: "pmm_arena \<Rightarrow> nat \<Rightarrow> nat \<Rightarrow> nat \<Rightarrow> bool" where
  "aligned_run a al s n \<longleftrightarrow> 2 ^ al dvd unat (ar_base a) + s * 4096 \<and> run_free a s n"

lemma align_iff:
  fixes b e s :: nat
  assumes "4096 dvd b" "0 < e"
  defines "R \<equiv> (b + 4096 * e - 1) div (4096 * e) * (4096 * e)"
  defines "ao \<equiv> (R - b) div 4096"
  shows "4096 * e dvd b + s * 4096 \<longleftrightarrow> ao \<le> s \<and> e dvd s - ao"
proof -
  have R: "4096 * e dvd R" "b \<le> R"
    using roundup_ge(1) [of "4096 * e" b] assms(2) by (simp_all add: R_def)
  have "4096 dvd R - b"
    using R(1) assms(1) by (intro dvd_diff_nat) (auto dest: dvd_mult_left)
  then have Rb: "R = b + ao * 4096"
    using R(2) by (simp add: ao_def)
  show ?thesis
  proof (cases "ao \<le> s")
    case True
    then have "b + s * 4096 = R + 4096 * (s - ao)"
      by (simp add: Rb algebra_simps)
    then have "4096 * e dvd b + s * 4096 \<longleftrightarrow> 4096 * e dvd 4096 * (s - ao)"
      using R(1) by (simp add: dvd_add_right_iff)
    then show ?thesis
      using True by (simp only: nat_mult_dvd_cancel_disj) simp
  next
    case False
    then have "b + s * 4096 < R"
      by (simp add: Rb)
    then have "\<not> 4096 * e dvd b + s * 4096"
      using roundup_least [of "4096 * e" b "b + s * 4096"] assms(2) by (auto simp: R_def)
    then show ?thesis
      using False by simp
  qed
qed

text \<open>Rounding the base of an arena either is exact, or wraps and comes out below the base.\<close>

lemma rounded_base:
  fixes b :: u32
  assumes "k < 32"
  shows "unat b + 2 ^ k - 1 < 2 ^ 32 \<Longrightarrow> unat (ROUNDUP b (2 ^ k)) = (unat b + 2 ^ k - 1) div 2 ^ k * 2 ^ k"
    and "\<not> unat b + 2 ^ k - 1 < 2 ^ 32 \<Longrightarrow> ROUNDUP b (2 ^ k) < b"
proof -
  show "unat (ROUNDUP b (2 ^ k)) = (unat b + 2 ^ k - 1) div 2 ^ k * 2 ^ k" if "unat b + 2 ^ k - 1 < 2 ^ 32"
    using that assms(1) by (simp add: ROUNDUP_nat)
  assume a: "\<not> unat b + 2 ^ k - 1 < 2 ^ 32"
  have k: "(2::nat) ^ k \<le> 2 ^ 31"
    using assms(1) power_increasing [of k 31 "2::nat"] by simp
  have "unat (b + (2 ^ k - 1)) = (unat b + (2 ^ k - 1)) mod 2 ^ 32"
    using unat_exp_minus_1 [of k, where 'a = 32] assms by (subst unat_word_ariths(1)) simp
  also have "... = unat b + (2 ^ k - 1) - 2 ^ 32"
    using a k unat_u32 [of b] by (simp add: mod_if)
  also have "... < unat b"
    using a k unat_u32 [of b] by simp
  finally have "b + (2 ^ k - 1) < b"
    by (simp add: word_less_nat_alt)
  moreover have "(b + (2 ^ k - 1)) AND NOT (2 ^ k - 1) \<le> b + (2 ^ k - 1)"
    by (rule word_and_le2)
  ultimately show "ROUNDUP b (2 ^ k) < b"
    unfolding ROUNDUP_def by (rule le_less_trans [rotated])
qed

definition misaligned :: "pmm_arena \<Rightarrow> nat \<Rightarrow> bool" where
  "misaligned a al \<longleftrightarrow> ROUNDUP (ar_base a) (2 ^ al) < ar_base a \<or> ROUNDUP (ar_base a) (2 ^ al) > ar_base a + ar_size a - 1"

lemma dvd_gap:
  fixes t d m :: nat
  assumes "t < m" "d dvd m" "d dvd t"
  shows "t + d \<le> m"
proof -
  obtain p q where pq: "t = d * p" "m = d * q" using assms(2,3) by blast
  then have "Suc p \<le> q" using assms(1) by (metis Suc_leI mult_less_cancel1)
  then have "d * Suc p \<le> d * q" by (rule mult_le_mono2)
  then show ?thesis by (simp add: pq)
qed

lemma misaligned_no_run:
  assumes "arena_wf a" "al < 32" "misaligned a al" "0 < n"
  shows "\<not> aligned_run a al s n"
proof
  assume r: "aligned_run a al s n"
  let ?t = "unat (ar_base a) + s * 4096"
  have w: "4096 dvd unat (ar_size a)" "unat (ar_base a) + unat (ar_size a) \<le> 2 ^ 32" "0 < ar_size a"
    using assms(1) by (auto simp: arena_wf_def)
  have t: "2 ^ al dvd ?t" "s < page_count a"
    using r assms(4) by (auto simp: aligned_run_def run_free_def)
  then have t2: "?t < unat (ar_base a) + unat (ar_size a)"
    using w(1) by (auto simp: page_count_def unat_div elim!: dvdE)
  then have "?t < 2 ^ 32"
    using w(2) by simp
  moreover have "(2::nat) ^ al dvd 2 ^ 32"
    using assms(2) by (intro le_imp_power_dvd) simp
  ultimately have "?t + 2 ^ al \<le> 2 ^ 32"
    using t(1) by (rule dvd_gap)
  then have wrap: "unat (ar_base a) + 2 ^ al - 1 < 2 ^ 32"
    by (simp add: less_imp_diff_less)
  have "unat (ROUNDUP (ar_base a) (2 ^ al)) \<le> ?t"
    using rounded_base(1) [OF assms(2) wrap] roundup_least [of "2 ^ al" "unat (ar_base a)" ?t] t(1) by simp
  moreover have "unat (ar_base a) \<le> unat (ROUNDUP (ar_base a) (2 ^ al))"
    using rounded_base(1) [OF assms(2) wrap] roundup_ge(1) [of "2 ^ al" "unat (ar_base a)"] by simp
  ultimately show False
    using assms(3) t2 unat_last [OF w(3,2)] by (auto simp: misaligned_def word_less_nat_alt)
qed

lemma aligned_search:
  assumes "arena_wf a" "12 \<le> al" "al < 32" "\<not> misaligned a al" "0 < unat cnt" "unat cnt \<le> 2 ^ 31"
  defines "ao \<equiv> (ROUNDUP (ar_base a) (2 ^ al) - ar_base a) div PAGE_SIZE"
  shows "\<exists>r. find_run a cnt (2 ^ (al - 12)) ao ao = Some r \<and>
    (case r of Some s \<Rightarrow> aligned_run a al (unat s) (unat cnt) \<and> (\<forall>s' < unat s. \<not> aligned_run a al s' (unat cnt))
     | None \<Rightarrow> \<forall>s. \<not> aligned_run a al s (unat cnt))"
proof -
  let ?b = "unat (ar_base a)" and ?e = "2 ^ (al - 12) :: nat"
  have e: "(2::nat) ^ al = 4096 * ?e"
    using assms(2) power_add [of "2::nat" 12 "al - 12"] by simp
  have b: "4096 dvd ?b"
    using assms(1) by (simp add: arena_wf_def)
  have nm: "\<not> ROUNDUP (ar_base a) (2 ^ al) < ar_base a"
    using assms(4) by (simp add: misaligned_def)
  have R: "unat (ROUNDUP (ar_base a) (2 ^ al)) = (?b + 4096 * ?e - 1) div (4096 * ?e) * (4096 * ?e)"
    using rounded_base [OF assms(3), of "ar_base a"] nm by (auto simp: e)
  have ao: "unat ao = ((?b + 4096 * ?e - 1) div (4096 * ?e) * (4096 * ?e) - ?b) div 4096"
    using nm unfolding ao_def by (simp add: unat_div unat_sub R)
  have iff: "2 ^ al dvd ?b + s * 4096 \<longleftrightarrow> unat ao \<le> s \<and> ?e dvd s - unat ao" for s
    unfolding e ao by (rule align_iff [OF b]) simp
  have "unat ao \<le> 2 ^ 20"
    using unat_u32 [of "ROUNDUP (ar_base a) (2 ^ al) - ar_base a"] by (simp add: ao_def unat_div)
  moreover have "al - 12 \<le> 19"
    using assms(3) by linarith
  ultimately obtain r where r: "find_run a cnt (2 ^ (al - 12)) ao ao = Some r" "search_result a (unat cnt) ?e (unat ao) (unat ao) r"
    using find_run_spec [OF assms(1) _ assms(5,6), of "al - 12" ao ao] by auto
  then show ?thesis
    unfolding search_result_def aligned_run_def iff by (cases r) auto
qed

definition has_run :: "nat \<Rightarrow> nat \<Rightarrow> pmm_arena \<Rightarrow> bool" where
  "has_run al n a \<longleftrightarrow> ar_flags a AND PMM_ARENA_FLAG_KMAP \<noteq> 0 \<and> (\<exists>s. aligned_run a al s n)"

text \<open>The first run of the first arena that has one.\<close>

definition first_run :: "nat \<Rightarrow> nat \<Rightarrow> pmm_arena list \<Rightarrow> pmm_arena \<Rightarrow> nat \<Rightarrow> bool" where
  "first_run al n as a s \<longleftrightarrow> (\<exists>xs ys. as = xs @ a # ys \<and> (\<forall>x \<in> set xs. \<not> has_run al n x)) \<and> has_run al n a \<and>
     aligned_run a al s n \<and> (\<forall>s' < s. \<not> aligned_run a al s' n)"

lemma first_run_hd: "has_run al n a \<Longrightarrow> aligned_run a al s n \<Longrightarrow> \<forall>s' < s. \<not> aligned_run a al s' n \<Longrightarrow> first_run al n (a # as) a s"
  unfolding first_run_def by (metis append_Nil empty_iff list.set(1))

lemma first_run_tl: "\<not> has_run al n a \<Longrightarrow> first_run al n as b s \<Longrightarrow> first_run al n (a # as) b s"
  unfolding first_run_def by (metis append_Cons set_ConsD)

definition contiguous_result :: "nat \<Rightarrow> nat \<Rightarrow> pmm_arena list \<Rightarrow> (u32 \<times> vm_page list) option \<Rightarrow> pmm_arena list \<Rightarrow> bool" where
  "contiguous_result al n as r bs = (case r of
     None \<Rightarrow> bs = as \<and> (\<forall>a \<in> set as. \<not> has_run al n a)
   | Some (pa, ps) \<Rightarrow> \<exists>a s. first_run al n as a s \<and> pa = ar_base a + of_nat s * PAGE_SIZE \<and>
       ps = map (Pair (ar_id a)) [s..<s + n] \<and> allocates ps as bs)"

lemma contiguous_result_skip:
  assumes "pmm_wf (a # as)" "contiguous_result al n as r bs" "\<not> has_run al n a"
  shows "contiguous_result al n (a # as) r (a # bs)"
  using assms first_run_tl [OF assms(3)] allocates_skip [OF assms(1)]
  by (fastforce simp: contiguous_result_def split: option.splits)

lemma contiguous_arena:
  assumes "pmm_wf (a # as)" "12 \<le> al" "al < 32" "0 < unat cnt" "unat cnt \<le> 2 ^ 31"
    and "ar_flags a AND PMM_ARENA_FLAG_KMAP \<noteq> 0" "\<not> misaligned a al"
    and "alloc_contiguous_loop cnt al as = Some (r, bs)" "contiguous_result al (unat cnt) as r bs"
  shows "\<exists>r bs. alloc_contiguous_loop cnt al (a # as) = Some (r, bs) \<and> contiguous_result al (unat cnt) (a # as) r bs"
proof -
  let ?ao = "(ROUNDUP (ar_base a) (2 ^ al) - ar_base a) div PAGE_SIZE"
  have w: "arena_wf a" "pmm_wf as"
    using assms(1) by (simp_all add: pmm_wf_Cons)
  obtain f where f: "find_run a cnt (2 ^ (al - 12)) ?ao ?ao = Some f"
    "case f of Some s \<Rightarrow> aligned_run a al (unat s) (unat cnt) \<and> (\<forall>s' < unat s. \<not> aligned_run a al s' (unat cnt))
     | None \<Rightarrow> \<forall>s. \<not> aligned_run a al s (unat cnt)"
    using aligned_search [OF w(1) assms(2,3,7,4,5)] by blast
  show ?thesis
  proof (cases f)
    case None
    then have "\<not> has_run al (unat cnt) a"
      using f(2) by (simp add: has_run_def)
    moreover have "alloc_contiguous_loop cnt al (a # as) = Some (r, a # bs)"
      using assms(6-8) f(1) None by (simp add: misaligned_def Let_def)
    ultimately show ?thesis
      using contiguous_result_skip [OF assms(1,9)] by blast
  next
    case (Some s)
    have s: "aligned_run a al (unat s) (unat cnt)" "\<forall>s' < unat s. \<not> aligned_run a al s' (unat cnt)"
      using f(2) Some by simp_all
    have "\<forall>j < unat cnt. unat s + j < page_count a \<and> page_is_free (page_flags a ! (unat s + j))"
      using s(1) by (auto simp: aligned_run_def run_free_def)
    then obtain b where t: "take_run (unat s) (unat cnt) a = Some (map (Pair (ar_id a)) [unat s..<unat s + unat cnt], b)"
      "allocates (map (Pair (ar_id a)) [unat s..<unat s + unat cnt]) [a] [b]"
      using take_run_allocates [OF w(1)] by blast
    have "first_run al (unat cnt) (a # as) a (unat s)"
      using assms(6) s by (intro first_run_hd) (auto simp: has_run_def)
    then have "contiguous_result al (unat cnt) (a # as)
        (Some (ar_base a + s * PAGE_SIZE, map (Pair (ar_id a)) [unat s..<unat s + unat cnt])) (b # as)"
      using allocates_stop [OF assms(1) t(2)] unfolding contiguous_result_def by (auto intro!: exI [of _ a] exI [of _ "unat s"])
    moreover have "alloc_contiguous_loop cnt al (a # as) =
        Some (Some (ar_base a + s * PAGE_SIZE, map (Pair (ar_id a)) [unat s..<unat s + unat cnt]), b # as)"
      using assms(6,7) f(1) Some t(1) by (simp add: misaligned_def Let_def)
    ultimately show ?thesis
      by blast
  qed
qed

lemma contiguous_loop:
  assumes "pmm_wf as" "12 \<le> al" "al < 32" "0 < unat cnt" "unat cnt \<le> 2 ^ 31"
  shows "\<exists>r bs. alloc_contiguous_loop cnt al as = Some (r, bs) \<and> contiguous_result al (unat cnt) as r bs"
  using assms(1)
proof (induction as)
  case (Cons a as)
  have w: "arena_wf a" "pmm_wf as"
    using Cons.prems by (simp_all add: pmm_wf_Cons)
  obtain r bs where IH: "alloc_contiguous_loop cnt al as = Some (r, bs)" "contiguous_result al (unat cnt) as r bs"
    using Cons.IH [OF w(2)] by blast
  show ?case
  proof (cases "ar_flags a AND PMM_ARENA_FLAG_KMAP = 0 \<or> misaligned a al")
    case True
    then have "\<not> has_run al (unat cnt) a"
      using misaligned_no_run [OF w(1) assms(3) _ assms(4)] by (auto simp: has_run_def)
    moreover have "alloc_contiguous_loop cnt al (a # as) = Some (r, a # bs)"
      using True IH(1) by (auto simp: misaligned_def Let_def)
    ultimately show ?thesis
      using contiguous_result_skip [OF Cons.prems IH(2)] by blast
  next
    case False
    then show ?thesis
      using contiguous_arena [OF Cons.prems assms(2-5) _ _ IH] by blast
  qed
qed (simp add: contiguous_result_def)

section \<open>Pages in use\<close>

lemma free_one_owned:
  assumes "pmm_wf as" "p \<in> all_pages as" "p \<notin> free_pages as"
  shows "\<exists>bs. free_one p as = Some bs \<and> pmm_wf bs \<and> map ar_id bs = map ar_id as \<and>
    free_pages bs = insert p (free_pages as) \<and> all_pages bs = all_pages as"
  using assms
proof (induction as)
  case (Cons a as)
  have w: "arena_wf a" "pmm_wf as" "ar_id a \<notin> ar_id ` set as"
    using Cons.prems(1) by (simp_all add: pmm_wf_Cons)
  show ?case
  proof (cases "PAGE_BELONGS_TO_ARENA p a")
    case True
    then obtain i where p: "p = (ar_id a, i)" "i < page_count a"
      by (cases p) (auto simp: PAGE_BELONGS_TO_ARENA_def)
    have f: "\<not> page_is_free (page_flags a ! i)"
      using Cons.prems(3) p arena_wfD(3) [OF w(1), of i] by auto
    then show ?thesis
      using True w p arena_wf_put_page [OF w(1) p(2) f] same_arena_take_put(2) [of a i]
      by (simp add: pmm_wf_Cons same_arena_def)
  next
    case False
    then have "p \<in> all_pages as" "p \<notin> free_pages as"
      using Cons.prems(2,3) by (auto simp: PAGE_BELONGS_TO_ARENA_def)
    then obtain bs where b: "free_one p as = Some bs" "pmm_wf bs" "map ar_id bs = map ar_id as"
        "free_pages bs = insert p (free_pages as)" "all_pages bs = all_pages as"
      using Cons.IH [OF w(2)] by blast
    have "ar_id ` set bs = ar_id ` set as"
      using b(3) by (metis set_map)
    then show ?thesis
      using False b w by (simp add: pmm_wf_Cons)
  qed
qed simp

lemma pmm_free_owned:
  assumes "pmm_wf as" "distinct ps" "set ps \<subseteq> all_pages as - free_pages as"
  shows "\<exists>bs. pmm_free ps as = Some (of_nat (length ps), bs) \<and> pmm_wf bs \<and>
    free_pages bs = set ps \<union> free_pages as \<and> all_pages bs = all_pages as"
  using assms
proof (induction ps arbitrary: as)
  case (Cons p ps)
  obtain as' where a: "free_one p as = Some as'" "pmm_wf as'" "free_pages as' = insert p (free_pages as)" "all_pages as' = all_pages as"
    using free_one_owned [of as p] Cons.prems by auto
  have "set ps \<subseteq> all_pages as' - free_pages as'"
    using Cons.prems(2,3) a by auto
  then obtain bs where b: "pmm_free ps as' = Some (of_nat (length ps), bs)" "pmm_wf bs"
      "free_pages bs = set ps \<union> free_pages as'" "all_pages bs = all_pages as'"
    using Cons.IH [OF a(2)] Cons.prems(2) by auto
  then show ?case
    using a by (auto simp: add.commute)
qed simp

lemma add_by_priority_set: "set (add_by_priority a as) = insert a (set as)"
  by (induction as) auto

lemma add_by_priority_pages:
  "free_pages (add_by_priority a as) = free_pages (a # as)" "all_pages (add_by_priority a as) = all_pages (a # as)"
  by (induction as) (simp_all add: Un_left_commute)

lemma add_by_priority_ids:
  assumes "distinct (map ar_id as)" "ar_id a \<notin> ar_id ` set as"
  shows "distinct (map ar_id (add_by_priority a as))"
  using assms by (induction as) (auto simp: add_by_priority_set)

lemma page_aligned_dvd: "IS_PAGE_ALIGNED x \<longleftrightarrow> 4096 dvd unat x"
proof -
  have "x AND (PAGE_SIZE - 1) = take_bit 12 x"
    by (simp add: take_bit_eq_mask mask_eq_exp_minus_1)
  then have "IS_PAGE_ALIGNED x \<longleftrightarrow> unat (take_bit 12 x) = 0"
    by (simp add: IS_PAGE_ALIGNED_def unat_eq_0)
  also have "unat (take_bit 12 x) = unat x mod 2 ^ 12"
    by (simp add: take_bit_eq_mod unat_mod)
  finally show ?thesis
    by (simp add: dvd_eq_mod_eq_0)
qed

lemma pmm_add_arena_wf:
  assumes "pmm_wf as" "pmm_add_arena ar as = Some (r, bs)" "ar_id ar \<notin> ar_id ` set as" "unat (ar_base ar) + unat (ar_size ar) \<le> 2 ^ 32"
  shows "pmm_wf bs \<and> (\<exists>F. free_pages bs = F \<union> free_pages as \<and> all_pages bs = F \<union> all_pages as \<and> fst ` F \<subseteq> {ar_id ar})"
proof (cases "ar_size ar = 0")
  case True
  then show ?thesis
    using assms(1,2) by (auto simp: pmm_add_arena_def split: if_splits intro!: exI [of _ "{}"])
next
  case False
  define n where "n = page_count ar"
  define a where "a = ar\<lparr>free_count := of_nat n, free_list := [0..<n], page_flags := replicate n 0\<rparr>"
  have b: "bs = add_by_priority a as" "4096 dvd unat (ar_base ar)" "4096 dvd unat (ar_size ar)"
    using assms(2) False by (auto simp: pmm_add_arena_def page_aligned_dvd Let_def a_def n_def split: if_splits)
  have a: "ar_id a = ar_id ar" "ar_base a = ar_base ar" "ar_size a = ar_size ar" "page_count a = n" "free_list a = [0..<n]"
      "page_flags a = replicate n 0" "free_count a = of_nat n"
    by (simp_all add: a_def page_count_def n_def)
  have "page_is_free 0"
    by (simp add: page_is_free_def)
  then have "set (free_list a) = {i. i < page_count a \<and> page_is_free (page_flags a ! i)}"
    by (auto simp: a)
  then have "arena_wf a"
    unfolding arena_wf_def using b(2,3) assms(4) False by (simp add: a word_gt_0)
  then have "pmm_wf bs"
    unfolding b(1) pmm_wf_def add_by_priority_set
    using assms(1,3) add_by_priority_ids [of as a] by (simp add: pmm_wf_def a)
  moreover have "free_pages bs = Pair (ar_id ar) ` {..<n} \<union> free_pages as" "all_pages bs = Pair (ar_id ar) ` {..<n} \<union> all_pages as"
    unfolding b(1) add_by_priority_pages by (simp_all add: a lessThan_atLeast0)
  moreover have "fst ` (Pair (ar_id ar) ` {..<n}) \<subseteq> {ar_id ar}"
    by auto
  ultimately show ?thesis
    by blast
qed

text \<open>
  Sequences of calls of the allocator, with the set of pages that were handed out and not
  yet freed. A caller frees only pages it was handed.
\<close>

inductive pmm_reach :: "pmm_arena list \<Rightarrow> vm_page set \<Rightarrow> bool" where
  boot: "pmm_reach [] {}"
| arena: "pmm_reach as U \<Longrightarrow> pmm_add_arena ar as = Some (r, bs) \<Longrightarrow> ar_id ar \<notin> ar_id ` set as \<Longrightarrow>
    unat (ar_base ar) + unat (ar_size ar) \<le> 2 ^ 32 \<Longrightarrow> pmm_reach bs U"
| pages: "pmm_reach as U \<Longrightarrow> pmm_alloc_pages cnt [] as = (n, ps, bs) \<Longrightarrow> pmm_reach bs (U \<union> set ps)"
| range: "pmm_reach as U \<Longrightarrow> pmm_alloc_range address cnt [] as = Some (n, ps, bs) \<Longrightarrow> pmm_reach bs (U \<union> set ps)"
| contiguous: "pmm_reach as U \<Longrightarrow> al < 32 \<Longrightarrow> cnt \<le> 2 ^ 31 \<Longrightarrow>
    pmm_alloc_contiguous cnt al as = Some (n, pa, ps, bs) \<Longrightarrow> pmm_reach bs (U \<union> set ps)"
| release: "pmm_reach as U \<Longrightarrow> distinct ps \<Longrightarrow> set ps \<subseteq> U \<Longrightarrow> pmm_free ps as = Some (n, bs) \<Longrightarrow> pmm_reach bs (U - set ps)"

definition pmm_inv :: "pmm_arena list \<Rightarrow> vm_page set \<Rightarrow> bool" where
  "pmm_inv as U \<longleftrightarrow> pmm_wf as \<and> U \<inter> free_pages as = {} \<and> U \<union> free_pages as = all_pages as"

lemma pmm_inv_allocates:
  assumes "pmm_inv as U" "allocates ps as bs"
  shows "pmm_inv bs (U \<union> set ps)"
proof -
  have a: "pmm_wf as" "U \<inter> free_pages as = {}" "U \<union> free_pages as = all_pages as"
    using assms(1) by (simp_all add: pmm_inv_def)
  note f = allocates_facts [OF a(1) assms(2)]
  show ?thesis
    unfolding pmm_inv_def f(2,3) using f(1,4) a(2,3) by blast
qed

lemma pmm_inv_pages:
  assumes "pmm_inv as U" "pmm_alloc_pages cnt [] as = (n, ps, bs)"
  shows "pmm_inv bs (U \<union> set ps)"
proof (cases "cnt = 0")
  case False
  then have "alloc_pages_loop (unat cnt) as = (ps, bs)"
    using assms(2) by (auto simp: pmm_alloc_pages_def split: prod.splits)
  then have "allocates ps as bs"
    using alloc_pages_loop_allocates assms(1) unfolding pmm_inv_def by blast
  then show ?thesis
    by (rule pmm_inv_allocates [OF assms(1)])
qed (use assms in \<open>simp add: pmm_alloc_pages_def\<close>)

lemma pmm_inv_range:
  assumes "pmm_inv as U" "pmm_alloc_range address cnt [] as = Some (n, ps, bs)"
  shows "pmm_inv bs (U \<union> set ps)"
proof (cases "cnt = 0")
  case False
  obtain qs cs where "alloc_range_loop (unat cnt) (ROUNDDOWN address PAGE_SIZE) as = Some (qs, cs)" "allocates qs as cs"
    using alloc_range_loop_allocates assms(1) unfolding pmm_inv_def by blast
  then show ?thesis
    using pmm_inv_allocates [OF assms(1)] assms(2) False by (simp add: pmm_alloc_range_def)
qed (use assms in \<open>simp add: pmm_alloc_range_def\<close>)

lemma pmm_alloc_contiguous_cases:
  assumes "pmm_wf as" "al < 32" "cnt \<noteq> 0" "cnt \<le> 2 ^ 31"
  obtains r bs where "contiguous_result (max al 12) (unat cnt) as r bs"
    "pmm_alloc_contiguous cnt al as = Some (case r of None \<Rightarrow> (0, None, [], bs) | Some (pa, ps) \<Rightarrow> (cnt, Some pa, ps, bs))"
proof -
  have "0 < unat cnt" "unat cnt \<le> 2 ^ 31"
    using assms(3,4) by (simp_all add: word_le_nat_alt unat_gt_0)
  then obtain r bs where "alloc_contiguous_loop cnt (max al 12) as = Some (r, bs)" "contiguous_result (max al 12) (unat cnt) as r bs"
    using contiguous_loop [OF assms(1), of "max al 12" cnt] assms(2) by auto
  then show ?thesis
    using assms(3) by (intro that) (auto simp: pmm_alloc_contiguous_def split: option.splits)
qed

lemma pmm_inv_contiguous:
  assumes "pmm_inv as U" "al < 32" "cnt \<le> 2 ^ 31" "pmm_alloc_contiguous cnt al as = Some (n, pa, ps, bs)"
  shows "pmm_inv bs (U \<union> set ps)"
proof (cases "cnt = 0")
  case False
  have "pmm_wf as" using assms(1) by (simp add: pmm_inv_def)
  then obtain r cs where r: "contiguous_result (max al 12) (unat cnt) as r cs"
    "pmm_alloc_contiguous cnt al as = Some (case r of None \<Rightarrow> (0, None, [], cs) | Some (pa, ps) \<Rightarrow> (cnt, Some pa, ps, cs))"
    using pmm_alloc_contiguous_cases assms(2,3) False by metis
  then show ?thesis
    using assms(1,4) pmm_inv_allocates [OF assms(1)] by (cases r) (auto simp: contiguous_result_def)
qed (use assms in \<open>simp add: pmm_alloc_contiguous_def\<close>)

lemma pmm_inv_free:
  assumes "pmm_inv as U" "distinct ps" "set ps \<subseteq> U"
  shows "\<exists>bs. pmm_free ps as = Some (of_nat (length ps), bs) \<and> pmm_inv bs (U - set ps) \<and> free_pages bs = set ps \<union> free_pages as"
proof -
  have a: "pmm_wf as" "U \<inter> free_pages as = {}" "U \<union> free_pages as = all_pages as"
    using assms(1) by (simp_all add: pmm_inv_def)
  have "set ps \<subseteq> all_pages as - free_pages as"
    using assms(3) a by blast
  then obtain bs where b: "pmm_free ps as = Some (of_nat (length ps), bs)" "pmm_wf bs"
      "free_pages bs = set ps \<union> free_pages as" "all_pages bs = all_pages as"
    using pmm_free_owned [OF a(1) assms(2)] by blast
  have "pmm_inv bs (U - set ps)"
    unfolding pmm_inv_def b(3,4) using b(2) a(2,3) assms(3) by blast
  then show ?thesis
    using b by blast
qed

lemma pmm_inv_arena:
  assumes "pmm_inv as U" "pmm_add_arena ar as = Some (r, bs)" "ar_id ar \<notin> ar_id ` set as" "unat (ar_base ar) + unat (ar_size ar) \<le> 2 ^ 32"
  shows "pmm_inv bs U"
proof -
  obtain F where "pmm_wf bs" "free_pages bs = F \<union> free_pages as" "all_pages bs = F \<union> all_pages as" "fst ` F \<subseteq> {ar_id ar}"
    using pmm_add_arena_wf [OF _ assms(2-4)] assms(1) by (auto simp: pmm_inv_def)
  moreover have "p \<notin> U" if "p \<in> F" for p
  proof -
    have "fst p = ar_id ar" using calculation(4) that by auto
    then have "p \<notin> all_pages as" using assms(3) unfolding all_pages_def by (auto simp: image_iff)
    then show ?thesis using assms(1) by (auto simp: pmm_inv_def)
  qed
  ultimately show ?thesis
    using assms(1) by (auto simp: pmm_inv_def)
qed

lemma pmm_reach_inv: "pmm_reach as U \<Longrightarrow> pmm_inv as U"
proof (induction rule: pmm_reach.induct)
  case (release as U ps n bs)
  then show ?case
    using pmm_inv_free [of as U ps] by auto
qed (simp_all add: pmm_inv_def [of "[]"] pmm_wf_def pmm_inv_arena pmm_inv_pages pmm_inv_range pmm_inv_contiguous)

text \<open>
  C22: Whatever the sequence of allocations and frees, the pages in use and the free pages
  partition the pages of the arenas, so no page is handed out twice; the free list, the
  flags and the count of every arena agree; and freeing pages in use never fails an
  assertion and makes exactly these free.
\<close>

theorem pmm_pages_partition:
  assumes "pmm_reach as U"
  shows "pmm_wf as \<and> U \<inter> free_pages as = {} \<and> U \<union> free_pages as = all_pages as \<and>
    (\<forall>ps. distinct ps \<and> set ps \<subseteq> U \<longrightarrow>
      (\<exists>bs. pmm_free ps as = Some (of_nat (length ps), bs) \<and> free_pages bs = set ps \<union> free_pages as))"
proof (intro conjI allI impI)
  note i = pmm_reach_inv [OF assms]
  show "pmm_wf as" "U \<inter> free_pages as = {}" "U \<union> free_pages as = all_pages as"
    using i by (simp_all add: pmm_inv_def)
  fix ps assume "distinct ps \<and> set ps \<subseteq> U"
  then show "\<exists>bs. pmm_free ps as = Some (of_nat (length ps), bs) \<and> free_pages bs = set ps \<union> free_pages as"
    using pmm_inv_free [OF i, of ps] by auto
qed

definition ex_arena :: "nat \<Rightarrow> u32 \<Rightarrow> u8 list \<Rightarrow> nat list \<Rightarrow> pmm_arena" where
  "ex_arena i n fl free = \<lparr>ar_id = i, ar_flags = PMM_ARENA_FLAG_KMAP, ar_priority = 0, ar_base = 0x3000 + of_nat i * 0x100000,
     ar_size = n * PAGE_SIZE, free_count = of_nat (length free), page_flags = fl, free_list = free\<rparr>"

lemma ex_arena_reach: "pmm_reach [ex_arena 0 4 [1, 1, 0, 0] [2, 3]] {(0, 0), (0, 1)}"
proof -
  have e: "replicate 4 (0 :: u8) = [0, 0, 0, 0]" "[0..<4] = [0, Suc 0, 2, 3]"
    by code_simp+
  have "pmm_reach [ex_arena 0 4 [0, 0, 0, 0] [0, 1, 2, 3]] {}"
    by (rule pmm_reach.arena [OF pmm_reach.boot, of "ex_arena 0 4 [] []" 0])
      (simp_all add: ex_arena_def pmm_add_arena_def IS_PAGE_ALIGNED_def page_count_def e)
  moreover have "pmm_alloc_pages 2 [] [ex_arena 0 4 [0, 0, 0, 0] [0, 1, 2, 3]] = (2, [(0, 0), (0, 1)], [ex_arena 0 4 [1, 1, 0, 0] [2, 3]])"
    by code_simp
  ultimately show ?thesis
    using pmm_reach.pages [of _ "{}" 2 2 "[(0, 0), (0, 1)]"] by simp
qed

theorem pmm_pages_partition_witness:
  "\<exists>bs. pmm_free [(0, 1)] [ex_arena 0 4 [1, 1, 0, 0] [2, 3]] = Some (1, bs) \<and>
    free_pages bs = {(0, 1)} \<union> free_pages [ex_arena 0 4 [1, 1, 0, 0] [2, 3]]"
  using pmm_pages_partition [OF ex_arena_reach] by (elim conjE allE [of _ "[(0, 1)]"]) simp

text \<open>
  C23: The search for a contiguous run returns, and it returns the first run: in the first
  arena, in order of priority, that has enough free pages in a row from an aligned
  address on, at the lowest such address. It fails only if no arena that is mapped into
  the kernel has such a run, and then nothing changes.
\<close>

theorem pmm_alloc_contiguous_first_fit:
  assumes "pmm_wf as" "al < 32" "cnt \<noteq> 0" "cnt \<le> 2 ^ 31"
  shows "if \<exists>a \<in> set as. has_run (max al 12) (unat cnt) a
    then \<exists>a s bs. first_run (max al 12) (unat cnt) as a s \<and>
      pmm_alloc_contiguous cnt al as = Some (cnt, Some (ar_base a + of_nat s * PAGE_SIZE), map (Pair (ar_id a)) [s..<s + unat cnt], bs) \<and>
      allocates (map (Pair (ar_id a)) [s..<s + unat cnt]) as bs
    else pmm_alloc_contiguous cnt al as = Some (0, None, [], as)"
proof -
  obtain r bs where r: "contiguous_result (max al 12) (unat cnt) as r bs"
    "pmm_alloc_contiguous cnt al as = Some (case r of None \<Rightarrow> (0, None, [], bs) | Some (pa, ps) \<Rightarrow> (cnt, Some pa, ps, bs))"
    by (rule pmm_alloc_contiguous_cases [OF assms])
  show ?thesis
  proof (cases r)
    case None
    then show ?thesis
      using r by (auto simp: contiguous_result_def)
  next
    case (Some x)
    then obtain a s where a: "first_run (max al 12) (unat cnt) as a s"
      "x = (ar_base a + of_nat s * PAGE_SIZE, map (Pair (ar_id a)) [s..<s + unat cnt])"
      "allocates (map (Pair (ar_id a)) [s..<s + unat cnt]) as bs"
      using r(1) by (cases x) (auto simp: contiguous_result_def)
    have "a \<in> set as \<and> has_run (max al 12) (unat cnt) a"
      using a(1) unfolding first_run_def by auto
    then show ?thesis
      using a r(2) Some by auto
  qed
qed

lemma ex_arena_wf: "pmm_wf [ex_arena 0 4 [1, 1, 0, 0] [2, 3]]"
  using pmm_reach_inv [OF ex_arena_reach] by (simp add: pmm_inv_def)

lemma ex_arena_run: "has_run 13 1 (ex_arena 0 4 [1, 1, 0, 0] [2, 3])"
  unfolding has_run_def aligned_run_def run_free_def
  by (intro conjI exI [of _ 3]) (simp_all add: ex_arena_def page_count_def page_is_free_def)

theorem pmm_alloc_contiguous_first_fit_witness:
  "\<exists>s bs. pmm_alloc_contiguous 1 13 [ex_arena 0 4 [1, 1, 0, 0] [2, 3]] = Some (1, Some (0x3000 + of_nat s * PAGE_SIZE), [(0, s)], bs)"
proof -
  have "\<exists>a s bs. first_run 13 1 [ex_arena 0 4 [1, 1, 0, 0] [2, 3]] a s \<and>
      pmm_alloc_contiguous 1 13 [ex_arena 0 4 [1, 1, 0, 0] [2, 3]] =
        Some (1, Some (ar_base a + of_nat s * PAGE_SIZE), map (Pair (ar_id a)) [s..<s + 1], bs)"
    using pmm_alloc_contiguous_first_fit [OF ex_arena_wf, of 13 1] ex_arena_run by auto
  moreover have "a = ex_arena 0 4 [1, 1, 0, 0] [2, 3]" if "first_run 13 1 [ex_arena 0 4 [1, 1, 0, 0] [2, 3]] a s" for a s
    using that by (auto simp: first_run_def Cons_eq_append_conv)
  ultimately show ?thesis
    by (fastforce simp: ex_arena_def)
qed

text \<open>
  C24: A request for more pages than the first arena has free takes these and stops, though
  the other arenas may have free pages: the loop leaves all arenas, not just the empty one.
\<close>

theorem pmm_alloc_pages_first_arena_only:
  assumes "pmm_wf (a # as)" "length (free_list a) < unat cnt"
  shows "\<exists>b. pmm_alloc_pages cnt list (a # as) =
    (of_nat (length (free_list a)), list @ map (Pair (ar_id a)) (free_list a), b # as)"
proof -
  obtain b where "pages_from_arena (unat cnt) a = (map (Pair (ar_id a)) (free_list a), True, b)"
    using pages_from_arena_spec [of a "unat cnt"] assms by (auto simp: pmm_wf_Cons)
  then show ?thesis
    using assms(2) by (auto simp: pmm_alloc_pages_def)
qed

lemma ex_arenas_wf: "pmm_wf [ex_arena 0 1 [0] [0], ex_arena 1 4 [1, 1, 0, 0] [2, 3]]"
proof -
  have "{i. i < 4 \<and> page_is_free ([1, 1, 0, 0] ! i)} = {2, 3}" "{i. i < Suc 0 \<and> page_is_free ([0] ! i)} = {0}"
    by (auto simp: page_is_free_def less_Suc_eq numeral_eq_Suc)
  then show ?thesis
    by (auto simp: pmm_wf_def arena_wf_def ex_arena_def page_count_def)
qed

theorem pmm_alloc_pages_first_arena_only_witness:
  "fst (pmm_alloc_pages 2 [] [ex_arena 0 1 [0] [0], ex_arena 1 4 [1, 1, 0, 0] [2, 3]]) = 1"
  using pmm_alloc_pages_first_arena_only [OF ex_arenas_wf, of 2 "[]"] by (auto simp: ex_arena_def)
end
