(* ===== verification/Vmm.thy ===== *)
theory Vmm
  imports Pmm "HOL-Library.Multiset"
begin

text \<open>
  The virtual memory manager, \<^verbatim>\<open>external/lk/kernel/vm/vmm.c\<close>: the kernel address space as
  a list of regions in the order of their addresses, the search for a free spot with the
  placement rule of \<^verbatim>\<open>arch/arm/arm/mmu.c\<close>, and mapping, reserving and freeing regions.
  The calls that change the page tables are recorded in order; their outcome is not looked
  at by this code. The lock of the manager is modelled as held or not by the caller.
\<close>

section \<open>Regions\<close>

abbreviation ARCH_MMU_FLAG_NS :: u32 where "ARCH_MMU_FLAG_NS \<equiv> 0x20"
abbreviation ARCH_MMU_FLAG_INVALID :: u32 where "ARCH_MMU_FLAG_INVALID \<equiv> 0x80"
abbreviation SECTION_SIZE :: u32 where "SECTION_SIZE \<equiv> 0x100000"
abbreviation VMM_FLAG_VALLOC_SPECIFIC :: u32 where "VMM_FLAG_VALLOC_SPECIFIC \<equiv> 0x1"
abbreviation VMM_REGION_FLAG_RESERVED :: u32 where "VMM_REGION_FLAG_RESERVED \<equiv> 0x1"
abbreviation VMM_REGION_FLAG_PHYSICAL :: u32 where "VMM_REGION_FLAG_PHYSICAL \<equiv> 0x2"
abbreviation ERR_OUT_OF_RANGE :: int where "ERR_OUT_OF_RANGE \<equiv> -37"

record vmm_region =
  rg_flags :: u32
  rg_mmu_flags :: u32
  rg_base :: u32
  rg_size :: u32
  rg_pages :: "vm_page list"

record vmm_aspace =
  as_base :: u32
  as_size :: u32
  region_list :: "vmm_region list"

datatype mmu_call = MmuMap u32 u32 u32 u32 | MmuUnmap u32 u32

record vm_state =
  aspace :: vmm_aspace
  arenas :: "pmm_arena list"
  vm_alloc :: "bool list"
  vmm_lock :: bool
  mmu_calls :: "mmu_call list"

definition vmm_init :: "u32 \<Rightarrow> u32 \<Rightarrow> vmm_aspace" where
  "vmm_init KERNEL_ASPACE_BASE KERNEL_ASPACE_SIZE =
     \<lparr>as_base = KERNEL_ASPACE_BASE, as_size = KERNEL_ASPACE_SIZE, region_list = []\<rparr>"

definition is_inside_aspace :: "vmm_aspace \<Rightarrow> u32 \<Rightarrow> bool" where
  "is_inside_aspace as vaddr = (vaddr \<ge> as_base as \<and> vaddr \<le> as_base as + as_size as - 1)"

definition is_region_inside_aspace :: "vmm_aspace \<Rightarrow> u32 \<Rightarrow> u32 \<Rightarrow> bool" where
  "is_region_inside_aspace as vaddr sz =
     (if \<not> is_inside_aspace as vaddr then False
      else if sz = 0 then True
      else if vaddr + sz - 1 < vaddr then False
      else if vaddr + sz - 1 > as_base as + as_size as - 1 then False
      else True)"

definition trim_to_aspace :: "vmm_aspace \<Rightarrow> u32 \<Rightarrow> u32 \<Rightarrow> u32 option" where
  "trim_to_aspace as vaddr sz = do {
     kassert (is_inside_aspace as vaddr);
     Some (if sz = 0 then sz
       else let offset = vaddr - as_base as;
                sz = (if offset + sz < offset then 0xFFFFFFFF - offset - 1 else sz)
            in if offset + sz \<ge> as_size as - 1 then as_size as - offset else sz)
   }"

definition alloc_region_struct :: "u32 \<Rightarrow> u32 \<Rightarrow> u32 \<Rightarrow> u32 \<Rightarrow> bool list \<Rightarrow> vmm_region option \<times> bool list" where
  "alloc_region_struct base sz flags arch_mmu_flags al =
     (let (ok, al) = next_alloc al in
      (if ok then Some \<lparr>rg_flags = flags, rg_mmu_flags = arch_mmu_flags, rg_base = base, rg_size = sz, rg_pages = []\<rparr> else None, al))"

section \<open>Placing a region\<close>

fun add_region_walk :: "vmm_region \<Rightarrow> u32 \<Rightarrow> vmm_region list \<Rightarrow> vmm_region list option" where
  "add_region_walk r r_end [] = None"
| "add_region_walk r r_end (x # xs) =
     (if rg_base r > rg_base x + rg_size x - 1 \<and> (xs = [] \<or> r_end < rg_base (hd xs)) then Some (x # r # xs)
      else map_option (Cons x) (add_region_walk r r_end xs))"

definition add_region_to_aspace :: "vmm_aspace \<Rightarrow> vmm_region \<Rightarrow> int \<times> vmm_aspace" where
  "add_region_to_aspace as r =
     (if rg_size r = 0 \<or> \<not> is_region_inside_aspace as (rg_base r) (rg_size r) then (ERR_OUT_OF_RANGE, as)
      else let r_end = rg_base r + rg_size r - 1; xs = region_list as in
        if xs = [] \<or> r_end < rg_base (hd xs) then (NO_ERROR, as\<lparr>region_list := r # xs\<rparr>)
        else case add_region_walk r r_end xs of
          Some ys \<Rightarrow> (NO_ERROR, as\<lparr>region_list := ys\<rparr>)
        | None \<Rightarrow> (ERR_NO_MEMORY, as))"

definition are_regions_compatible :: "u32 \<Rightarrow> u32 \<Rightarrow> bool" where
  "are_regions_compatible new_region_flags adjacent_region_flags =
     (new_region_flags AND ARCH_MMU_FLAG_NS = adjacent_region_flags AND ARCH_MMU_FLAG_NS)"

definition arch_mmu_pick_spot :: "u32 \<Rightarrow> u32 \<Rightarrow> u32 \<Rightarrow> u32 \<Rightarrow> u32 \<Rightarrow> u32 \<Rightarrow> u32 \<Rightarrow> u32" where
  "arch_mmu_pick_spot base prev_flags gend next_flags align sz flags =
     (let spot = (if align \<ge> SECTION_SIZE \<or> are_regions_compatible flags prev_flags then ROUNDUP base align
                  else ROUNDUP base SECTION_SIZE);
          spot_end = spot + sz - 1 in
      if spot_end < spot \<or> spot_end > gend then gend
      else if spot_end div SECTION_SIZE = gend div SECTION_SIZE \<and> \<not> are_regions_compatible flags next_flags then gend
      else spot)"

text \<open>The spot in the gap between two neighbours: \<open>None\<close> to go on with the next gap, \<open>-1\<close> to give up.\<close>

definition region_flags :: "vmm_region option \<Rightarrow> u32" where
  "region_flags r = (case r of Some r \<Rightarrow> rg_mmu_flags r | None \<Rightarrow> ARCH_MMU_FLAG_INVALID)"

definition try_gap :: "u32 \<Rightarrow> u32 \<Rightarrow> vmm_region option \<Rightarrow> vmm_region option \<Rightarrow> u32 \<Rightarrow> u32 \<Rightarrow> u32 \<Rightarrow> u32 option" where
  "try_gap gap_beg gap_end prv nxt align sz arch_mmu_flags =
     (let pva = arch_mmu_pick_spot gap_beg (region_flags prv) gap_end (region_flags nxt) align sz arch_mmu_flags in
      if pva < gap_beg then Some (- 1)
      else if pva < gap_end \<and> gap_end - pva + 1 \<ge> sz then Some pva
      else None)"

definition check_gap :: "vmm_aspace \<Rightarrow> vmm_region option \<Rightarrow> vmm_region option \<Rightarrow> u32 \<Rightarrow> u32 \<Rightarrow> u32 \<Rightarrow> u32 option" where
  "check_gap as prv nxt align sz arch_mmu_flags =
     (let gap_beg = (case prv of Some p \<Rightarrow> rg_base p + rg_size p | None \<Rightarrow> as_base as) in
      case nxt of
        Some n \<Rightarrow> if gap_beg = rg_base n then None else try_gap gap_beg (rg_base n - 1) prv nxt align sz arch_mmu_flags
      | None \<Rightarrow> if gap_beg = as_base as + as_size as then Some (- 1)
                else try_gap gap_beg (as_base as + as_size as - 1) prv nxt align sz arch_mmu_flags)"

text \<open>The walk over the gaps, with the number of regions before the gap.\<close>

fun alloc_spot_walk :: "vmm_aspace \<Rightarrow> vmm_region option \<Rightarrow> vmm_region list \<Rightarrow> nat \<Rightarrow> u32 \<Rightarrow> u32 \<Rightarrow> u32 \<Rightarrow> u32 \<times> nat" where
  "alloc_spot_walk as prv [] n align sz arch_mmu_flags =
     (case check_gap as prv None align sz arch_mmu_flags of Some spot \<Rightarrow> (spot, n) | None \<Rightarrow> (- 1, n))"
| "alloc_spot_walk as prv (r # rs) n align sz arch_mmu_flags =
     (case check_gap as prv (Some r) align sz arch_mmu_flags of
        Some spot \<Rightarrow> (spot, n)
      | None \<Rightarrow> alloc_spot_walk as (Some r) rs (Suc n) align sz arch_mmu_flags)"

definition alloc_spot :: "vmm_aspace \<Rightarrow> u32 \<Rightarrow> nat \<Rightarrow> u32 \<Rightarrow> (u32 \<times> nat) option" where
  "alloc_spot as sz align_pow2 arch_mmu_flags = do {
     kassert (sz > 0 \<and> IS_PAGE_ALIGNED sz);
     Some (alloc_spot_walk as None (region_list as) 0 (2 ^ max align_pow2 PAGE_SIZE_SHIFT) sz arch_mmu_flags)
   }"

definition list_add_at :: "nat \<Rightarrow> vmm_region \<Rightarrow> vmm_region list \<Rightarrow> vmm_region list" where
  "list_add_at n r xs = take n xs @ r # drop n xs"

definition alloc_region ::
  "u32 \<Rightarrow> u32 \<Rightarrow> nat \<Rightarrow> u32 \<Rightarrow> u32 \<Rightarrow> u32 \<Rightarrow> vm_state \<Rightarrow> (vmm_region option \<times> vm_state) option" where
  "alloc_region sz vaddr align_pow2 vmm_flags rflags arch_mmu_flags s =
     (let (r_opt, al) = alloc_region_struct vaddr sz rflags arch_mmu_flags (vm_alloc s);
          s = s\<lparr>vm_alloc := al\<rparr> in
      case r_opt of
        None \<Rightarrow> Some (None, s)
      | Some r \<Rightarrow>
          if vmm_flags AND VMM_FLAG_VALLOC_SPECIFIC \<noteq> 0 then
            let (ret, as) = add_region_to_aspace (aspace s) r in
            if ret < 0 then Some (None, s) else Some (Some r, s\<lparr>aspace := as\<rparr>)
          else do {
            (vaddr, n) \<leftarrow> alloc_spot (aspace s) sz align_pow2 arch_mmu_flags;
            (if vaddr = - 1 then Some (None, s)
             else let r = r\<lparr>rg_base := vaddr\<rparr>
                  in Some (Some r, s\<lparr>aspace := (aspace s)\<lparr>region_list := list_add_at n r (region_list (aspace s))\<rparr>\<rparr>))
          })"

section \<open>The operations\<close>

definition vmm_acquire :: "vm_state \<Rightarrow> vm_state option" where
  "vmm_acquire s = do { kassert (\<not> vmm_lock s); Some (s\<lparr>vmm_lock := True\<rparr>) }"

text \<open>Releasing a mutex that the caller does not hold is a panic.\<close>

definition vmm_release :: "vm_state \<Rightarrow> vm_state option" where
  "vmm_release s = do { kassert (vmm_lock s); Some (s\<lparr>vmm_lock := False\<rparr>) }"

text \<open>The flags the region is mapped with already are those \<^verbatim>\<open>arch_mmu_query\<close> finds in the page table.\<close>

definition vmm_reserve_space :: "(u32 \<Rightarrow> u32) \<Rightarrow> u32 \<Rightarrow> u32 \<Rightarrow> vm_state \<Rightarrow> (int \<times> vm_state) option" where
  "vmm_reserve_space arch_mmu_query sz vaddr s = do {
     kassert (IS_PAGE_ALIGNED vaddr);
     kassert (IS_PAGE_ALIGNED sz);
     (if sz = 0 then Some (NO_ERROR, s)
      else if \<not> is_inside_aspace (aspace s) vaddr then Some (ERR_OUT_OF_RANGE, s)
      else do {
        sz \<leftarrow> trim_to_aspace (aspace s) vaddr sz;
        s \<leftarrow> vmm_acquire s;
        (r, s) \<leftarrow> alloc_region sz vaddr 0 VMM_FLAG_VALLOC_SPECIFIC VMM_REGION_FLAG_RESERVED (arch_mmu_query vaddr) s;
        s \<leftarrow> vmm_release s;
        Some (if r \<noteq> None then NO_ERROR else ERR_NO_MEMORY, s)
      })
   }"

definition arch_mmu_map :: "u32 \<Rightarrow> u32 \<Rightarrow> u32 \<Rightarrow> u32 \<Rightarrow> vm_state \<Rightarrow> vm_state" where
  "arch_mmu_map va pa cnt flags s = s\<lparr>mmu_calls := mmu_calls s @ [MmuMap va pa cnt flags]\<rparr>"

definition arch_mmu_unmap :: "u32 \<Rightarrow> u32 \<Rightarrow> vm_state \<Rightarrow> vm_state" where
  "arch_mmu_unmap va cnt s = s\<lparr>mmu_calls := mmu_calls s @ [MmuUnmap va cnt]\<rparr>"

text \<open>The address for a specific spot is read from the variable of the caller, which must be given.\<close>

definition requested_spot :: "u32 \<Rightarrow> u32 option \<Rightarrow> u32 option" where
  "requested_spot vmm_flags ptr = (if vmm_flags AND VMM_FLAG_VALLOC_SPECIFIC \<noteq> 0 then ptr else Some 0)"

definition vmm_alloc_physical ::
  "u32 \<Rightarrow> u32 option \<Rightarrow> nat \<Rightarrow> u32 \<Rightarrow> u32 \<Rightarrow> u32 \<Rightarrow> vm_state \<Rightarrow> ((int \<times> u32 option) \<times> vm_state) option" where
  "vmm_alloc_physical sz ptr align_log2 paddr vmm_flags arch_mmu_flags s = do {
     kassert (IS_PAGE_ALIGNED paddr);
     kassert (IS_PAGE_ALIGNED sz);
     (if sz = 0 then Some ((NO_ERROR, ptr), s)
      else case requested_spot vmm_flags ptr of
        None \<Rightarrow> Some ((ERR_INVALID_ARGS, ptr), s)
      | Some vaddr \<Rightarrow> do {
          s \<leftarrow> vmm_acquire s;
          (r_opt, s) \<leftarrow> alloc_region sz vaddr align_log2 vmm_flags VMM_REGION_FLAG_PHYSICAL arch_mmu_flags s;
          (case r_opt of
             None \<Rightarrow> do { s \<leftarrow> vmm_release s; Some ((ERR_NO_MEMORY, ptr), s) }
           | Some r \<Rightarrow> do {
               let s = arch_mmu_map (rg_base r) paddr (sz div PAGE_SIZE) arch_mmu_flags s;
               s \<leftarrow> vmm_release s;
               Some ((NO_ERROR, map_option (\<lambda>_. rg_base r) ptr), s)
             })
        })
   }"

text \<open>Regions are known by their base; the pages of a new region are filled in after it was placed.\<close>

definition set_region_pages :: "u32 \<Rightarrow> vm_page list \<Rightarrow> vm_state \<Rightarrow> vm_state" where
  "set_region_pages base ps s = s\<lparr>aspace := (aspace s)\<lparr>region_list :=
     map (\<lambda>r. if rg_base r = base then r\<lparr>rg_pages := rg_pages r @ ps\<rparr> else r) (region_list (aspace s))\<rparr>\<rparr>"

definition free_pages_of :: "vm_page list \<Rightarrow> vm_state \<Rightarrow> vm_state option" where
  "free_pages_of ps s = do { (cnt, as) \<leftarrow> pmm_free ps (arenas s); Some (s\<lparr>arenas := as\<rparr>) }"

definition vmm_alloc_contiguous ::
  "u32 \<Rightarrow> u32 option \<Rightarrow> nat \<Rightarrow> u32 \<Rightarrow> u32 \<Rightarrow> vm_state \<Rightarrow> ((int \<times> u32 option) \<times> vm_state) option" where
  "vmm_alloc_contiguous sz ptr align_pow2 vmm_flags arch_mmu_flags s =
     (let sz = ROUNDUP sz PAGE_SIZE in
      if sz = 0 then Some ((ERR_INVALID_ARGS, ptr), s)
      else case requested_spot vmm_flags ptr of
        None \<Rightarrow> Some ((ERR_INVALID_ARGS, ptr), s)
      | Some vaddr \<Rightarrow> do {
          (cnt, pa_opt, page_list, as) \<leftarrow> pmm_alloc_contiguous (sz div PAGE_SIZE) align_pow2 (arenas s);
          let s = s\<lparr>arenas := as\<rparr>;
          (if cnt < sz div PAGE_SIZE then Some ((ERR_NO_MEMORY, ptr), s)
           else do {
             pa \<leftarrow> pa_opt;
             s \<leftarrow> vmm_acquire s;
             (r_opt, s) \<leftarrow> alloc_region sz vaddr align_pow2 vmm_flags VMM_REGION_FLAG_PHYSICAL arch_mmu_flags s;
             (case r_opt of
                None \<Rightarrow> do {
                  s \<leftarrow> vmm_release s;
                  s \<leftarrow> free_pages_of page_list s;
                  Some ((ERR_NO_MEMORY, ptr), s)
                }
              | Some r \<Rightarrow> do {
                  let s = arch_mmu_map (rg_base r) pa (sz div PAGE_SIZE) arch_mmu_flags s;
                  let s = set_region_pages (rg_base r) page_list s;
                  s \<leftarrow> vmm_release s;
                  Some ((NO_ERROR, map_option (\<lambda>_. rg_base r) ptr), s)
                })
           })
        })"

fun map_pages :: "u32 \<Rightarrow> u32 \<Rightarrow> u32 \<Rightarrow> vm_page list \<Rightarrow> vm_state \<Rightarrow> vm_state option" where
  "map_pages va rend flags [] s = Some s"
| "map_pages va rend flags (p # ps) s = do {
     kassert (va \<le> rend);
     let pa = page_to_address (arenas s) p;
     kassert (IS_PAGE_ALIGNED pa);
     map_pages (va + PAGE_SIZE) rend flags ps (arch_mmu_map va pa 1 flags s)
   }"

text \<open>When there are not enough pages this releases the lock before it was acquired.\<close>

definition vmm_alloc ::
  "u32 \<Rightarrow> u32 option \<Rightarrow> nat \<Rightarrow> u32 \<Rightarrow> u32 \<Rightarrow> vm_state \<Rightarrow> ((int \<times> u32 option) \<times> vm_state) option" where
  "vmm_alloc sz ptr align_pow2 vmm_flags arch_mmu_flags s =
     (let sz = ROUNDUP sz PAGE_SIZE in
      if sz = 0 then Some ((ERR_INVALID_ARGS, ptr), s)
      else case requested_spot vmm_flags ptr of
        None \<Rightarrow> Some ((ERR_INVALID_ARGS, ptr), s)
      | Some vaddr \<Rightarrow> do {
          let (cnt, page_list, as) = pmm_alloc_pages (sz div PAGE_SIZE) [] (arenas s);
          let s = s\<lparr>arenas := as\<rparr>;
          kassert (cnt \<le> sz);
          let err1 = (\<lambda>s. do {
            s \<leftarrow> vmm_release s;
            s \<leftarrow> free_pages_of page_list s;
            Some ((ERR_NO_MEMORY, ptr), s)
          });
          (if cnt < sz div PAGE_SIZE then err1 s
           else do {
             s \<leftarrow> vmm_acquire s;
             (r_opt, s) \<leftarrow> alloc_region sz vaddr align_pow2 vmm_flags VMM_REGION_FLAG_PHYSICAL arch_mmu_flags s;
             (case r_opt of
                None \<Rightarrow> err1 s
              | Some r \<Rightarrow> do {
                  kassert (IS_PAGE_ALIGNED (rg_base r));
                  s \<leftarrow> map_pages (rg_base r) (rg_base r + rg_size r - 1) arch_mmu_flags page_list s;
                  let s = set_region_pages (rg_base r) page_list s;
                  s \<leftarrow> vmm_release s;
                  Some ((NO_ERROR, map_option (\<lambda>_. rg_base r) ptr), s)
                })
           })
        })"

fun vmm_find_region :: "vmm_region list \<Rightarrow> u32 \<Rightarrow> vmm_region option" where
  "vmm_find_region [] vaddr = None"
| "vmm_find_region (r # rs) vaddr =
     (if vaddr \<ge> rg_base r \<and> vaddr \<le> rg_base r + rg_size r - 1 then Some r else vmm_find_region rs vaddr)"

definition vmm_free_region :: "u32 \<Rightarrow> vm_state \<Rightarrow> (int \<times> vm_state) option" where
  "vmm_free_region vaddr s = do {
     s \<leftarrow> vmm_acquire s;
     (case vmm_find_region (region_list (aspace s)) vaddr of
        None \<Rightarrow> do { s \<leftarrow> vmm_release s; Some (ERR_NOT_FOUND, s) }
      | Some r \<Rightarrow> do {
          let s = s\<lparr>aspace := (aspace s)\<lparr>region_list := remove1 r (region_list (aspace s))\<rparr>\<rparr>;
          let s = arch_mmu_unmap (rg_base r) (rg_size r div PAGE_SIZE) s;
          s \<leftarrow> vmm_release s;
          s \<leftarrow> free_pages_of (rg_pages r) s;
          Some (NO_ERROR, s)
        })
   }"


section \<open>Disjoint regions\<close>

definition rg_end :: "vmm_region \<Rightarrow> nat" where
  "rg_end r = unat (rg_base r) + unat (rg_size r)"

definition as_end :: "vmm_aspace \<Rightarrow> nat" where
  "as_end as = unat (as_base as) + unat (as_size as)"

definition region_ok :: "vmm_aspace \<Rightarrow> vmm_region \<Rightarrow> bool" where
  "region_ok as r \<longleftrightarrow> 0 < rg_size r \<and> unat (as_base as) \<le> unat (rg_base r) \<and> rg_end r \<le> as_end as"

definition before :: "vmm_region \<Rightarrow> vmm_region \<Rightarrow> bool" where
  "before r q \<longleftrightarrow> rg_end r \<le> unat (rg_base q)"

definition aspace_wf :: "vmm_aspace \<Rightarrow> bool" where
  "aspace_wf as \<longleftrightarrow> 0 < as_base as \<and> 0 < as_size as \<and> as_end as \<le> 2 ^ 32 \<and>
     (\<forall>r \<in> set (region_list as). region_ok as r) \<and> sorted_wrt before (region_list as)"

definition low_end :: "vmm_aspace \<Rightarrow> vmm_region option \<Rightarrow> nat" where
  "low_end as prv = (case prv of Some p \<Rightarrow> rg_end p | None \<Rightarrow> unat (as_base as))"

definition high_end :: "vmm_aspace \<Rightarrow> vmm_region option \<Rightarrow> nat" where
  "high_end as nxt = (case nxt of Some q \<Rightarrow> unat (rg_base q) | None \<Rightarrow> as_end as)"

text \<open>The region at the end of a list and the one at its front, if any.\<close>

definition last_opt :: "'a list \<Rightarrow> 'a option" where
  "last_opt xs = (if xs = [] then None else Some (last xs))"

definition hd_opt :: "'a list \<Rightarrow> 'a option" where
  "hd_opt xs = (case xs of [] \<Rightarrow> None | x # _ \<Rightarrow> Some x)"

lemma region_list_irrelevant [simp]:
  "region_ok (as\<lparr>region_list := rs\<rparr>) r \<longleftrightarrow> region_ok as r" "as_end (as\<lparr>region_list := rs\<rparr>) = as_end as"
  by (simp_all add: region_ok_def as_end_def)

lemma unat_rg_end:
  assumes "0 < rg_size r" "rg_end r \<le> 2 ^ 32"
  shows "unat (rg_base r + rg_size r - 1) = rg_end r - 1"
  using unat_last [OF assms(1)] assms(2) by (simp add: rg_end_def)

lemma region_size_pos: "0 < rg_size r \<Longrightarrow> unat (rg_base r) < rg_end r"
  by (simp add: rg_end_def word_less_nat_alt)

text \<open>A region can be put between two neighbours when it fits there.\<close>

lemma aspace_wf_insert:
  assumes wf: "aspace_wf as" and xs: "region_list as = xs @ ys" and r: "0 < rg_size r"
    and lo: "low_end as (last_opt xs) \<le> unat (rg_base r)" and hi: "rg_end r \<le> high_end as (hd_opt ys)"
  shows "aspace_wf (as\<lparr>region_list := xs @ r # ys\<rparr>)"
proof -
  have s: "sorted_wrt before (xs @ ys)" and ok: "\<forall>x \<in> set (xs @ ys). region_ok as x"
    using wf by (simp_all add: aspace_wf_def xs)
  have left: "before x r \<and> unat (as_base as) \<le> unat (rg_base r)" if "x \<in> set xs" for x
  proof -
    have "xs \<noteq> []" using that by auto
    then obtain us z where xs': "xs = us @ [z]" by (cases xs rule: rev_cases) auto
    then have "x = z \<or> before x z" using s that by (auto simp: sorted_wrt_append)
    moreover have "unat (rg_base z) < rg_end z" "unat (as_base as) \<le> unat (rg_base x)" "unat (rg_base x) < rg_end x"
      using ok that xs' region_size_pos by (auto simp: region_ok_def)
    ultimately show ?thesis
      using lo by (auto simp: low_end_def last_opt_def before_def xs')
  qed
  have right: "before r y \<and> rg_end r \<le> as_end as" if "y \<in> set ys" for y
  proof -
    have "ys \<noteq> []" using that by auto
    then obtain z zs where ys: "ys = z # zs" by (cases ys) auto
    then have "y = z \<or> before z y" using s that by (auto simp: sorted_wrt_append)
    moreover have "unat (rg_base z) < rg_end z" "unat (rg_base y) < rg_end y" "rg_end y \<le> as_end as"
      using ok that ys region_size_pos by (auto simp: region_ok_def)
    ultimately show ?thesis
      using hi by (auto simp: high_end_def hd_opt_def before_def ys)
  qed
  have "unat (as_base as) \<le> unat (rg_base r)"
    using lo left by (cases xs) (auto simp: low_end_def last_opt_def)
  moreover have "rg_end r \<le> as_end as"
    using hi right by (cases ys) (auto simp: high_end_def hd_opt_def)
  ultimately have "region_ok as r"
    using r by (simp add: region_ok_def)
  moreover have "sorted_wrt before (xs @ r # ys)"
    using s left right by (simp add: sorted_wrt_append)
  ultimately show ?thesis
    using wf ok by (simp add: aspace_wf_def)
qed

lemma aspace_wf_remove:
  assumes "aspace_wf as"
  shows "aspace_wf (as\<lparr>region_list := remove1 r (region_list as)\<rparr>)"
proof -
  have "sorted_wrt before (remove1 r xs)" if "sorted_wrt before xs" for xs
    using that by (induction xs) (auto dest: subsetD [OF set_remove1_subset])
  then show ?thesis
    using assms set_remove1_subset [of r "region_list as"]
    by (auto simp: aspace_wf_def)
qed

section \<open>The spot that is found\<close>

lemma try_gap_fits:
  assumes "try_gap gb ge prv nxt align sz fl = Some v" "v \<noteq> - 1" "0 < sz"
  shows "gb \<le> v" "unat v + unat sz \<le> unat ge + 1"
    and "v = arch_mmu_pick_spot gb (region_flags prv) ge (region_flags nxt) align sz fl" "v < ge"
proof -
  have v: "v = arch_mmu_pick_spot gb (region_flags prv) ge (region_flags nxt) align sz fl" "gb \<le> v" "v < ge" "sz \<le> ge - v + 1"
    using assms(1,2) by (auto simp: try_gap_def Let_def split: if_splits)
  show "v = arch_mmu_pick_spot gb (region_flags prv) ge (region_flags nxt) align sz fl" "gb \<le> v" "v < ge"
    using v by simp_all
  have d: "unat (ge - v) = unat ge - unat v"
    using v(3) by (simp add: unat_sub)
  have "ge - v + 1 \<noteq> 0"
    using v(4) assms(3) by (metis leD)
  then have "unat (ge - v + 1) = unat ge - unat v + 1"
    using d unatSuc [of "ge - v"] by (simp add: add.commute)
  then show "unat v + unat sz \<le> unat ge + 1"
    using v(3,4) by (simp add: word_le_nat_alt word_less_nat_alt)
qed

text \<open>The borders of a gap, as words and as numbers.\<close>

definition gap_beg :: "vmm_aspace \<Rightarrow> vmm_region option \<Rightarrow> u32" where
  "gap_beg as prv = (case prv of Some p \<Rightarrow> rg_base p + rg_size p | None \<Rightarrow> as_base as)"

definition gap_last :: "vmm_aspace \<Rightarrow> vmm_region option \<Rightarrow> u32" where
  "gap_last as nxt = (case nxt of Some q \<Rightarrow> rg_base q - 1 | None \<Rightarrow> as_base as + as_size as - 1)"

definition neighbours :: "vmm_aspace \<Rightarrow> vmm_region option \<Rightarrow> vmm_region option \<Rightarrow> bool" where
  "neighbours as prv nxt \<longleftrightarrow> 0 < as_base as \<and> 0 < as_size as \<and> as_end as \<le> 2 ^ 32 \<and> low_end as prv \<le> high_end as nxt \<and>
     (\<forall>p. prv = Some p \<longrightarrow> region_ok as p) \<and> (\<forall>q. nxt = Some q \<longrightarrow> region_ok as q)"

lemma check_gap_try:
  assumes "neighbours as prv nxt" "check_gap as prv nxt align sz fl = Some v" "v \<noteq> - 1"
  shows "unat (gap_beg as prv) = low_end as prv" "unat (gap_last as nxt) + 1 = high_end as nxt"
    and "try_gap (gap_beg as prv) (gap_last as nxt) prv nxt align sz fl = Some v"
proof -
  have ok: "0 < as_base as" "0 < as_size as" "as_end as \<le> 2 ^ 32" "low_end as prv \<le> high_end as nxt"
      "\<And>p. prv = Some p \<Longrightarrow> region_ok as p" "\<And>q. nxt = Some q \<Longrightarrow> region_ok as q"
    using assms(1) by (auto simp: neighbours_def)
  have tg: "try_gap (gap_beg as prv) (gap_last as nxt) prv nxt align sz fl = Some v"
    and ne: "case nxt of Some q \<Rightarrow> gap_beg as prv \<noteq> rg_base q | None \<Rightarrow> gap_beg as prv \<noteq> as_base as + as_size as"
    using assms(2,3) by (auto simp: check_gap_def gap_beg_def gap_last_def Let_def split: option.splits if_splits)
  show "try_gap (gap_beg as prv) (gap_last as nxt) prv nxt align sz fl = Some v"
    by (rule tg)
  have he: "high_end as nxt \<le> 2 ^ 32" "nxt \<noteq> None \<Longrightarrow> high_end as nxt < 2 ^ 32"
    using ok(3) unat_u32 by (auto simp: high_end_def split: option.splits intro: less_imp_le)
  have mod: "unat (gap_beg as prv) = low_end as prv mod 2 ^ 32"
    using unat_u32 by (auto simp: gap_beg_def low_end_def rg_end_def unat_word_ariths split: option.splits)
  have "low_end as prv < 2 ^ 32"
  proof (rule ccontr)
    assume "\<not> ?thesis"
    then have e: "low_end as prv = 2 ^ 32" "nxt = None"
      using ok(4) he by (auto, cases nxt, auto)
    then have "gap_beg as prv = 0" "as_end as = 2 ^ 32"
      using mod ok(3,4) by (auto simp: high_end_def unat_eq_0)
    moreover have "unat (as_base as + as_size as) = as_end as mod 2 ^ 32"
      by (simp add: as_end_def unat_word_ariths)
    ultimately show False
      using ne e(2) by (auto simp: unat_eq_0)
  qed
  then show lo: "unat (gap_beg as prv) = low_end as prv"
    using mod by simp
  show "unat (gap_last as nxt) + 1 = high_end as nxt"
  proof (cases nxt)
    case None
    then show ?thesis
      using unat_last [OF ok(2)] ok(2,3) by (simp add: gap_last_def high_end_def as_end_def word_less_nat_alt)
  next
    case (Some q)
    then have "gap_beg as prv \<noteq> rg_base q" "low_end as prv \<le> unat (rg_base q)"
      using ne ok(4) by (simp_all add: high_end_def)
    then have "rg_base q \<noteq> 0"
      using lo by (auto simp: unat_eq_0)
    then show ?thesis
      using Some unat_minus_one [of "rg_base q"] by (simp add: gap_last_def high_end_def unat_gt_0)
  qed
qed

lemma check_gap_fits:
  assumes "neighbours as prv nxt" "check_gap as prv nxt align sz fl = Some v" "v \<noteq> - 1" "0 < sz"
  shows "low_end as prv \<le> unat v" "unat v + unat sz \<le> high_end as nxt"
  using check_gap_try(1,2) [OF assms(1-3)] try_gap_fits(1,2) [OF check_gap_try(3) [OF assms(1-3)] assms(3,4)]
  by (auto simp: word_le_nat_alt)

lemma alloc_spot_walk_gap:
  assumes "alloc_spot_walk as prv rs n align sz fl = (v, m)" "v \<noteq> - 1"
  shows "\<exists>xs ys. rs = xs @ ys \<and> m = n + length xs \<and>
    check_gap as (if xs = [] then prv else Some (last xs)) (hd_opt ys) align sz fl = Some v"
  using assms
proof (induction rs arbitrary: prv n)
  case Nil
  then show ?case by (auto simp: hd_opt_def split: option.splits)
next
  case (Cons r rs)
  show ?case
  proof (cases "check_gap as prv (Some r) align sz fl")
    case None
    then obtain xs ys where "rs = xs @ ys" "m = Suc n + length xs"
        "check_gap as (if xs = [] then Some r else Some (last xs)) (hd_opt ys) align sz fl = Some v"
      using Cons.IH [of "Some r" "Suc n"] Cons.prems by auto
    then show ?thesis
      by (intro exI [of _ "r # xs"] exI [of _ ys]) (simp split: if_splits)
  next
    case (Some u)
    then show ?thesis
      using Cons.prems by (intro exI [of _ "[]"] exI [of _ "r # rs"]) (auto simp: hd_opt_def)
  qed
qed

lemma neighbours_split:
  assumes "aspace_wf as" "region_list as = xs @ ys"
  shows "neighbours as (last_opt xs) (hd_opt ys)"
proof -
  have w: "\<forall>r \<in> set (xs @ ys). region_ok as r" "sorted_wrt before (xs @ ys)" "0 < as_base as \<and> 0 < as_size as \<and> as_end as \<le> 2 ^ 32"
    using assms by (simp_all add: aspace_wf_def)
  have "region_ok as p" if "last_opt xs = Some p" for p
    using that w(1) by (auto simp: last_opt_def split: if_splits)
  moreover have "region_ok as q" if "hd_opt ys = Some q" for q
    using that w(1) by (auto simp: hd_opt_def split: list.splits)
  moreover have "low_end as (last_opt xs) \<le> high_end as (hd_opt ys)"
    using w(1,2) last_in_set [of xs] region_size_pos
    by (auto simp: low_end_def high_end_def last_opt_def hd_opt_def sorted_wrt_append before_def region_ok_def as_end_def split: list.splits)
  ultimately show ?thesis
    using w(3) by (simp add: neighbours_def)
qed

section \<open>Placing a region keeps the address space well formed\<close>

definition placed :: "vmm_aspace \<Rightarrow> vmm_region \<Rightarrow> vmm_aspace \<Rightarrow> bool" where
  "placed as r as' \<longleftrightarrow> (\<exists>xs ys. region_list as = xs @ ys \<and> as' = as\<lparr>region_list := xs @ r # ys\<rparr> \<and> 0 < rg_size r \<and>
     low_end as (last_opt xs) \<le> unat (rg_base r) \<and> rg_end r \<le> high_end as (hd_opt ys))"

lemma placed_wf: "aspace_wf as \<Longrightarrow> placed as r as' \<Longrightarrow> aspace_wf as'"
  by (auto simp: placed_def intro: aspace_wf_insert)

lemma add_region_walk_split:
  assumes "add_region_walk r e rs = Some ys"
  shows "\<exists>us vs. rs = us @ vs \<and> ys = us @ r # vs \<and> us \<noteq> [] \<and> rg_base (last us) + rg_size (last us) - 1 < rg_base r \<and>
    (vs = [] \<or> e < rg_base (hd vs))"
  using assms
proof (induction rs arbitrary: ys)
  case (Cons x xs)
  show ?case
  proof (cases "rg_base r > rg_base x + rg_size x - 1 \<and> (xs = [] \<or> e < rg_base (hd xs))")
    case True
    then show ?thesis
      using Cons.prems by (intro exI [of _ "[x]"] exI [of _ xs]) auto
  next
    case False
    then obtain zs where z: "add_region_walk r e xs = Some zs" "ys = x # zs"
      using Cons.prems by auto
    then obtain us vs where "xs = us @ vs" "zs = us @ r # vs" "us \<noteq> []" "rg_base (last us) + rg_size (last us) - 1 < rg_base r"
        "vs = [] \<or> e < rg_base (hd vs)"
      using Cons.IH by blast
    then show ?thesis
      using z by (intro exI [of _ "x # us"] exI [of _ vs]) auto
  qed
qed simp

lemma inside_aspace_nat:
  assumes "0 < as_size as" "as_end as \<le> 2 ^ 32" "0 < sz" "is_region_inside_aspace as v sz"
  shows "unat (as_base as) \<le> unat v" "unat v + unat sz \<le> as_end as"
proof -
  have e: "unat (as_base as + as_size as - 1) = as_end as - 1"
    using unat_last [OF assms(1)] assms(2) by (simp add: as_end_def)
  have i: "as_base as \<le> v" "v \<le> v + sz - 1" "v + sz - 1 \<le> as_base as + as_size as - 1"
    using assms(3,4) by (auto simp: is_region_inside_aspace_def is_inside_aspace_def not_less split: if_splits)
  show "unat (as_base as) \<le> unat v"
    using i(1) by (simp add: word_le_nat_alt)
  have s: "0 < unat sz" using assms(3) by (simp add: word_less_nat_alt)
  have m: "unat (sz - 1) = unat sz - 1"
    using assms(3) by (intro unat_minus_one) auto
  have "v + sz - 1 = v + (sz - 1)" by simp
  then have "unat (v + sz - 1) = (unat v + (unat sz - 1)) mod 2 ^ 32"
    using m by (simp only: unat_word_ariths(1)) simp
  moreover have "unat v \<le> unat (v + sz - 1)"
    using i(2) by (simp add: word_le_nat_alt)
  ultimately have "unat (v + sz - 1) = unat v + unat sz - 1"
    using s unat_u32 [of v] unat_u32 [of sz] by (cases "unat v + (unat sz - 1) < 2 ^ 32") (auto simp: mod_if)
  moreover have "0 < as_end as"
    using assms(1) by (simp add: as_end_def word_less_nat_alt)
  ultimately show "unat v + unat sz \<le> as_end as"
    using i(3) e s by (simp add: word_le_nat_alt)
qed

lemma add_region_placed:
  assumes "aspace_wf as"
  shows "(\<exists>as'. add_region_to_aspace as r = (NO_ERROR, as') \<and> placed as r as') \<or> (\<exists>ret < 0. add_region_to_aspace as r = (ret, as))"
proof (cases "rg_size r = 0 \<or> \<not> is_region_inside_aspace as (rg_base r) (rg_size r)")
  case True
  then show ?thesis by (simp add: add_region_to_aspace_def)
next
  case False
  then have sz: "0 < rg_size r" "is_region_inside_aspace as (rg_base r) (rg_size r)"
    by (simp_all add: word_gt_0)
  have w: "0 < as_size as" "as_end as \<le> 2 ^ 32" "\<forall>x \<in> set (region_list as). region_ok as x"
    using assms by (simp_all add: aspace_wf_def)
  note i = inside_aspace_nat [OF w(1,2) sz]
  have e: "unat (rg_base r + rg_size r - 1) = rg_end r - 1"
    using unat_rg_end [OF sz(1)] i(2) w(2) by (simp add: rg_end_def)
  have hi: "rg_end r \<le> high_end as (hd_opt vs)" if "vs = [] \<or> rg_base r + rg_size r - 1 < rg_base (hd vs)" for vs
    using that i(2) e region_size_pos [OF sz(1)]
    by (cases vs) (auto simp: high_end_def hd_opt_def rg_end_def word_less_nat_alt)
  let ?xs = "region_list as" and ?e = "rg_base r + rg_size r - 1"
  show ?thesis
  proof (cases "?xs = [] \<or> ?e < rg_base (hd ?xs)")
    case True
    then have "placed as r (as\<lparr>region_list := r # ?xs\<rparr>)"
      using sz(1) i(1) hi [of ?xs] unfolding placed_def
      by (intro exI [of _ "[]"] exI [of _ ?xs]) (simp add: low_end_def last_opt_def)
    then show ?thesis
      using False True by (auto simp: add_region_to_aspace_def Let_def)
  next
    case f: False
    show ?thesis
    proof (cases "add_region_walk r ?e ?xs")
      case None
      then show ?thesis using False f by (auto simp: add_region_to_aspace_def Let_def)
    next
      case (Some ys)
      obtain us vs where u: "?xs = us @ vs" "ys = us @ r # vs" "us \<noteq> []" "rg_base (last us) + rg_size (last us) - 1 < rg_base r"
          "vs = [] \<or> ?e < rg_base (hd vs)"
        using add_region_walk_split [OF Some] by blast
      have l: "region_ok as (last us)" using w(3) u(1,3) by simp
      then have "unat (rg_base (last us) + rg_size (last us) - 1) = rg_end (last us) - 1"
        using w(2) by (intro unat_rg_end) (auto simp: region_ok_def)
      then have "low_end as (last_opt us) \<le> unat (rg_base r)"
        using u(3,4) by (simp add: low_end_def last_opt_def word_less_nat_alt)
      then have "placed as r (as\<lparr>region_list := ys\<rparr>)"
        using u sz(1) hi [OF u(5)] unfolding placed_def by blast
      then show ?thesis
        using False f Some by (auto simp: add_region_to_aspace_def Let_def)
    qed
  qed
qed

lemma alloc_spot_placed:
  assumes "aspace_wf as" "alloc_spot as sz al fl = Some (v, n)" "v \<noteq> - 1"
  shows "\<exists>xs ys. region_list as = xs @ ys \<and> n = length xs \<and> 0 < sz \<and>
    check_gap as (last_opt xs) (hd_opt ys) (2 ^ max al PAGE_SIZE_SHIFT) sz fl = Some v \<and>
    low_end as (last_opt xs) \<le> unat v \<and> unat v + unat sz \<le> high_end as (hd_opt ys)"
proof -
  have sz: "0 < sz" "alloc_spot_walk as None (region_list as) 0 (2 ^ max al PAGE_SIZE_SHIFT) sz fl = (v, n)"
    using assms(2) by (auto simp: alloc_spot_def split: if_splits)
  then obtain xs ys where xs: "region_list as = xs @ ys" "n = length xs"
      "check_gap as (last_opt xs) (hd_opt ys) (2 ^ max al PAGE_SIZE_SHIFT) sz fl = Some v"
    using alloc_spot_walk_gap [OF sz(2) assms(3)] by (auto simp: last_opt_def)
  then show ?thesis
    using check_gap_fits [OF neighbours_split [OF assms(1) xs(1)] xs(3) assms(3) sz(1)] sz(1) by blast
qed

lemma alloc_region_cases:
  assumes "aspace_wf (aspace s)" "vf AND VMM_FLAG_VALLOC_SPECIFIC = 0 \<Longrightarrow> 0 < sz \<and> IS_PAGE_ALIGNED sz"
  obtains (fails) al where "alloc_region sz vaddr align vf rf mf s = Some (None, s\<lparr>vm_alloc := al\<rparr>)"
  | (places) r as al where "alloc_region sz vaddr align vf rf mf s = Some (Some r, s\<lparr>vm_alloc := al, aspace := as\<rparr>)"
      "placed (aspace s) r as" "rg_size r = sz" "rg_mmu_flags r = mf" "rg_flags r = rf" "rg_pages r = []"
      "vf AND VMM_FLAG_VALLOC_SPECIFIC \<noteq> 0 \<Longrightarrow> rg_base r = vaddr"
proof -
  obtain ok al where al: "next_alloc (vm_alloc s) = (ok, al)"
    by (metis surj_pair)
  let ?r = "\<lparr>rg_flags = rf, rg_mmu_flags = mf, rg_base = vaddr, rg_size = sz, rg_pages = []\<rparr>"
  consider "\<not> ok" | "ok" "vf AND VMM_FLAG_VALLOC_SPECIFIC \<noteq> 0" | "ok" "vf AND VMM_FLAG_VALLOC_SPECIFIC = 0"
    by blast
  then show ?thesis
  proof cases
    case 1
    then show ?thesis
      using al by (intro fails) (simp add: alloc_region_def alloc_region_struct_def)
  next
    case 2
    consider as where "add_region_to_aspace (aspace s) ?r = (NO_ERROR, as)" "placed (aspace s) ?r as"
      | ret where "add_region_to_aspace (aspace s) ?r = (ret, aspace s)" "ret < 0"
      using add_region_placed [OF assms(1), of ?r] by blast
    then show ?thesis
    proof cases
      case 1
      then show ?thesis
        using 2 al by (intro places [of ?r]) (simp_all add: alloc_region_def alloc_region_struct_def)
    next
      case f: 2
      then show ?thesis
        using 2 al by (intro fails) (simp add: alloc_region_def alloc_region_struct_def)
    qed
  next
    case 3
    obtain v n where "alloc_spot_walk (aspace s) None (region_list (aspace s)) 0 (2 ^ max align PAGE_SIZE_SHIFT) sz mf = (v, n)"
      by (metis surj_pair)
    then have v: "alloc_spot (aspace s) sz align mf = Some (v, n)"
      using assms(2) 3 by (simp add: alloc_spot_def)
    show ?thesis
    proof (cases "v = - 1")
      case True
      then show ?thesis
        using 3 al v by (intro fails) (simp add: alloc_region_def alloc_region_struct_def)
    next
      case False
      obtain xs ys where xs: "region_list (aspace s) = xs @ ys" "n = length xs"
          "low_end (aspace s) (last_opt xs) \<le> unat v" "unat v + unat sz \<le> high_end (aspace s) (hd_opt ys)"
        using alloc_spot_placed [OF assms(1) v False] by blast
      then have "placed (aspace s) (?r\<lparr>rg_base := v\<rparr>) ((aspace s)\<lparr>region_list := xs @ (?r\<lparr>rg_base := v\<rparr>) # ys\<rparr>)"
        using assms(2) 3 unfolding placed_def by (intro exI [of _ xs] exI [of _ ys]) (simp add: rg_end_def)
      then show ?thesis
        using 3 al v False xs(1,2)
        by (intro places [of "?r\<lparr>rg_base := v\<rparr>"]) (simp_all add: alloc_region_def alloc_region_struct_def list_add_at_def Let_def)
    qed
  qed
qed

section \<open>Secure and non-secure regions do not share a section\<close>

definition ns :: "vmm_region \<Rightarrow> bool" where
  "ns r \<longleftrightarrow> rg_mmu_flags r AND ARCH_MMU_FLAG_NS \<noteq> 0"

definition sec :: "nat \<Rightarrow> nat" where
  "sec a = a div 2 ^ 20"

definition sections_apart :: "vmm_region \<Rightarrow> vmm_region \<Rightarrow> bool" where
  "sections_apart r q \<longleftrightarrow> (ns r = ns q \<or> sec (rg_end r - 1) < sec (unat (rg_base q)))"

lemma sec_mono: "a \<le> b \<Longrightarrow> sec a \<le> sec b"
  by (simp add: sec_def div_le_mono)

lemma ns_compatible:
  "are_regions_compatible f g \<longleftrightarrow> (f AND ARCH_MMU_FLAG_NS \<noteq> 0) = (g AND ARCH_MMU_FLAG_NS \<noteq> 0)"
proof -
  have e: "x AND 2 ^ n = 0 \<or> x AND 2 ^ n = 2 ^ n" for x :: u32 and n
    by (cases "bit x n") (auto intro!: bit_eqI simp: bit_simps)
  have "x AND 0x20 = 0 \<or> x AND 0x20 = 0x20" for x :: u32
    using e [of x 5] by simp
  from this [of f] this [of g] show ?thesis
    by (auto simp: are_regions_compatible_def)
qed

text \<open>An aligned spot that is not compatible with its neighbours is in other sections than they are.\<close>

lemma pick_spot_sections:
  assumes "v = arch_mmu_pick_spot b pf e nf (2 ^ k) sz fl" "b \<le> v" "v < e" "k < 32" "0 < sz" "unat v + unat sz \<le> unat e + 1"
  shows "\<not> are_regions_compatible fl pf \<Longrightarrow> 0 < b \<Longrightarrow> sec (unat b - 1) < sec (unat v)"
    and "\<not> are_regions_compatible fl nf \<Longrightarrow> sec (unat v + unat sz - 1) < sec (unat e)"
proof -
  let ?spot = "if (2 ^ k :: u32) \<ge> SECTION_SIZE \<or> are_regions_compatible fl pf then ROUNDUP b (2 ^ k) else ROUNDUP b SECTION_SIZE"
  have v: "v = ?spot" "(v + sz - 1) div SECTION_SIZE \<noteq> e div SECTION_SIZE \<or> are_regions_compatible fl nf"
    using assms(1,3) unfolding arch_mmu_pick_spot_def Let_def by (auto split: if_splits)
  show "sec (unat b - 1) < sec (unat v)" if f: "\<not> are_regions_compatible fl pf" "0 < b"
  proof -
    obtain d where d: "20 \<le> d" "d < 32" "v = ROUNDUP b (2 ^ d)"
    proof (cases "(2 ^ k :: u32) \<ge> SECTION_SIZE")
      case True
      have "20 \<le> k"
      proof (rule ccontr)
        assume "\<not> 20 \<le> k"
        then have "(2::nat) ^ k < 2 ^ 20" by (intro power_strict_increasing) simp_all
        moreover have "unat (of_nat (2 ^ k) :: u32) \<le> 2 ^ k" by (simp only: unsigned_of_nat of_nat_id take_bit_nat_less_eq_self)
        ultimately show False using True by (simp add: word_le_nat_alt)
      qed
      then show ?thesis using that [of k] v(1) True assms(4) by simp
    next
      case False
      then show ?thesis using that [of 20] v(1) f(1) by simp
    qed
    have "\<not> ROUNDUP b (2 ^ d) < b" using assms(2) d(3) by simp
    then have "unat v = (unat b + 2 ^ d - 1) div 2 ^ d * 2 ^ d"
      using rounded_base [OF d(2), of b] d(3) by auto
    moreover have "(2::nat) ^ 20 dvd 2 ^ d" using d(1) by (rule le_imp_power_dvd)
    ultimately have "2 ^ 20 dvd unat v" by (metis dvd_mult)
    moreover have "unat b - 1 < unat v" using assms(2) f(2) by (simp add: word_le_nat_alt word_less_nat_alt)
    ultimately show ?thesis unfolding sec_def by (auto simp: div_less_iff_less_mult)
  qed
  show "sec (unat v + unat sz - 1) < sec (unat e)" if f: "\<not> are_regions_compatible fl nf"
  proof -
    have l: "unat (v + sz - 1) = unat v + unat sz - 1"
      using assms(5,6) unat_u32 [of e] by (intro unat_last) auto
    have "unat ((v + sz - 1) div SECTION_SIZE) \<noteq> unat (e div SECTION_SIZE)"
      using v(2) f unsigned_word_eqI by metis
    then have "sec (unat v + unat sz - 1) \<noteq> sec (unat e)"
      by (simp add: unat_div l sec_def)
    moreover have "sec (unat v + unat sz - 1) \<le> sec (unat e)"
      using assms(6) by (intro sec_mono) simp
    ultimately show ?thesis by simp
  qed
qed

lemma compatible_ns: "are_regions_compatible (rg_mmu_flags r) (rg_mmu_flags q) \<longleftrightarrow> ns r = ns q"
  by (auto simp: ns_compatible ns_def)

text \<open>A region in a gap that is in no section of an incompatible neighbour is in no section of any incompatible region.\<close>

lemma sections_apart_insert:
  assumes wf: "aspace_wf (as\<lparr>region_list := xs @ r # ys\<rparr>)" and s: "sorted_wrt sections_apart (xs @ ys)"
    and left: "\<And>p. last_opt xs = Some p \<Longrightarrow> sections_apart p r" and right: "\<And>q. hd_opt ys = Some q \<Longrightarrow> sections_apart r q"
  shows "sorted_wrt sections_apart (xs @ r # ys)"
proof -
  have b: "sorted_wrt before (xs @ r # ys)" and ok: "\<And>x. x \<in> set (xs @ r # ys) \<Longrightarrow> unat (rg_base x) < rg_end x"
    using wf region_size_pos by (auto simp: aspace_wf_def region_ok_def)
  have "sections_apart x r" if x: "x \<in> set xs" for x
  proof -
    have "xs \<noteq> []" using x by auto
    then obtain us p where xs: "xs = us @ [p]" by (cases xs rule: rev_cases) auto
    have p: "sections_apart p r" using left xs by (simp add: last_opt_def)
    have "sec (unat (rg_base p)) \<le> sec (rg_end p - 1)" "sec (unat (rg_base p)) \<le> sec (unat (rg_base r))"
      using b ok [of p] xs by (auto intro!: sec_mono simp: sorted_wrt_append before_def)
    moreover have "x = p \<or> sections_apart x p \<and> rg_end x \<le> rg_end p"
      using x xs s b ok [of p] by (auto simp: sorted_wrt_append before_def)
    moreover have "sec (rg_end x - 1) \<le> sec (rg_end p - 1)" if "rg_end x \<le> rg_end p"
      using that by (intro sec_mono) simp
    ultimately show ?thesis
      using p by (auto simp: sections_apart_def)
  qed
  moreover have "sections_apart r y" if y: "y \<in> set ys" for y
  proof -
    have "ys \<noteq> []" using y by auto
    then obtain q vs where ys: "ys = q # vs" by (cases ys) auto
    have q: "sections_apart r q" using right ys by (simp add: hd_opt_def)
    have "sec (rg_end r - 1) \<le> sec (unat (rg_base q))" "sec (unat (rg_base q)) \<le> sec (rg_end q - 1)"
      using b ok [of q] ok [of r] ys by (auto intro!: sec_mono simp: sorted_wrt_append before_def)
    moreover have "y = q \<or> sections_apart q y \<and> unat (rg_base q) \<le> unat (rg_base y)"
      using y ys s b ok [of q] by (auto simp: sorted_wrt_append before_def)
    moreover have "sec (unat (rg_base q)) \<le> sec (unat (rg_base y))" if "unat (rg_base q) \<le> unat (rg_base y)"
      using that by (intro sec_mono)
    ultimately show ?thesis
      using q by (auto simp: sections_apart_def)
  qed
  ultimately show ?thesis
    using s by (simp add: sorted_wrt_append)
qed

lemma alloc_spot_sections:
  assumes "aspace_wf as" "sorted_wrt sections_apart (region_list as)" "al < 32"
    and "alloc_spot as (rg_size r) al (rg_mmu_flags r) = Some (rg_base r, n)" "rg_base r \<noteq> - 1"
  shows "sorted_wrt sections_apart (list_add_at n r (region_list as))"
proof -
  obtain xs ys where x: "region_list as = xs @ ys" "n = length xs" "0 < rg_size r"
      "check_gap as (last_opt xs) (hd_opt ys) (2 ^ max al PAGE_SIZE_SHIFT) (rg_size r) (rg_mmu_flags r) = Some (rg_base r)"
      "low_end as (last_opt xs) \<le> unat (rg_base r)" "rg_end r \<le> high_end as (hd_opt ys)"
    using alloc_spot_placed [OF assms(1,4,5)] unfolding rg_end_def by blast
  note nb = neighbours_split [OF assms(1) x(1)]
  note g = check_gap_try [OF nb x(4) assms(5)]
  note t = try_gap_fits [OF g(3) assms(5) x(3)]
  note ps = pick_spot_sections [OF t(3,1,4) _ x(3) t(2)]
  have "sections_apart p r" if "last_opt xs = Some p" for p
  proof -
    have "rg_end p = unat (gap_beg as (last_opt xs))" "0 < rg_end p"
      using g(1) that nb region_size_pos [of p] by (auto simp: low_end_def neighbours_def region_ok_def)
    then show ?thesis
      using ps(1) that assms(3) by (auto simp: sections_apart_def region_flags_def compatible_ns word_less_nat_alt)
  qed
  moreover have "sections_apart r q" if "hd_opt ys = Some q" for q
  proof -
    have "sec (unat (gap_last as (hd_opt ys))) \<le> sec (unat (rg_base q))"
      using g(2) that by (intro sec_mono) (simp add: high_end_def)
    then show ?thesis
      using ps(2) that assms(3)
      by (cases "ns r = ns q") (simp_all add: sections_apart_def region_flags_def compatible_ns rg_end_def)
  qed
  ultimately show ?thesis
    using sections_apart_insert [OF aspace_wf_insert [OF assms(1) x(1,3,5,6)]] assms(2) x(1,2) by (simp add: list_add_at_def)
qed

section \<open>Regions and the pages behind them\<close>

text \<open>
  The invariant between calls: the regions are in order and disjoint, the lock is free,
  and the pages in use are those behind the regions and those \<open>R\<close> that are used elsewhere,
  each once.
\<close>

definition vm_pages :: "vm_state \<Rightarrow> vm_page list" where
  "vm_pages s = concat (map rg_pages (region_list (aspace s)))"

definition vm_inv :: "vm_page set \<Rightarrow> vm_state \<Rightarrow> bool" where
  "vm_inv R s \<longleftrightarrow> aspace_wf (aspace s) \<and> \<not> vmm_lock s \<and> distinct (vm_pages s) \<and> R \<inter> set (vm_pages s) = {} \<and>
     pmm_inv (arenas s) (R \<union> set (vm_pages s))"

lemma vm_invD:
  assumes "vm_inv R s"
  shows "aspace_wf (aspace s)" "\<not> vmm_lock s" "distinct (vm_pages s)" "R \<inter> set (vm_pages s) = {}" "pmm_inv (arenas s) (R \<union> set (vm_pages s))"
  using assms by (simp_all add: vm_inv_def)

lemma vmm_lock_ops [simp]:
  "vmm_acquire s = (if vmm_lock s then None else Some (s\<lparr>vmm_lock := True\<rparr>))"
  "vmm_release s = (if vmm_lock s then Some (s\<lparr>vmm_lock := False\<rparr>) else None)"
  by (simp_all add: vmm_acquire_def vmm_release_def)

lemma mmu_ops [simp]:
  "aspace (arch_mmu_map va pa n fl s) = aspace s" "arenas (arch_mmu_map va pa n fl s) = arenas s"
  "vmm_lock (arch_mmu_map va pa n fl s) = vmm_lock s" "vm_alloc (arch_mmu_map va pa n fl s) = vm_alloc s"
  "aspace (arch_mmu_unmap va n s) = aspace s" "arenas (arch_mmu_unmap va n s) = arenas s"
  "vmm_lock (arch_mmu_unmap va n s) = vmm_lock s" "vm_alloc (arch_mmu_unmap va n s) = vm_alloc s"
  by (simp_all add: arch_mmu_map_def arch_mmu_unmap_def)

lemma vm_inv_cong:
  assumes "vm_inv R s" "aspace s' = aspace s" "arenas s' = arenas s" "\<not> vmm_lock s'"
  shows "vm_inv R s'"
  using assms by (simp add: vm_inv_def vm_pages_def)

lemma placed_pages:
  assumes "placed (aspace s) r as" "rg_pages r = ps" "aspace s' = as"
  shows "set (vm_pages s') = set ps \<union> set (vm_pages s)"
    and "distinct (vm_pages s') \<longleftrightarrow> distinct ps \<and> distinct (vm_pages s) \<and> set ps \<inter> set (vm_pages s) = {}"
proof -
  have m: "mset (vm_pages s') = mset (ps @ vm_pages s)"
    using assms by (auto simp: placed_def vm_pages_def)
  show "set (vm_pages s') = set ps \<union> set (vm_pages s)"
    using mset_eq_setD [OF m] by simp
  show "distinct (vm_pages s') \<longleftrightarrow> distinct ps \<and> distinct (vm_pages s) \<and> set ps \<inter> set (vm_pages s) = {}"
    using mset_eq_imp_distinct_iff [OF m] by simp
qed

lemma vm_inv_placed:
  assumes "vm_inv R s" "placed (aspace s) r as" "aspace s' = as" "arenas s' = bs" "\<not> vmm_lock s'"
    and "allocates (rg_pages r) (arenas s) bs"
  shows "vm_inv R s'"
proof -
  note i = vm_invD [OF assms(1)]
  have w: "pmm_wf (arenas s)" and d: "(R \<union> set (vm_pages s)) \<inter> free_pages (arenas s) = {}"
    using i(5) by (simp_all add: pmm_inv_def)
  note a = allocates_facts [OF w assms(6)]
  note p = placed_pages [OF assms(2) refl assms(3)]
  have "pmm_inv bs (R \<union> set (vm_pages s) \<union> set (rg_pages r))"
    by (rule pmm_inv_allocates [OF i(5) assms(6)])
  then have "pmm_inv (arenas s') (R \<union> set (vm_pages s'))"
    by (simp add: p(1) assms(4) Un_ac)
  moreover have "aspace_wf (aspace s')"
    using placed_wf [OF i(1) assms(2)] assms(3) by simp
  moreover have "distinct (vm_pages s')" "R \<inter> set (vm_pages s') = {}"
    unfolding p using i(3,4) a(4,5) d by blast+
  ultimately show ?thesis
    using assms(5) by (simp add: vm_inv_def)
qed

lemma alloc_region_locked:
  "alloc_region sz vaddr align vf rf mf (s\<lparr>vmm_lock := l\<rparr>) =
     map_option (apsnd (vmm_lock_update (\<lambda>_. l))) (alloc_region sz vaddr align vf rf mf s)"
  by (cases "alloc_spot (aspace s) sz align mf") (auto simp: alloc_region_def Let_def split: prod.splits option.splits)

lemma alloc_region_aligned:
  assumes "aspace_wf (aspace s)" "0 < sz" "IS_PAGE_ALIGNED sz"
  obtains (fails) al where "alloc_region sz vaddr align vf rf mf s = Some (None, s\<lparr>vm_alloc := al\<rparr>)"
  | (places) r as al where "alloc_region sz vaddr align vf rf mf s = Some (Some r, s\<lparr>vm_alloc := al, aspace := as\<rparr>)"
      "placed (aspace s) r as" "rg_size r = sz" "rg_mmu_flags r = mf" "rg_pages r = []"
  by (rule alloc_region_cases [OF assms(1), of vf sz vaddr align rf mf]) (use assms(2,3) in blast)+

lemma vmm_alloc_physical_cases:
  assumes "vm_inv R s" "IS_PAGE_ALIGNED paddr" "IS_PAGE_ALIGNED sz" "sz \<noteq> 0" "requested_spot vf ptr = Some vaddr"
  obtains (fails) al where "vmm_alloc_physical sz ptr align paddr vf mf s = Some ((ERR_NO_MEMORY, ptr), s\<lparr>vm_alloc := al\<rparr>)"
  | (maps) r as al where "vmm_alloc_physical sz ptr align paddr vf mf s =
        Some ((NO_ERROR, map_option (\<lambda>_. rg_base r) ptr), arch_mmu_map (rg_base r) paddr (sz div PAGE_SIZE) mf (s\<lparr>vm_alloc := al, aspace := as\<rparr>))"
      "placed (aspace s) r as" "rg_size r = sz" "rg_mmu_flags r = mf" "rg_pages r = []"
      "alloc_region sz vaddr align vf VMM_REGION_FLAG_PHYSICAL mf s = Some (Some r, s\<lparr>vm_alloc := al, aspace := as\<rparr>)"
proof -
  note i = vm_invD [OF assms(1)]
  have sz: "0 < sz" using assms(4) by (simp add: word_gt_0)
  from i(1) sz assms(3) show ?thesis
  proof (cases rule: alloc_region_aligned [where vaddr = vaddr and align = align and vf = vf and rf = VMM_REGION_FLAG_PHYSICAL and mf = mf])
    case (fails al)
    have "s\<lparr>vm_alloc := al, vmm_lock := False\<rparr> = s\<lparr>vm_alloc := al\<rparr>"
      using i(2) by (cases s) simp
    then show ?thesis
      using that(1) [of al] assms(2-5) i(2) fails by (simp add: vmm_alloc_physical_def alloc_region_locked)
  next
    case (places r as al)
    have "(s\<lparr>vm_alloc := al, aspace := as, vmm_lock := False\<rparr>) = s\<lparr>vm_alloc := al, aspace := as\<rparr>"
      using i(2) by (cases s) simp
    then show ?thesis
      using that(2) [of r as al] assms(2-5) i(2) places by (simp add: vmm_alloc_physical_def alloc_region_locked arch_mmu_map_def)
  qed
qed

lemma vmm_alloc_physical_inv:
  assumes "vm_inv R s" "IS_PAGE_ALIGNED paddr" "IS_PAGE_ALIGNED sz"
  shows "\<exists>ret p s'. vmm_alloc_physical sz ptr align paddr vf mf s = Some ((ret, p), s') \<and> vm_inv R s'"
proof (cases "sz = 0 \<or> requested_spot vf ptr = None")
  case True
  then show ?thesis
    using assms by (auto simp: vmm_alloc_physical_def)
next
  case False
  then obtain vaddr where v: "sz \<noteq> 0" "requested_spot vf ptr = Some vaddr" by auto
  from assms v show ?thesis
  proof (cases rule: vmm_alloc_physical_cases [of R s paddr sz vf ptr vaddr align mf])
    case (fails al)
    then show ?thesis
      using vm_inv_cong [OF assms(1), of "s\<lparr>vm_alloc := al\<rparr>"] vm_invD(2) [OF assms(1)] by simp
  next
    case (maps r as al)
    have "allocates (rg_pages r) (arenas s) (arenas s)"
      using vm_invD(5) [OF assms(1)] maps(5) allocates_Nil by (simp add: pmm_inv_def)
    then have "vm_inv R (arch_mmu_map (rg_base r) paddr (sz div PAGE_SIZE) mf (s\<lparr>vm_alloc := al, aspace := as\<rparr>))"
      using vm_invD(2) [OF assms(1)] by (intro vm_inv_placed [OF assms(1) maps(2)]) simp_all
    then show ?thesis
      using maps(1) by blast
  qed
qed

lemma aspace_wf_bases:
  assumes "aspace_wf as" "region_list as = xs @ r # ys"
  shows "\<And>x. x \<in> set xs \<Longrightarrow> rg_end x \<le> unat (rg_base r) \<and> rg_base x \<noteq> rg_base r"
    and "\<And>y. y \<in> set ys \<Longrightarrow> rg_end r \<le> unat (rg_base y) \<and> rg_base y \<noteq> rg_base r"
proof -
  have b: "sorted_wrt before (xs @ r # ys)" "\<And>x. x \<in> set (xs @ r # ys) \<Longrightarrow> unat (rg_base x) < rg_end x"
    using assms region_size_pos by (auto simp: aspace_wf_def region_ok_def)
  show "rg_end x \<le> unat (rg_base r) \<and> rg_base x \<noteq> rg_base r" if "x \<in> set xs" for x
    using b(1) b(2) [of x] that by (auto simp: sorted_wrt_append before_def)
  show "rg_end r \<le> unat (rg_base y) \<and> rg_base y \<noteq> rg_base r" if "y \<in> set ys" for y
    using b(1) b(2) [of r] that by (auto simp: sorted_wrt_append before_def)
qed

lemma placed_set_pages:
  assumes "aspace_wf as0" "placed as0 r (aspace s)"
  shows "placed as0 (r\<lparr>rg_pages := rg_pages r @ ps\<rparr>) (aspace (set_region_pages (rg_base r) ps s))"
proof -
  obtain xs ys where x: "region_list as0 = xs @ ys" "aspace s = as0\<lparr>region_list := xs @ r # ys\<rparr>" "0 < rg_size r"
      "low_end as0 (last_opt xs) \<le> unat (rg_base r)" "rg_end r \<le> high_end as0 (hd_opt ys)"
    using assms(2) by (auto simp: placed_def)
  have w: "aspace_wf (aspace s)" by (rule placed_wf [OF assms])
  have l: "region_list (aspace s) = xs @ r # ys" by (simp add: x(2))
  let ?f = "\<lambda>q. if rg_base q = rg_base r then q\<lparr>rg_pages := rg_pages q @ ps\<rparr> else q"
  have "map ?f xs = xs" "map ?f ys = ys"
    using aspace_wf_bases [OF w l] by (auto intro!: map_idI)
  then have "aspace (set_region_pages (rg_base r) ps s) = as0\<lparr>region_list := xs @ (r\<lparr>rg_pages := rg_pages r @ ps\<rparr>) # ys\<rparr>"
    unfolding set_region_pages_def l by (simp add: x(2))
  then show ?thesis
    using x(1,3-5) unfolding placed_def by (intro exI [of _ xs] exI [of _ ys]) (simp add: rg_end_def)
qed

lemma set_region_pages_sel [simp]:
  "arenas (set_region_pages b ps s) = arenas s" "vmm_lock (set_region_pages b ps s) = vmm_lock s"
  by (simp_all add: set_region_pages_def)

lemma ROUNDUP_aligned: "IS_PAGE_ALIGNED (ROUNDUP sz PAGE_SIZE)"
proof -
  have "(x AND NOT m) AND m = 0" for x m :: u32
    by (rule bit_eqI) (simp add: bit_simps)
  then show ?thesis
    unfolding IS_PAGE_ALIGNED_def ROUNDUP_def .
qed

lemma aligned_page_count:
  assumes "IS_PAGE_ALIGNED sz" "sz \<noteq> 0"
  shows "sz div PAGE_SIZE \<noteq> 0" "sz div PAGE_SIZE \<le> 2 ^ 31"
proof -
  have "4096 dvd unat sz" using assms(1) by (simp add: page_aligned_dvd)
  moreover have "0 < unat sz" using assms(2) by (simp add: unat_gt_0)
  ultimately have "1 \<le> unat sz div 4096" by (auto elim!: dvdE)
  then have "unat (sz div PAGE_SIZE) \<noteq> 0" by (simp add: unat_div)
  then show "sz div PAGE_SIZE \<noteq> 0" by (metis unat_0)
  show "sz div PAGE_SIZE \<le> 2 ^ 31"
    using unat_u32 [of sz] by (simp add: word_le_nat_alt unat_div)
qed

text \<open>Pages that were allocated for a region that could not be placed go back.\<close>

lemma give_back:
  assumes "vm_inv R s" "allocates ps (arenas s) bs" "aspace s' = aspace s" "arenas s' = bs" "\<not> vmm_lock s'"
  shows "\<exists>t. free_pages_of ps s' = Some t \<and> vm_inv R t \<and> aspace t = aspace s"
proof -
  note i = vm_invD [OF assms(1)]
  let ?U = "R \<union> set (vm_pages s)"
  have w: "pmm_wf (arenas s)" and d: "?U \<inter> free_pages (arenas s) = {}"
    using i(5) by (simp_all add: pmm_inv_def)
  note a = allocates_facts [OF w assms(2)]
  have "pmm_inv bs (?U \<union> set ps)" by (rule pmm_inv_allocates [OF i(5) assms(2)])
  then obtain cs where c: "pmm_free ps bs = Some (of_nat (length ps), cs)" "pmm_inv cs (?U \<union> set ps - set ps)"
    using pmm_inv_free a(5) by blast
  have "?U \<union> set ps - set ps = ?U"
    using a(4) d by blast
  then have "vm_inv R (s'\<lparr>arenas := cs\<rparr>)"
    using c(2) i(1,3,4) assms(3,5) by (simp add: vm_inv_def vm_pages_def)
  then show ?thesis
    using c(1) assms(3,4) by (simp add: free_pages_of_def)
qed

lemma vmm_alloc_contiguous_inv:
  assumes "vm_inv R s" "align < 32"
  shows "\<exists>ret p s'. vmm_alloc_contiguous sz0 ptr align vf mf s = Some ((ret, p), s') \<and> vm_inv R s'"
proof (cases "ROUNDUP sz0 PAGE_SIZE = 0 \<or> requested_spot vf ptr = None")
  case True
  then show ?thesis
    using assms by (auto simp: vmm_alloc_contiguous_def Let_def)
next
  case False
  define sz where "sz = ROUNDUP sz0 PAGE_SIZE"
  obtain vaddr where v: "requested_spot vf ptr = Some vaddr" "sz \<noteq> 0" using False by (auto simp: sz_def)
  have al: "IS_PAGE_ALIGNED sz" unfolding sz_def by (rule ROUNDUP_aligned)
  note i = vm_invD [OF assms(1)]
  have w: "pmm_wf (arenas s)" using i(5) by (simp add: pmm_inv_def)
  obtain r bs where r: "contiguous_result (max align 12) (unat (sz div PAGE_SIZE)) (arenas s) r bs"
      "pmm_alloc_contiguous (sz div PAGE_SIZE) align (arenas s) =
        Some (case r of None \<Rightarrow> (0, None, [], bs) | Some (pa, ps) \<Rightarrow> (sz div PAGE_SIZE, Some pa, ps, bs))"
    by (rule pmm_alloc_contiguous_cases [OF w assms(2) aligned_page_count [OF al v(2)]])
  show ?thesis
  proof (cases r)
    case None
    then have "bs = arenas s" using r(1) by (simp add: contiguous_result_def)
    then show ?thesis
      using None r(2) v False aligned_page_count(1) [OF al v(2)] assms(1)
      by (simp add: vmm_alloc_contiguous_def sz_def [symmetric] word_gt_0)
  next
    case (Some x)
    obtain pa ps where x: "x = (pa, ps)" by (cases x)
    have a: "allocates ps (arenas s) bs" using r(1) Some x by (auto simp: contiguous_result_def)
    let ?s = "s\<lparr>arenas := bs\<rparr>"
    have sz: "0 < sz" using v(2) by (simp add: word_gt_0)
    have "aspace_wf (aspace ?s)" using i(1) by simp
    from this sz al show ?thesis
    proof (cases rule: alloc_region_aligned [where vaddr = vaddr and align = align and vf = vf and rf = VMM_REGION_FLAG_PHYSICAL and mf = mf])
      case (fails l)
      obtain t where "free_pages_of ps (s\<lparr>arenas := bs, vm_alloc := l, vmm_lock := False\<rparr>) = Some t" "vm_inv R t"
        using give_back [OF assms(1) a, of "s\<lparr>arenas := bs, vm_alloc := l, vmm_lock := False\<rparr>"] by auto
      then show ?thesis
        using Some x r(2) v i(2) fails by (simp add: vmm_alloc_contiguous_def sz_def [symmetric] alloc_region_locked)
    next
      case (places q as l)
      let ?t = "arch_mmu_map (rg_base q) pa (sz div PAGE_SIZE) mf (?s\<lparr>vm_alloc := l, aspace := as, vmm_lock := True\<rparr>)"
      let ?u = "(set_region_pages (rg_base q) ps ?t)\<lparr>vmm_lock := False\<rparr>"
      have "placed (aspace s) (q\<lparr>rg_pages := ps\<rparr>) (aspace ?u)"
        using placed_set_pages [OF i(1), of q ?t ps] places by (simp add: set_region_pages_def)
      then have "vm_inv R ?u"
        by (rule vm_inv_placed [OF assms(1), where bs = bs]) (use a in simp_all)
      then show ?thesis
        using Some x r(2) v i(2) places by (simp add: vmm_alloc_contiguous_def sz_def [symmetric] alloc_region_locked Let_def)
    qed
  qed
qed

lemma map_pages_frame:
  assumes "map_pages va rend fl ps s = Some t"
  shows "aspace t = aspace s \<and> arenas t = arenas s \<and> vmm_lock t = vmm_lock s"
  using assms
  by (induction va rend fl ps s rule: map_pages.induct) (auto simp: Let_def split: if_splits)

lemma pmm_alloc_pages_allocates:
  assumes "pmm_wf as" "pmm_alloc_pages n [] as = (c, ps, bs)"
  shows "allocates ps as bs"
  using assms alloc_pages_loop_allocates [of as "unat n"] allocates_Nil
  by (auto simp: pmm_alloc_pages_def split: if_splits prod.splits)

lemma vmm_alloc_short:
  assumes "\<not> vmm_lock s" "sz = ROUNDUP sz0 PAGE_SIZE" "sz \<noteq> 0" "requested_spot vf ptr = Some vaddr"
    and "pmm_alloc_pages (sz div PAGE_SIZE) [] (arenas s) = (c, ps, bs)" "c < sz div PAGE_SIZE \<or> \<not> c \<le> sz"
  shows "vmm_alloc sz0 ptr align vf mf s = None"
  using assms by (cases "c \<le> sz") (simp_all add: vmm_alloc_def Let_def)

lemma vmm_alloc_inv:
  assumes "vm_inv R s" "vmm_alloc sz0 ptr align vf mf s = Some ((ret, p), s')"
  shows "vm_inv R s'"
proof (cases "ROUNDUP sz0 PAGE_SIZE = 0 \<or> requested_spot vf ptr = None")
  case True
  then have "vmm_alloc sz0 ptr align vf mf s = Some ((ERR_INVALID_ARGS, ptr), s)"
    by (cases "ROUNDUP sz0 PAGE_SIZE = 0") (simp_all add: vmm_alloc_def)
  then show ?thesis
    using assms by simp
next
  case False
  define sz where "sz = ROUNDUP sz0 PAGE_SIZE"
  obtain vaddr where v: "requested_spot vf ptr = Some vaddr" "sz \<noteq> 0" using False by (auto simp: sz_def)
  have al: "IS_PAGE_ALIGNED sz" unfolding sz_def by (rule ROUNDUP_aligned)
  note i = vm_invD [OF assms(1)]
  have w: "pmm_wf (arenas s)" using i(5) by (simp add: pmm_inv_def)
  obtain c ps bs where c: "pmm_alloc_pages (sz div PAGE_SIZE) [] (arenas s) = (c, ps, bs)"
    by (metis prod_cases3)
  have a: "allocates ps (arenas s) bs" by (rule pmm_alloc_pages_allocates [OF w c])
  have g: "\<not> c < sz div PAGE_SIZE" "c \<le> sz"
    using assms(2) vmm_alloc_short [OF i(2) sz_def v(2,1) c, of align mf] by (metis option.distinct(1))+
  let ?s = "s\<lparr>arenas := bs\<rparr>"
  have sz: "0 < sz" using v(2) by (simp add: word_gt_0)
  have "aspace_wf (aspace ?s)" using i(1) by simp
  from this sz al show ?thesis
  proof (cases rule: alloc_region_aligned [where vaddr = vaddr and align = align and vf = vf and rf = VMM_REGION_FLAG_PHYSICAL and mf = mf])
    case (fails l)
    obtain t where "free_pages_of ps (s\<lparr>arenas := bs, vm_alloc := l, vmm_lock := False\<rparr>) = Some t" "vm_inv R t"
      using give_back [OF assms(1) a, of "s\<lparr>arenas := bs, vm_alloc := l, vmm_lock := False\<rparr>"] by auto
    then show ?thesis
      using assms(2) c v i(2) fails g by (simp add: vmm_alloc_def sz_def [symmetric] alloc_region_locked)
  next
    case (places q as l)
    let ?s1 = "?s\<lparr>vm_alloc := l, aspace := as, vmm_lock := True\<rparr>"
    obtain t where t: "map_pages (rg_base q) (rg_base q + rg_size q - 1) mf ps ?s1 = Some t"
        "s' = (set_region_pages (rg_base q) ps t)\<lparr>vmm_lock := False\<rparr>"
    proof (cases "map_pages (rg_base q) (rg_base q + rg_size q - 1) mf ps ?s1")
      case None
      then show ?thesis
        using assms(2) c v i(2) places g by (simp add: vmm_alloc_def sz_def [symmetric] alloc_region_locked Let_def split: if_splits)
    next
      case (Some t)
      then show ?thesis
        using that assms(2) c v i(2) places g map_pages_frame [OF Some]
        by (auto simp: vmm_alloc_def sz_def [symmetric] alloc_region_locked Let_def split: if_splits)
    qed
    have f: "aspace t = as" "arenas t = bs" using map_pages_frame [OF t(1)] by simp_all
    have "placed (aspace s) (q\<lparr>rg_pages := ps\<rparr>) (aspace s')"
      using placed_set_pages [OF i(1), of q t ps] places f t(2) by simp
    then show ?thesis
      by (rule vm_inv_placed [OF assms(1), where bs = bs]) (use a t(2) f in simp_all)
  qed
qed

lemma find_region_split:
  assumes "vmm_find_region rs v = Some r"
  shows "r \<in> set rs \<and> rg_base r \<le> v \<and> v \<le> rg_base r + rg_size r - 1"
  using assms by (induction rs) (auto split: if_splits)

lemma vmm_free_region_inv:
  assumes "vm_inv R s"
  shows "\<exists>ret s'. vmm_free_region vaddr s = Some (ret, s') \<and> vm_inv R s'"
proof (cases "vmm_find_region (region_list (aspace s)) vaddr")
  case None
  then show ?thesis
    using vm_invD(2) [OF assms] vm_inv_cong [OF assms] by (simp add: vmm_free_region_def)
next
  case (Some r)
  note i = vm_invD [OF assms]
  obtain xs ys where x: "region_list (aspace s) = xs @ r # ys" "r \<notin> set xs"
    using find_region_split [OF Some] split_list_first by fastforce
  let ?as = "(aspace s)\<lparr>region_list := remove1 r (region_list (aspace s))\<rparr>"
  let ?t = "arch_mmu_unmap (rg_base r) (rg_size r div PAGE_SIZE) (s\<lparr>vmm_lock := True, aspace := ?as\<rparr>)"
  have l: "region_list ?as = xs @ ys" using x by (simp add: remove1_append)
  let ?ps' = "concat (map rg_pages (xs @ ys))"
  have m: "mset (vm_pages s) = mset (rg_pages r @ ?ps')" by (simp add: vm_pages_def x(1))
  note d = mset_eq_imp_distinct_iff [OF m] and e = mset_eq_setD [OF m]
  obtain cs where c: "pmm_free (rg_pages r) (arenas s) = Some (of_nat (length (rg_pages r)), cs)"
      "pmm_inv cs (R \<union> set (vm_pages s) - set (rg_pages r))"
    using pmm_inv_free [OF i(5), of "rg_pages r"] i(3) d e by auto
  have "R \<union> set (vm_pages s) - set (rg_pages r) = R \<union> set ?ps'"
    using i(3,4) d unfolding e by auto
  then have "vm_inv R (?t\<lparr>vmm_lock := False, arenas := cs\<rparr>)"
    using aspace_wf_remove [OF i(1), of r] c(2) i(3,4) d e l by (auto simp: vm_inv_def vm_pages_def)
  then show ?thesis
    using Some i(2) c(1) by (simp add: vmm_free_region_def free_pages_of_def Let_def)
qed

lemma vmm_reserve_space_inv:
  assumes "vm_inv R s" "vmm_reserve_space query sz vaddr s = Some (ret, s')"
  shows "vm_inv R s'"
proof (cases "sz = 0 \<or> \<not> is_inside_aspace (aspace s) vaddr")
  case True
  then have "s' = s"
    using assms(2) by (auto simp: vmm_reserve_space_def split: if_splits)
  then show ?thesis
    using assms(1) by simp
next
  case False
  note i = vm_invD [OF assms(1)]
  obtain sz' where t: "trim_to_aspace (aspace s) vaddr sz = Some sz'"
    using False by (simp add: trim_to_aspace_def)
  show ?thesis
  proof (rule alloc_region_cases [OF i(1), of VMM_FLAG_VALLOC_SPECIFIC sz' vaddr 0 VMM_REGION_FLAG_RESERVED "query vaddr"])
    fix l assume "alloc_region sz' vaddr 0 VMM_FLAG_VALLOC_SPECIFIC VMM_REGION_FLAG_RESERVED (query vaddr) s = Some (None, s\<lparr>vm_alloc := l\<rparr>)"
    then show ?thesis
      using assms(2) t False i(2) vm_inv_cong [OF assms(1), of s']
      by (auto simp: vmm_reserve_space_def alloc_region_locked split: if_splits)
  next
    fix r as l
    assume r: "alloc_region sz' vaddr 0 VMM_FLAG_VALLOC_SPECIFIC VMM_REGION_FLAG_RESERVED (query vaddr) s =
        Some (Some r, s\<lparr>vm_alloc := l, aspace := as\<rparr>)" "placed (aspace s) r as" "rg_pages r = []"
    have "allocates (rg_pages r) (arenas s) (arenas s)"
      using i(5) r(3) allocates_Nil by (simp add: pmm_inv_def)
    moreover have "aspace s' = as" "arenas s' = arenas s" "\<not> vmm_lock s'"
      using assms(2) t False i(2) r(1) by (auto simp: vmm_reserve_space_def alloc_region_locked split: if_splits)
    ultimately show ?thesis
      using vm_inv_placed [OF assms(1) r(2)] by simp
  qed simp
qed

section \<open>Reachable address spaces\<close>

text \<open>Sequences of calls of the manager, from an empty address space with some pages \<open>R\<close> in use.\<close>

inductive vm_reach :: "vm_page set \<Rightarrow> vm_state \<Rightarrow> bool" for R where
  init: "pmm_reach (arenas s) R \<Longrightarrow> aspace s = vmm_init b n \<Longrightarrow> 0 < b \<Longrightarrow> 0 < n \<Longrightarrow> unat b + unat n \<le> 2 ^ 32 \<Longrightarrow>
    \<not> vmm_lock s \<Longrightarrow> vm_reach R s"
| reserve: "vm_reach R s \<Longrightarrow> vmm_reserve_space query sz vaddr s = Some (ret, s') \<Longrightarrow> vm_reach R s'"
| physical: "vm_reach R s \<Longrightarrow> vmm_alloc_physical sz ptr align paddr vf mf s = Some ((ret, p), s') \<Longrightarrow> vm_reach R s'"
| contiguous: "vm_reach R s \<Longrightarrow> align < 32 \<Longrightarrow> vmm_alloc_contiguous sz ptr align vf mf s = Some ((ret, p), s') \<Longrightarrow> vm_reach R s'"
| alloc: "vm_reach R s \<Longrightarrow> vmm_alloc sz ptr align vf mf s = Some ((ret, p), s') \<Longrightarrow> vm_reach R s'"
| free: "vm_reach R s \<Longrightarrow> vmm_free_region vaddr s = Some (ret, s') \<Longrightarrow> vm_reach R s'"

lemma vmm_alloc_physical_args:
  assumes "vmm_alloc_physical sz ptr align paddr vf mf s = Some x"
  shows "IS_PAGE_ALIGNED paddr" "IS_PAGE_ALIGNED sz"
  using assms by (auto simp: vmm_alloc_physical_def split: if_splits)

lemma vm_reach_inv: "vm_reach R s \<Longrightarrow> vm_inv R s"
proof (induction rule: vm_reach.induct)
  case (init s b n)
  then show ?case
    using pmm_reach_inv [OF init(1)] by (simp add: vm_inv_def vmm_init_def aspace_wf_def as_end_def vm_pages_def)
next
  case (physical s sz ptr align paddr vf mf ret p s')
  note a = vmm_alloc_physical_args [OF physical(2)]
  show ?case
    using vmm_alloc_physical_inv [OF physical(3) a, of ptr align vf mf] physical(2) by auto
next
  case (contiguous s align sz ptr vf mf ret p s')
  then show ?case
    using vmm_alloc_contiguous_inv [OF contiguous(4,2), of sz ptr vf mf] by auto
next
  case (free s vaddr ret s')
  then show ?case
    using vmm_free_region_inv [OF free(3), of vaddr] by auto
qed (auto intro: vmm_reserve_space_inv vmm_alloc_inv)

text \<open>
  C25: In every reachable state the regions of the kernel address space are inside it, in the
  order of their addresses and disjoint; every physical page is behind at most one region,
  once, and is not on a free list while it is; and freeing any address returns to such a
  state without a failed assertion.
\<close>

theorem vmm_regions_disjoint:
  assumes "vm_reach R s"
  shows "(\<forall>r \<in> set (region_list (aspace s)). region_ok (aspace s) r) \<and>
    (\<forall>i j. i < j \<longrightarrow> j < length (region_list (aspace s)) \<longrightarrow>
      rg_end (region_list (aspace s) ! i) \<le> unat (rg_base (region_list (aspace s) ! j))) \<and>
    distinct (vm_pages s) \<and> set (vm_pages s) \<inter> free_pages (arenas s) = {} \<and>
    (\<exists>ret s'. vmm_free_region vaddr s = Some (ret, s') \<and> vm_reach R s')"
proof -
  note i = vm_invD [OF vm_reach_inv [OF assms]]
  have "\<exists>ret s'. vmm_free_region vaddr s = Some (ret, s') \<and> vm_reach R s'"
    using vmm_free_region_inv [OF vm_reach_inv [OF assms], of vaddr] vm_reach.free [OF assms] by blast
  moreover have "set (vm_pages s) \<inter> free_pages (arenas s) = {}"
    using i(5) unfolding pmm_inv_def by blast
  ultimately show ?thesis
    using i(1,3) by (auto simp: aspace_wf_def sorted_wrt_iff_nth_less before_def)
qed

definition ex_vm :: vm_state where
  "ex_vm = \<lparr>aspace = vmm_init 0x80000000 0x80000000, arenas = [ex_arena 0 4 [1, 1, 0, 0] [2, 3]], vm_alloc = [],
     vmm_lock = False, mmu_calls = []\<rparr>"

lemma ex_vm_reach: "vm_reach {(0, 0), (0, 1)} ex_vm"
  by (rule vm_reach.init [where b = "0x80000000" and n = "0x80000000"]) (use ex_arena_reach in \<open>simp_all add: ex_vm_def\<close>)

definition ex_mapped :: vm_state where
  "ex_mapped = ex_vm\<lparr>aspace := (vmm_init 0x80000000 0x80000000)\<lparr>region_list :=
    [\<lparr>rg_flags = VMM_REGION_FLAG_PHYSICAL, rg_mmu_flags = 0, rg_base = 0x80000000, rg_size = PAGE_SIZE, rg_pages = []\<rparr>]\<rparr>,
    mmu_calls := [MmuMap 0x80000000 0 1 0]\<rparr>"

lemma ex_vm_map: "vmm_alloc_physical PAGE_SIZE (Some 0) 12 0 0 0 ex_vm = Some ((NO_ERROR, Some 0x80000000), ex_mapped)"
  by code_simp

theorem vmm_regions_disjoint_witness: "\<exists>ret s'. vmm_free_region 0x80000010 ex_mapped = Some (ret, s') \<and> vm_reach {(0, 0), (0, 1)} s'"
  using vmm_regions_disjoint [OF vm_reach.physical [OF ex_vm_reach ex_vm_map], of "0x80000010"] by blast

lemma find_region_skip:
  assumes "\<forall>x \<in> set xs. \<not> v \<le> rg_base x + rg_size x - 1"
  shows "vmm_find_region (xs @ ys) v = vmm_find_region ys v"
  using assms by (induction xs) auto

lemma find_base:
  assumes w: "aspace_wf as" and l: "region_list as = xs @ r # ys"
  shows "vmm_find_region (region_list as) (rg_base r) = Some r" "remove1 r (region_list as) = xs @ ys"
proof -
  note b = aspace_wf_bases [OF w l]
  have ok: "0 < rg_size q \<and> rg_end q \<le> 2 ^ 32" if "q \<in> set (xs @ r # ys)" for q
  proof -
    have "region_ok as q" "as_end as \<le> 2 ^ 32" using w that l unfolding aspace_wf_def by auto
    then show ?thesis by (simp add: region_ok_def)
  qed
  have "\<not> rg_base r \<le> rg_base q + rg_size q - 1" if "q \<in> set xs" for q
    using b(1) [OF that] ok [of q] unat_rg_end [of q] region_size_pos [of q] that by (auto simp: word_le_nat_alt)
  moreover have "rg_base r \<le> rg_base r + rg_size r - 1"
    using ok [of r] unat_rg_end [of r] region_size_pos [of r] by (auto simp: word_le_nat_alt)
  ultimately show "vmm_find_region (region_list as) (rg_base r) = Some r"
    unfolding l by (subst find_region_skip) auto
  have "r \<notin> set xs" using b(1) by blast
  then show "remove1 r (region_list as) = xs @ ys"
    by (simp add: l remove1_append)
qed

lemma placed_find:
  assumes "aspace_wf as" "placed as r as'"
  shows "vmm_find_region (region_list as') (rg_base r) = Some r" "remove1 r (region_list as') = region_list as"
proof -
  obtain xs ys where x: "region_list as = xs @ ys" "region_list as' = xs @ r # ys"
    using assms(2) by (auto simp: placed_def)
  note f = find_base [OF placed_wf [OF assms] x(2)]
  show "vmm_find_region (region_list as') (rg_base r) = Some r" "remove1 r (region_list as') = region_list as"
    using f x(1) by simp_all
qed

lemma free_placed:
  assumes "aspace_wf as" "placed as r (aspace s)" "rg_pages r = []" "\<not> vmm_lock s"
  shows "vmm_free_region (rg_base r) s =
    Some (NO_ERROR, arch_mmu_unmap (rg_base r) (rg_size r div PAGE_SIZE) (s\<lparr>aspace := (aspace s)\<lparr>region_list := region_list as\<rparr>\<rparr>))"
proof -
  let ?t = "arch_mmu_unmap (rg_base r) (rg_size r div PAGE_SIZE) (s\<lparr>aspace := (aspace s)\<lparr>region_list := region_list as\<rparr>\<rparr>)"
  have "?t\<lparr>vmm_lock := False\<rparr> = ?t"
    using assms(4) by (cases s) (simp add: arch_mmu_unmap_def)
  then show ?thesis
    using placed_find [OF assms(1,2)] assms(3,4)
    by (simp add: vmm_free_region_def free_pages_of_def arch_mmu_unmap_def Let_def)
qed

lemma vmm_map_free:
  assumes i: "vm_inv R s" and "sz \<noteq> 0" "vmm_alloc_physical sz (Some p) align paddr vf mf s = Some ((NO_ERROR, Some v), s')"
  shows "\<exists>s''. vmm_free_region v s' = Some (NO_ERROR, s'') \<and> region_list (aspace s'') = region_list (aspace s) \<and>
    arenas s'' = arenas s \<and>
    mmu_calls s'' = mmu_calls s @ [MmuMap v paddr (sz div PAGE_SIZE) mf, MmuUnmap v (sz div PAGE_SIZE)]"
proof -
  note a = vmm_alloc_physical_args [OF assms(3)]
  have v: "requested_spot vf (Some p) = Some (if vf AND VMM_FLAG_VALLOC_SPECIFIC \<noteq> 0 then p else 0)"
    by (simp add: requested_spot_def)
  from i a assms(2) v show ?thesis
  proof (cases rule: vmm_alloc_physical_cases [where align = align and mf = mf])
    case (fails al)
    then show ?thesis using assms(3) by simp
  next
    case (maps r as al)
    have s': "s' = arch_mmu_map (rg_base r) paddr (sz div PAGE_SIZE) mf (s\<lparr>vm_alloc := al, aspace := as\<rparr>)" "v = rg_base r"
      using maps(1) assms(3) by simp_all
    have "placed (aspace s) r (aspace s')" "\<not> vmm_lock s'"
      using maps(2) vm_invD(2) [OF i] by (simp_all add: s'(1))
    from free_placed [OF vm_invD(1) [OF i] this(1) maps(5) this(2)] show ?thesis
      by (simp add: s' maps(3) arch_mmu_map_def arch_mmu_unmap_def)
  qed
qed

lemma physical_calls:
  assumes "vm_inv R s" "vmm_alloc_physical sz (Some p) align paddr vf mf s = Some ((NO_ERROR, Some v), s')"
  shows "mmu_calls s' = mmu_calls s @ (if sz = 0 then [] else [MmuMap v paddr (sz div PAGE_SIZE) mf])"
proof (cases "sz = 0")
  case True
  then show ?thesis
    using assms(2) by (auto simp: vmm_alloc_physical_def split: if_splits)
next
  case False
  have q: "requested_spot vf (Some p) = Some (if vf AND VMM_FLAG_VALLOC_SPECIFIC \<noteq> 0 then p else 0)"
    by (simp add: requested_spot_def)
  from assms(1) vmm_alloc_physical_args [OF assms(2)] False q show ?thesis
    by (cases rule: vmm_alloc_physical_cases [where align = align and mf = mf]) (use assms(2) False in \<open>simp_all add: arch_mmu_map_def\<close>)
qed

text \<open>
  C26: A mapping of physical memory at an address of the manager's choice is removed again by
  freeing the address that was returned: the regions are as before, and the two page table
  calls cover the same pages.
\<close>

theorem vmm_map_free_roundtrip:
  assumes "vm_reach R s" "sz \<noteq> 0" "vmm_alloc_physical sz (Some p) align paddr vf mf s = Some ((NO_ERROR, Some v), s')"
  shows "\<exists>s''. vmm_free_region v s' = Some (NO_ERROR, s'') \<and> region_list (aspace s'') = region_list (aspace s) \<and>
    arenas s'' = arenas s \<and>
    mmu_calls s'' = mmu_calls s @ [MmuMap v paddr (sz div PAGE_SIZE) mf, MmuUnmap v (sz div PAGE_SIZE)]"
  using vmm_map_free [OF vm_reach_inv [OF assms(1)] assms(2,3)] .

theorem vmm_map_free_roundtrip_witness:
  "\<exists>s''. vmm_free_region 0x80000000 ex_mapped = Some (NO_ERROR, s'') \<and> region_list (aspace s'') = []"
  using vmm_map_free_roundtrip [OF ex_vm_reach _ ex_vm_map] by (auto simp: ex_vm_def vmm_init_def)

text \<open>
  C27: A mapping placed by the manager never brings secure and non-secure memory into the
  same section of the first level page table, which has one security bit for all of it:
  if no two regions of different kind shared a section before, none do after.
\<close>

theorem vmm_sections_apart:
  assumes "vm_reach R s" "sorted_wrt sections_apart (region_list (aspace s))" "align < 32"
    and "vf AND VMM_FLAG_VALLOC_SPECIFIC = 0" "vmm_alloc_physical sz ptr align paddr vf mf s = Some (res, s')"
  shows "sorted_wrt sections_apart (region_list (aspace s'))"
proof (cases "sz = 0")
  case True
  then show ?thesis
    using assms(2,5) by (auto simp: vmm_alloc_physical_def split: if_splits)
next
  case False
  note i = vm_reach_inv [OF assms(1)]
  note a = vmm_alloc_physical_args [OF assms(5)]
  have v: "requested_spot vf ptr = Some 0" using assms(4) by (simp add: requested_spot_def)
  from i a False v show ?thesis
  proof (cases rule: vmm_alloc_physical_cases [where align = align and mf = mf])
    case (fails al)
    then show ?thesis using assms(2,5) by simp
  next
    case (maps r as al)
    have "\<exists>n. alloc_spot (aspace s) sz align mf = Some (rg_base r, n) \<and> rg_base r \<noteq> - 1 \<and>
        region_list as = list_add_at n r (region_list (aspace s))"
      using maps(6) assms(4) by (cases "alloc_spot (aspace s) sz align mf")
        (auto simp: alloc_region_def alloc_region_struct_def Let_def split: if_splits prod.splits dest!: arg_cong [where f = aspace])
    then show ?thesis
      using alloc_spot_sections [OF vm_invD(1) [OF i] assms(2,3), of r] maps(1,3,4) assms(5) by auto
  qed
qed

definition ex_ns :: vm_state where
  "ex_ns = snd (the (vmm_alloc_physical PAGE_SIZE (Some 0) 12 0 0 ARCH_MMU_FLAG_NS ex_mapped))"

lemma ex_ns_map: "vmm_alloc_physical PAGE_SIZE (Some 0) 12 0 0 ARCH_MMU_FLAG_NS ex_mapped = Some ((NO_ERROR, Some 0x80100000), ex_ns)"
  by code_simp

theorem vmm_sections_apart_witness: "sorted_wrt sections_apart (region_list (aspace ex_ns))"
  by (rule vmm_sections_apart [OF vm_reach.physical [OF ex_vm_reach ex_vm_map] _ _ _ ex_ns_map]) (simp_all add: ex_mapped_def)

text \<open>
  C28: An allocation of memory for which there are not enough pages stops the kernel: the
  error path releases the lock of the manager, which was not acquired yet.
\<close>

theorem vmm_alloc_short_panics:
  assumes "vm_reach R s" "ROUNDUP sz PAGE_SIZE \<noteq> 0" "requested_spot vf ptr \<noteq> None"
    and "fst (pmm_alloc_pages (ROUNDUP sz PAGE_SIZE div PAGE_SIZE) [] (arenas s)) < ROUNDUP sz PAGE_SIZE div PAGE_SIZE"
  shows "vmm_alloc sz ptr align vf mf s = None"
proof -
  obtain c ps bs where c: "pmm_alloc_pages (ROUNDUP sz PAGE_SIZE div PAGE_SIZE) [] (arenas s) = (c, ps, bs)"
    by (metis prod_cases3)
  then show ?thesis
    using vmm_alloc_short [OF vm_invD(2) [OF vm_reach_inv [OF assms(1)]] refl assms(2) _ c] assms(3,4) by auto
qed

theorem vmm_alloc_short_panics_witness: "vmm_alloc 0x3000 None 12 0 0 ex_vm = None"
  by (rule vmm_alloc_short_panics [OF ex_vm_reach]; code_simp)
end
