(* ===== verification/Vqueue.thy ===== *)
theory Vqueue
  imports Iovec Vmm
begin

text \<open>
  The virtqueues of \<^verbatim>\<open>lib/trusty/vqueue.c\<close>: the side of a virtio ring that takes
  buffers off the available ring, maps them, and puts them on the used ring. The ring
  is memory of the non-secure side: every index and descriptor in it is arbitrary.
\<close>

section \<open>The ring\<close>

abbreviation VRING_DESC_F_NEXT :: u16 where "VRING_DESC_F_NEXT \<equiv> 1"
abbreviation VRING_DESC_F_WRITE :: u16 where "VRING_DESC_F_WRITE \<equiv> 2"
abbreviation ARCH_MMU_FLAG_PERM_NO_EXECUTE :: u32 where "ARCH_MMU_FLAG_PERM_NO_EXECUTE \<equiv> 0x10"
abbreviation VRING_USED_F_NO_NOTIFY :: u16 where "VRING_USED_F_NO_NOTIFY \<equiv> 1"

record vring_desc =
  vd_addr :: u64
  vd_len :: u32
  vd_flags :: u16
  vd_next :: u16

record vring =
  vr_num :: u32
  vr_desc :: "nat \<Rightarrow> vring_desc"
  avail_idx :: u16
  avail_ring :: "nat \<Rightarrow> u16"
  used_flags :: u16
  used_idx :: u16
  used_ring :: "nat \<Rightarrow> u32 \<times> u32"

text \<open>The size of the ring in bytes, in \<^verbatim>\<open>unsigned\<close> arithmetic.\<close>

definition vring_size :: "u32 \<Rightarrow> u32 \<Rightarrow> u32" where
  "vring_size num align =
     ((16 * num + 2 * (3 + num) + align - 1) AND NOT (align - 1)) + 2 * 3 + 8 * num"

record vqueue =
  vq_id :: u32
  vq_vring :: vring
  vring_addr :: u32
  vring_sz :: u32
  last_avail_idx :: u16
  avail_event :: bool
  has_notify_cb :: bool
  has_kick_cb :: bool

record vqueue_iovs =
  iv_cnt :: nat
  iv_used :: nat
  iv_len :: u32
  iv_phys :: "u32 list"
  iv_iovs :: "iovec_kern list"

record vqueue_buf =
  vb_head :: u16
  in_iovs :: vqueue_iovs
  out_iovs :: vqueue_iovs

section \<open>Operations\<close>

text \<open>
  When the ring cannot be mapped the code frees the queue, which is part of the device
  structure and was never allocated by itself: the heap is corrupt from there on.
\<close>

definition vqueue_init ::
  "vqueue \<Rightarrow> (u32 \<Rightarrow> vring) \<Rightarrow> u32 \<Rightarrow> u32 \<Rightarrow> u32 \<Rightarrow> u32 \<Rightarrow> bool \<Rightarrow> bool \<Rightarrow> vm_state \<Rightarrow> ((int \<times> vqueue) \<times> vm_state) option" where
  "vqueue_init vq ring_at qid paddr num align notify_cb kick_cb s = do {
     let vq = vq\<lparr>vring_sz := vring_size num align\<rparr>;
     ((ret, ptr), s) \<leftarrow> vmm_alloc_physical (ROUNDUP (vring_sz vq) PAGE_SIZE) (Some 0) PAGE_SIZE_SHIFT paddr 0 (ARCH_MMU_FLAG_NS OR ARCH_MMU_FLAG_PERM_NO_EXECUTE) s;
     vptr \<leftarrow> ptr;
     (if ret \<noteq> NO_ERROR then None
      else Some ((NO_ERROR, vq\<lparr>vq_vring := (ring_at vptr)\<lparr>vr_num := num\<rparr>, vq_id := qid, has_notify_cb := notify_cb, has_kick_cb := kick_cb,
             vring_addr := vptr, avail_event := False\<rparr>), s))
   }"

definition vqueue_destroy :: "vqueue \<Rightarrow> vm_state \<Rightarrow> (vqueue \<times> vm_state) option" where
  "vqueue_destroy vq s = do {
     let addr = vring_addr vq;
     let vq = vq\<lparr>vring_addr := 0, vring_sz := 0\<rparr>;
     (ret, s) \<leftarrow> vmm_free_region addr s;
     Some (vq, s)
   }"

definition vqueue_signal_avail :: "vqueue \<Rightarrow> vqueue" where
  "vqueue_signal_avail vq =
     (let vq = (if vring_addr vq \<noteq> 0
                then vq\<lparr>vq_vring := (vq_vring vq)\<lparr>used_flags := used_flags (vq_vring vq) OR VRING_USED_F_NO_NOTIFY\<rparr>\<rparr> else vq)
      in vq\<lparr>avail_event := True\<rparr>)"

definition add_iov :: "vring_desc \<Rightarrow> vqueue_iovs \<Rightarrow> vqueue_iovs" where
  "add_iov desc iv = iv
     \<lparr>iv_iovs := (iv_iovs iv)[iv_used iv := (iv_iovs iv ! iv_used iv)\<lparr>ik_len := unat (vd_len desc)\<rparr>],
      iv_phys := (iv_phys iv)[iv_used iv := ucast (vd_addr desc)],
      iv_used := iv_used iv + 1, iv_len := iv_len iv + vd_len desc\<rparr>"

definition put_desc :: "vring_desc \<Rightarrow> vqueue_buf \<Rightarrow> vqueue_buf option" where
  "put_desc desc buf =
     (if vd_flags desc AND VRING_DESC_F_WRITE \<noteq> 0 then
        (if iv_used (out_iovs buf) < iv_cnt (out_iovs buf)
         then Some (buf\<lparr>out_iovs := add_iov desc (out_iovs buf)\<rparr>) else None)
      else
        (if iv_used (in_iovs buf) < iv_cnt (in_iovs buf)
         then Some (buf\<lparr>in_iovs := add_iov desc (in_iovs buf)\<rparr>) else None))"

definition iovs_left :: "vqueue_buf \<Rightarrow> nat" where
  "iovs_left buf = (iv_cnt (in_iovs buf) - iv_used (in_iovs buf)) + (iv_cnt (out_iovs buf) - iv_used (out_iovs buf))"

lemma put_desc_left: "put_desc desc buf = Some buf' \<Longrightarrow> iovs_left buf = Suc (iovs_left buf')"
  by (auto simp: put_desc_def iovs_left_def add_iov_def split: if_splits)

text \<open>
  The walk along a chain of descriptors. A chain may be cyclic; every descriptor takes a
  slot of the caller, so the walk ends with the slots.
\<close>

function chain_loop :: "vring \<Rightarrow> u16 \<Rightarrow> vqueue_buf \<Rightarrow> int \<times> vqueue_buf" where
  "chain_loop vr next_idx buf =
     (if unat next_idx \<ge> unat (vr_num vr) then (ERR_NOT_VALID, buf)
      else let desc = vr_desc vr (unat next_idx) in
        case put_desc desc buf of
          None \<Rightarrow> (ERR_TOO_BIG, buf)
        | Some buf \<Rightarrow>
            if vd_flags desc AND VRING_DESC_F_NEXT \<noteq> 0 then chain_loop vr (vd_next desc) buf
            else (NO_ERROR, buf))"
  by pat_completeness auto
termination by (relation "measure (\<lambda>(vr, next_idx, buf). iovs_left buf)") (auto dest: put_desc_left)

declare chain_loop.simps [simp del]

text \<open>
  The other side may move its index at any time. The code reads it again after it has
  cleared its event; \<open>idx2\<close> is what this read finds. What else is read of the ring is read
  once from the ring as it is at the call.
\<close>

definition vqueue_get_avail_buf_locked :: "u16 \<Rightarrow> vqueue \<Rightarrow> vqueue_buf \<Rightarrow> (int \<times> vqueue \<times> vqueue_buf) option" where
  "vqueue_get_avail_buf_locked idx2 vq buf =
     (if vring_addr vq = 0 then Some (ERR_CHANNEL_CLOSED, vq, buf)
      else let vr = vq_vring vq; avail_cnt = avail_idx vr - last_avail_idx vq in
        if avail_cnt > ucast (vr_num vr) then None
        else
          let empty = (last_avail_idx vq = avail_idx vr);
              vq = (if empty then vq\<lparr>avail_event := False,
                      vq_vring := vr\<lparr>used_flags := used_flags vr AND NOT VRING_USED_F_NO_NOTIFY, avail_idx := idx2\<rparr>\<rparr> else vq) in
          if empty \<and> last_avail_idx vq = idx2 then Some (ERR_NOT_ENOUGH_BUFFER, vq, buf)
          else
            let vr = vq_vring vq;
                vq = (if empty then vq\<lparr>avail_event := True,
                        vq_vring := vr\<lparr>used_flags := used_flags vr OR VRING_USED_F_NO_NOTIFY\<rparr>\<rparr> else vq);
                next_idx = avail_ring vr (unat (last_avail_idx vq) mod unat (vr_num vr));
                vq = vq\<lparr>last_avail_idx := last_avail_idx vq + 1\<rparr> in
            if unat next_idx \<ge> unat (vr_num vr) then None
            else
              let buf = buf\<lparr>vb_head := next_idx,
                    in_iovs := (in_iovs buf)\<lparr>iv_used := 0, iv_len := 0\<rparr>,
                    out_iovs := (out_iovs buf)\<lparr>iv_used := 0, iv_len := 0\<rparr>\<rparr>;
                  (ret, buf) = chain_loop vr next_idx buf
              in Some (ret, vq, buf))"

definition vqueue_get_avail_buf :: "u16 \<Rightarrow> vqueue \<Rightarrow> vqueue_buf \<Rightarrow> (int \<times> vqueue \<times> vqueue_buf) option" where
  "vqueue_get_avail_buf idx2 vq buf = vqueue_get_avail_buf_locked idx2 vq buf"

definition set_base :: "nat \<Rightarrow> nat \<Rightarrow> vqueue_iovs \<Rightarrow> vqueue_iovs" where
  "set_base i a iv = iv\<lparr>iv_iovs := (iv_iovs iv)[i := (iv_iovs iv ! i)\<lparr>ik_base := a\<rparr>]\<rparr>"

definition iov_base :: "vqueue_iovs \<Rightarrow> nat \<Rightarrow> u32" where
  "iov_base iv i = of_nat (ik_base (iv_iovs iv ! i))"

text \<open>The cleanup after a failed mapping, from the one before the failed one down.\<close>

fun unmap_down :: "nat \<Rightarrow> vqueue_iovs \<Rightarrow> vm_state \<Rightarrow> (vqueue_iovs \<times> vm_state) option" where
  "unmap_down 0 iv s = Some (iv, s)"
| "unmap_down (Suc i) iv s = do {
     (ret, s) \<leftarrow> vmm_free_region (iov_base iv i) s;
     unmap_down i (set_base i 0 iv) s
   }"

fun map_up :: "u32 \<Rightarrow> nat \<Rightarrow> nat \<Rightarrow> vqueue_iovs \<Rightarrow> vm_state \<Rightarrow> ((int \<times> vqueue_iovs) \<times> vm_state) option" where
  "map_up flags i 0 iv s = Some ((NO_ERROR, iv), s)"
| "map_up flags i (Suc n) iv s = do {
     let iv = set_base i 0 iv;
     ((ret, ptr), s) \<leftarrow> vmm_alloc_physical (ROUNDUP (of_nat (ik_len (iv_iovs iv ! i))) PAGE_SIZE) (Some (iov_base iv i))
       PAGE_SIZE_SHIFT (iv_phys iv ! i) 0 flags s;
     base \<leftarrow> ptr;
     let iv = set_base i (unat base) iv;
     (if ret \<noteq> 0 then do {
        (iv, s) \<leftarrow> unmap_down i iv s;
        Some ((ret, iv), s)
      } else map_up flags (Suc i) n iv s)
   }"

definition vqueue_map_iovs :: "vqueue_iovs \<Rightarrow> u32 \<Rightarrow> vm_state \<Rightarrow> ((int \<times> vqueue_iovs) \<times> vm_state) option" where
  "vqueue_map_iovs iv flags s = do {
     kassert (iv_used iv \<le> iv_cnt iv);
     map_up flags 0 (iv_used iv) iv s
   }"

fun unmap_up :: "nat \<Rightarrow> nat \<Rightarrow> vqueue_iovs \<Rightarrow> vm_state \<Rightarrow> (vqueue_iovs \<times> vm_state) option" where
  "unmap_up i 0 iv s = Some (iv, s)"
| "unmap_up i (Suc n) iv s = do {
     kassert (ik_base (iv_iovs iv ! i) \<noteq> 0);
     (ret, s) \<leftarrow> vmm_free_region (iov_base iv i) s;
     unmap_up (Suc i) n (set_base i 0 iv) s
   }"

definition vqueue_unmap_iovs :: "vqueue_iovs \<Rightarrow> vm_state \<Rightarrow> (vqueue_iovs \<times> vm_state) option" where
  "vqueue_unmap_iovs iv s = do {
     kassert (iv_used iv \<le> iv_cnt iv);
     unmap_up 0 (iv_used iv) iv s
   }"

definition vqueue_add_buf_locked :: "vqueue \<Rightarrow> vqueue_buf \<Rightarrow> u32 \<Rightarrow> int \<times> vqueue" where
  "vqueue_add_buf_locked vq buf len =
     (if vring_addr vq = 0 then (ERR_CHANNEL_CLOSED, vq)
      else let vr = vq_vring vq in
        if unat (vb_head buf) \<ge> unat (vr_num vr) then (ERR_NOT_VALID, vq)
        else
          let vr = vr\<lparr>used_ring := (used_ring vr)(unat (used_idx vr) mod unat (vr_num vr) := (ucast (vb_head buf), len)),
                      used_idx := used_idx vr + 1\<rparr>
          in (NO_ERROR, vq\<lparr>vq_vring := vr\<rparr>))"

definition vqueue_add_buf :: "vqueue \<Rightarrow> vqueue_buf \<Rightarrow> u32 \<Rightarrow> int \<times> vqueue" where
  "vqueue_add_buf vq buf len = vqueue_add_buf_locked vq buf len"


text \<open>The callbacks are those of the device that owns the queue.\<close>

definition vqueue_id :: "vqueue \<Rightarrow> u32" where
  "vqueue_id vq = vq_id vq"

definition vqueue_notify :: "(vqueue \<Rightarrow> int \<times> vqueue) \<Rightarrow> vqueue \<Rightarrow> int \<times> vqueue" where
  "vqueue_notify notify_cb vq = (if has_notify_cb vq then notify_cb vq else (0, vq))"

definition vqueue_kick :: "(vqueue \<Rightarrow> int \<times> vqueue) \<Rightarrow> vqueue \<Rightarrow> int \<times> vqueue" where
  "vqueue_kick kick_cb vq = (if has_kick_cb vq then kick_cb vq else (0, vq))"

section \<open>Descriptor chains\<close>

text \<open>The descriptors of the chain that starts at an index of the ring.\<close>

inductive chain :: "vring \<Rightarrow> u16 \<Rightarrow> vring_desc list \<Rightarrow> bool" for vr where
  final: "unat i < unat (vr_num vr) \<Longrightarrow> vd_flags (vr_desc vr (unat i)) AND VRING_DESC_F_NEXT = 0 \<Longrightarrow> chain vr i [vr_desc vr (unat i)]"
| link: "unat i < unat (vr_num vr) \<Longrightarrow> vd_flags (vr_desc vr (unat i)) AND VRING_DESC_F_NEXT \<noteq> 0 \<Longrightarrow>
    chain vr (vd_next (vr_desc vr (unat i))) ds \<Longrightarrow> chain vr i (vr_desc vr (unat i) # ds)"

inductive_simps chain_Cons: "chain vr i (d # ds)"

definition writable :: "vring_desc \<Rightarrow> bool" where
  "writable d \<longleftrightarrow> vd_flags d AND VRING_DESC_F_WRITE \<noteq> 0"

definition iovs_ok :: "vqueue_iovs \<Rightarrow> bool" where
  "iovs_ok iv \<longleftrightarrow> length (iv_iovs iv) = iv_cnt iv \<and> length (iv_phys iv) = iv_cnt iv \<and> iv_used iv \<le> iv_cnt iv"

text \<open>What the vectors hold after the descriptors \<open>ds\<close> were recorded.\<close>

definition recorded :: "vring_desc list \<Rightarrow> vqueue_iovs \<Rightarrow> vqueue_iovs \<Rightarrow> bool" where
  "recorded ds iv iv' \<longleftrightarrow> iovs_ok iv' \<and> iv_cnt iv' = iv_cnt iv \<and> iv_used iv' = iv_used iv + length ds \<and>
     take (iv_used iv') (iv_phys iv') = take (iv_used iv) (iv_phys iv) @ map (ucast \<circ> vd_addr) ds \<and>
     map ik_len (take (iv_used iv') (iv_iovs iv')) = map ik_len (take (iv_used iv) (iv_iovs iv)) @ map (unat \<circ> vd_len) ds \<and>
     iv_len iv' = iv_len iv + sum_list (map vd_len ds)"

definition fits :: "vring_desc list \<Rightarrow> vqueue_buf \<Rightarrow> bool" where
  "fits ds buf \<longleftrightarrow> iv_used (in_iovs buf) + length (filter (\<lambda>d. \<not> writable d) ds) \<le> iv_cnt (in_iovs buf) \<and>
     iv_used (out_iovs buf) + length (filter writable ds) \<le> iv_cnt (out_iovs buf)"

definition buf_ok :: "vqueue_buf \<Rightarrow> bool" where
  "buf_ok buf \<longleftrightarrow> iovs_ok (in_iovs buf) \<and> iovs_ok (out_iovs buf)"

definition buf_recorded :: "vring_desc list \<Rightarrow> vqueue_buf \<Rightarrow> vqueue_buf \<Rightarrow> bool" where
  "buf_recorded ds buf buf' \<longleftrightarrow> vb_head buf' = vb_head buf \<and> recorded (filter (\<lambda>d. \<not> writable d) ds) (in_iovs buf) (in_iovs buf') \<and>
     recorded (filter writable ds) (out_iovs buf) (out_iovs buf')"

lemma recorded_Nil: "iovs_ok iv \<Longrightarrow> recorded [] iv iv"
  by (simp add: recorded_def)

lemma recorded_add:
  assumes "iovs_ok iv" "iv_used iv < iv_cnt iv"
  shows "recorded [d] iv (add_iov d iv)"
  using assms by (auto simp: recorded_def iovs_ok_def add_iov_def take_Suc_conv_app_nth)

lemma recorded_trans:
  assumes "recorded ds iv iv'" "recorded es iv' iv''"
  shows "recorded (ds @ es) iv iv''"
  using assms by (auto simp: recorded_def add.assoc)

lemma put_desc_None:
  assumes "buf_ok buf"
  shows "put_desc d buf = None \<longleftrightarrow> \<not> fits [d] buf"
  using assms by (auto simp: put_desc_def fits_def buf_ok_def iovs_ok_def writable_def)

lemma put_desc_Some:
  assumes "buf_ok buf" "put_desc d buf = Some buf'"
  shows "buf_ok buf'" "buf_recorded [d] buf buf'" "fits (d # ds) buf \<longleftrightarrow> fits ds buf'"
proof -
  have "buf_ok buf' \<and> buf_recorded [d] buf buf' \<and> (fits (d # ds) buf \<longleftrightarrow> fits ds buf')"
  proof (cases "writable d")
    case True
    then show ?thesis
      using assms recorded_add [of "out_iovs buf" d] recorded_Nil [of "in_iovs buf"]
      by (auto simp: put_desc_def fits_def buf_ok_def buf_recorded_def writable_def split: if_splits) (auto simp: recorded_def)
  next
    case False
    then show ?thesis
      using assms recorded_add [of "in_iovs buf" d] recorded_Nil [of "out_iovs buf"]
      by (auto simp: put_desc_def fits_def buf_ok_def buf_recorded_def writable_def split: if_splits) (auto simp: recorded_def)
  qed
  then show "buf_ok buf'" "buf_recorded [d] buf buf'" "fits (d # ds) buf \<longleftrightarrow> fits ds buf'"
    by simp_all
qed

lemma buf_recorded_Cons:
  assumes "buf_recorded [d] buf b" "buf_recorded ds b buf'"
  shows "buf_recorded (d # ds) buf buf'"
  using assms recorded_trans [of "[d]" _ _ "filter writable ds"] recorded_trans [of "[d]" _ _ "filter (\<lambda>d. \<not> writable d) ds"]
    recorded_trans [of "[]" _ _ "filter writable ds"] recorded_trans [of "[]" _ _ "filter (\<lambda>d. \<not> writable d) ds"]
  unfolding buf_recorded_def by (cases "writable d") auto

lemma chain_out_of_range: "unat (vr_num vr) \<le> unat i \<Longrightarrow> \<not> chain vr i ds"
  by (auto elim: chain.cases)

lemma chain_start: "chain vr i ds \<Longrightarrow> \<exists>es. ds = vr_desc vr (unat i) # es"
  by (auto elim: chain.cases)

lemma chain_final: "vd_flags (vr_desc vr (unat i)) AND VRING_DESC_F_NEXT = 0 \<Longrightarrow>
    chain vr i ds \<longleftrightarrow> unat i < unat (vr_num vr) \<and> ds = [vr_desc vr (unat i)]"
  by (auto elim: chain.cases intro: chain.final)

lemma chain_link: "vd_flags (vr_desc vr (unat i)) AND VRING_DESC_F_NEXT \<noteq> 0 \<Longrightarrow>
    chain vr i ds \<longleftrightarrow> unat i < unat (vr_num vr) \<and> (\<exists>es. ds = vr_desc vr (unat i) # es \<and> chain vr (vd_next (vr_desc vr (unat i))) es)"
  by (auto elim: chain.cases intro: chain.link)

lemma fits_ConsD: "fits (d # ds) buf \<Longrightarrow> fits [d] buf"
  by (auto simp: fits_def split: if_splits)

text \<open>The walk returns an error exactly if there is no chain, or it has too many descriptors for the buffer.\<close>

lemma chain_loop_spec:
  assumes "buf_ok buf" "chain_loop vr i buf = (ret, buf')"
  shows "buf_ok buf' \<and> vb_head buf' = vb_head buf \<and> ret \<in> {NO_ERROR, ERR_NOT_VALID, ERR_TOO_BIG} \<and>
    (ret = NO_ERROR \<longleftrightarrow> (\<exists>ds. chain vr i ds \<and> fits ds buf)) \<and>
    (ret = NO_ERROR \<longrightarrow> (\<exists>ds. chain vr i ds \<and> buf_recorded ds buf buf'))"
  using assms
proof (induction vr i buf arbitrary: ret buf' rule: chain_loop.induct)
  case (1 vr i buf)
  let ?d = "vr_desc vr (unat i)"
  show ?case
  proof (cases "unat i < unat (vr_num vr)")
    case False
    then have "(ret, buf') = (ERR_NOT_VALID, buf)"
      using 1(3) by (subst (asm) chain_loop.simps) simp
    then show ?thesis
      using False 1(2) by (simp add: chain_out_of_range)
  next
    case i: True
    show ?thesis
    proof (cases "put_desc ?d buf")
      case None
      then have "(ret, buf') = (ERR_TOO_BIG, buf)"
        using i 1(3) by (subst (asm) chain_loop.simps) simp
      moreover have "\<not> fits ds buf" if "chain vr i ds" for ds
        using chain_start [OF that] None fits_ConsD by (auto simp: put_desc_None [OF 1(2)])
      ultimately show ?thesis
        using 1(2) by auto
    next
      case (Some b)
      note b = put_desc_Some [OF 1(2) Some]
      show ?thesis
      proof (cases "vd_flags ?d AND VRING_DESC_F_NEXT = 0")
        case True
        then have "(ret, buf') = (NO_ERROR, b)"
          using i Some 1(3) by (subst (asm) chain_loop.simps) simp
        moreover have "fits [?d] buf"
          using put_desc_None [OF 1(2), of ?d] Some by simp
        ultimately show ?thesis
          using b(1,2) i by (simp add: chain_final [OF True]) (simp add: buf_recorded_def)
      next
        case False
        then have e: "chain_loop vr (vd_next ?d) b = (ret, buf')"
          using 1(3) Some i by (subst (asm) chain_loop.simps) simp
        have IH: "buf_ok buf' \<and> vb_head buf' = vb_head b \<and> ret \<in> {NO_ERROR, ERR_NOT_VALID, ERR_TOO_BIG} \<and>
          (ret = NO_ERROR \<longleftrightarrow> (\<exists>ds. chain vr (vd_next ?d) ds \<and> fits ds b)) \<and>
          (ret = NO_ERROR \<longrightarrow> (\<exists>ds. chain vr (vd_next ?d) ds \<and> buf_recorded ds b buf'))"
          by (rule 1(1) [OF _ refl Some False b(1) e]) (use i in simp)
        have h: "vb_head b = vb_head buf"
          using b(2) by (simp add: buf_recorded_def)
        have f: "(\<exists>ds. chain vr i ds \<and> fits ds buf) \<longleftrightarrow> (\<exists>ds. chain vr (vd_next ?d) ds \<and> fits ds b)"
          using i by (auto simp: chain_link [OF False] b(3))
        have "\<exists>ds. chain vr i ds \<and> buf_recorded ds buf buf'" if "chain vr (vd_next ?d) ds" "buf_recorded ds b buf'" for ds
          using that buf_recorded_Cons [OF b(2)] i by (auto simp: chain_link [OF False])
        then show ?thesis
          using IH unfolding f h by blast
      qed
    qed
  qed
qed

section \<open>Taking and returning buffers\<close>

definition avail_head :: "vqueue \<Rightarrow> u16" where
  "avail_head vq = avail_ring (vq_vring vq) (unat (last_avail_idx vq) mod unat (vr_num (vq_vring vq)))"

definition clear_buf :: "vqueue_buf \<Rightarrow> u16 \<Rightarrow> vqueue_buf" where
  "clear_buf buf head = buf\<lparr>vb_head := head, in_iovs := (in_iovs buf)\<lparr>iv_used := 0, iv_len := 0\<rparr>,
     out_iovs := (out_iovs buf)\<lparr>iv_used := 0, iv_len := 0\<rparr>\<rparr>"

definition no_avail :: "u16 \<Rightarrow> vqueue \<Rightarrow> bool" where
  "no_avail idx2 vq \<longleftrightarrow> last_avail_idx vq = avail_idx (vq_vring vq) \<and> last_avail_idx vq = idx2"

lemma get_avail_None:
  "vqueue_get_avail_buf idx2 vq buf = None \<longleftrightarrow> vring_addr vq \<noteq> 0 \<and>
     (avail_idx (vq_vring vq) - last_avail_idx vq > ucast (vr_num (vq_vring vq)) \<or>
      (\<not> no_avail idx2 vq \<and> unat (vr_num (vq_vring vq)) \<le> unat (avail_head vq)))"
  by (auto simp: vqueue_get_avail_buf_def vqueue_get_avail_buf_locked_def no_avail_def avail_head_def Let_def split: prod.splits)

lemma get_avail_Some:
  assumes "vqueue_get_avail_buf idx2 vq buf = Some (ret, vq', buf')" "ret \<noteq> ERR_CHANNEL_CLOSED" "ret \<noteq> ERR_NOT_ENOUGH_BUFFER"
  obtains vr where "chain_loop vr (avail_head vq) (clear_buf buf (avail_head vq)) = (ret, buf')"
    "vring_addr vq \<noteq> 0" "unat (avail_head vq) < unat (vr_num (vq_vring vq))"
    "vr_num vr = vr_num (vq_vring vq)" "vr_desc vr = vr_desc (vq_vring vq)"
    "vring_addr vq' = vring_addr vq" "last_avail_idx vq' = last_avail_idx vq + 1"
    "vr_num (vq_vring vq') = vr_num (vq_vring vq)" "vr_desc (vq_vring vq') = vr_desc (vq_vring vq)"
    "used_ring (vq_vring vq') = used_ring (vq_vring vq)" "used_idx (vq_vring vq') = used_idx (vq_vring vq)"
  using assms
  by (auto simp: vqueue_get_avail_buf_def vqueue_get_avail_buf_locked_def avail_head_def clear_buf_def Let_def
      split: prod.splits if_splits)

lemma vb_head_clear [simp]: "vb_head (clear_buf buf h) = h"
  by (simp add: clear_buf_def)

lemma chain_cong: "vr_num vr = vr_num vr' \<Longrightarrow> vr_desc vr = vr_desc vr' \<Longrightarrow> chain vr i ds \<Longrightarrow> chain vr' i ds"
  by (rotate_tac 2) (induction rule: chain.induct, simp_all add: chain_final chain_link)

text \<open>
  C29: Taking a buffer panics exactly if the other side moved its index by more than the size
  of the ring or offered a head out of range. A buffer that is taken has the offered head;
  the call returns \<^verbatim>\<open>NO_ERROR\<close> exactly if a well-formed chain of descriptors starts there and
  fits the caller's vectors (a cyclic chain or one with an index out of range is an error, and
  the call ends), and then the vectors hold the addresses and lengths of exactly the
  descriptors of the chain, in order, the readable and the writable ones apart.
\<close>

theorem vqueue_get_avail_buf_chain:
  assumes "length (iv_iovs (in_iovs buf)) = iv_cnt (in_iovs buf)" "length (iv_phys (in_iovs buf)) = iv_cnt (in_iovs buf)"
    "length (iv_iovs (out_iovs buf)) = iv_cnt (out_iovs buf)" "length (iv_phys (out_iovs buf)) = iv_cnt (out_iovs buf)"
  shows "(vqueue_get_avail_buf idx2 vq buf = None \<longleftrightarrow> vring_addr vq \<noteq> 0 \<and>
      (avail_idx (vq_vring vq) - last_avail_idx vq > ucast (vr_num (vq_vring vq)) \<or>
       (\<not> no_avail idx2 vq \<and> unat (vr_num (vq_vring vq)) \<le> unat (avail_head vq)))) \<and>
    (\<forall>ret vq' buf'. vqueue_get_avail_buf idx2 vq buf = Some (ret, vq', buf') \<and> ret \<noteq> ERR_CHANNEL_CLOSED \<and> ret \<noteq> ERR_NOT_ENOUGH_BUFFER \<longrightarrow>
      vb_head buf' = avail_head vq \<and> buf_ok buf' \<and> ret \<in> {NO_ERROR, ERR_NOT_VALID, ERR_TOO_BIG} \<and>
      (ret = NO_ERROR \<longleftrightarrow> (\<exists>ds. chain (vq_vring vq) (avail_head vq) ds \<and> fits ds (clear_buf buf (avail_head vq)))) \<and>
      (ret = NO_ERROR \<longrightarrow> (\<exists>ds. chain (vq_vring vq) (avail_head vq) ds \<and>
         take (iv_used (in_iovs buf')) (iv_phys (in_iovs buf')) = map (ucast \<circ> vd_addr) (filter (\<lambda>d. \<not> writable d) ds) \<and>
         map ik_len (take (iv_used (in_iovs buf')) (iv_iovs (in_iovs buf'))) = map (unat \<circ> vd_len) (filter (\<lambda>d. \<not> writable d) ds) \<and>
         take (iv_used (out_iovs buf')) (iv_phys (out_iovs buf')) = map (ucast \<circ> vd_addr) (filter writable ds) \<and>
         map ik_len (take (iv_used (out_iovs buf')) (iv_iovs (out_iovs buf'))) = map (unat \<circ> vd_len) (filter writable ds))))"
proof (rule conjI [OF get_avail_None], intro allI impI, elim conjE)
  fix ret vq' buf'
  assume g: "vqueue_get_avail_buf idx2 vq buf = Some (ret, vq', buf')" "ret \<noteq> ERR_CHANNEL_CLOSED" "ret \<noteq> ERR_NOT_ENOUGH_BUFFER"
  let ?b = "clear_buf buf (avail_head vq)"
  obtain vr where vr: "chain_loop vr (avail_head vq) ?b = (ret, buf')"
    "vr_num vr = vr_num (vq_vring vq)" "vr_desc vr = vr_desc (vq_vring vq)"
    using get_avail_Some [OF g] by metis
  have c: "chain vr i ds \<longleftrightarrow> chain (vq_vring vq) i ds" for i ds
    using chain_cong vr(2,3) by metis
  have "buf_ok ?b"
    using assms by (simp add: buf_ok_def iovs_ok_def clear_buf_def)
  from chain_loop_spec [OF this vr(1)]
  have s: "buf_ok buf'" "vb_head buf' = avail_head vq" "ret \<in> {NO_ERROR, ERR_NOT_VALID, ERR_TOO_BIG}"
    "ret = NO_ERROR \<longleftrightarrow> (\<exists>ds. chain (vq_vring vq) (avail_head vq) ds \<and> fits ds ?b)"
    "ret = NO_ERROR \<longrightarrow> (\<exists>ds. chain (vq_vring vq) (avail_head vq) ds \<and> buf_recorded ds ?b buf')"
    unfolding c vb_head_clear by (blast, blast, blast, blast, blast)
  have "\<exists>ds. chain (vq_vring vq) (avail_head vq) ds \<and>
         take (iv_used (in_iovs buf')) (iv_phys (in_iovs buf')) = map (ucast \<circ> vd_addr) (filter (\<lambda>d. \<not> writable d) ds) \<and>
         map ik_len (take (iv_used (in_iovs buf')) (iv_iovs (in_iovs buf'))) = map (unat \<circ> vd_len) (filter (\<lambda>d. \<not> writable d) ds) \<and>
         take (iv_used (out_iovs buf')) (iv_phys (out_iovs buf')) = map (ucast \<circ> vd_addr) (filter writable ds) \<and>
         map ik_len (take (iv_used (out_iovs buf')) (iv_iovs (out_iovs buf'))) = map (unat \<circ> vd_len) (filter writable ds)" (is ?held)
    if "ret = NO_ERROR"
  proof -
    from that s(5) obtain ds where "chain (vq_vring vq) (avail_head vq) ds" "buf_recorded ds ?b buf'"
      by blast
    then show ?thesis
      by (intro exI [of _ ds]) (auto simp: buf_recorded_def recorded_def clear_buf_def)
  qed
  then show "vb_head buf' = avail_head vq \<and> buf_ok buf' \<and> ret \<in> {NO_ERROR, ERR_NOT_VALID, ERR_TOO_BIG} \<and>
      (ret = NO_ERROR \<longleftrightarrow> (\<exists>ds. chain (vq_vring vq) (avail_head vq) ds \<and> fits ds ?b)) \<and> (ret = NO_ERROR \<longrightarrow> ?held)"
    using s(1-4) by (intro conjI impI)
qed

text \<open>
  C30: Every buffer that was taken can be given back: whatever the walk along its chain
  returned, adding it to the used ring succeeds, publishes its head and the length in the next
  slot and no other, and moves the index by one, so that both sides agree on the count.
\<close>

theorem vqueue_taken_buf_returned:
  assumes "vqueue_get_avail_buf idx2 vq buf = Some (ret, vq', buf')" "ret \<noteq> ERR_CHANNEL_CLOSED" "ret \<noteq> ERR_NOT_ENOUGH_BUFFER"
    "vb_head buf'' = vb_head buf'"
    "length (iv_iovs (in_iovs buf)) = iv_cnt (in_iovs buf)" "length (iv_phys (in_iovs buf)) = iv_cnt (in_iovs buf)"
    "length (iv_iovs (out_iovs buf)) = iv_cnt (out_iovs buf)" "length (iv_phys (out_iovs buf)) = iv_cnt (out_iovs buf)"
  shows "\<exists>vq''. vqueue_add_buf vq' buf'' len = (NO_ERROR, vq'') \<and>
    used_ring (vq_vring vq'') = (used_ring (vq_vring vq))
      (unat (used_idx (vq_vring vq)) mod unat (vr_num (vq_vring vq)) := (ucast (avail_head vq), len)) \<and>
    used_idx (vq_vring vq'') = used_idx (vq_vring vq) + 1 \<and> last_avail_idx vq'' = last_avail_idx vq + 1 \<and>
    vr_desc (vq_vring vq'') = vr_desc (vq_vring vq)"
proof -
  have "buf_ok (clear_buf buf (avail_head vq))"
    using assms(5-) by (simp add: buf_ok_def iovs_ok_def clear_buf_def)
  from chain_loop_spec [OF this] get_avail_Some [OF assms(1-3)]
  have "vb_head buf' = avail_head vq"
    by (metis vb_head_clear)
  then show ?thesis
    using assms(4) by (rule_tac get_avail_Some [OF assms(1-3)]) (simp add: vqueue_add_buf_def vqueue_add_buf_locked_def)
qed

section \<open>Mapped buffers\<close>

text \<open>
  The bases \<open>bs\<close> are those of mappings without pages of their own, and \<open>rs\<close> are the
  regions besides them.
\<close>

definition owned :: "vm_page set \<Rightarrow> u32 list \<Rightarrow> vmm_region list \<Rightarrow> vm_state \<Rightarrow> bool" where
  "owned R bs rs s \<longleftrightarrow> vm_inv R s \<and> distinct bs \<and>
     (\<forall>b \<in> set bs. \<exists>r \<in> set (region_list (aspace s)). rg_base r = b \<and> rg_pages r = []) \<and>
     rs = filter (\<lambda>r. rg_base r \<notin> set bs) (region_list (aspace s))"

lemma owned_Nil [simp]: "owned R [] rs s \<longleftrightarrow> vm_inv R s \<and> rs = region_list (aspace s)"
  by (auto simp: owned_def)

lemma owned_vm_inv: "owned R bs rs s \<Longrightarrow> vm_inv R s"
  by (simp add: owned_def)

lemma owned_cong: "owned R bs rs s \<Longrightarrow> aspace s' = aspace s \<Longrightarrow> arenas s' = arenas s \<Longrightarrow> \<not> vmm_lock s' \<Longrightarrow> owned R bs rs s'"
  using vm_inv_cong [of R s s'] by (auto simp: owned_def)

lemma owned_placed:
  assumes o: "owned R bs rs s" and p: "placed (aspace s) r (aspace s')" and i: "vm_inv R s'" and "rg_pages r = []"
  shows "owned R (bs @ [rg_base r]) rs s'" "rg_base r \<noteq> 0"
proof -
  obtain xs ys where x: "region_list (aspace s) = xs @ ys" "region_list (aspace s') = xs @ r # ys"
    using p by (auto simp: placed_def)
  note w = vm_invD(1) [OF i]
  have b: "rg_base q \<noteq> rg_base r" if "q \<in> set (xs @ ys)" for q
    using aspace_wf_bases [OF w x(2), of q] that by auto
  have "rg_base r \<notin> rg_base ` set (xs @ ys)"
    using b by fastforce
  moreover have "set bs \<subseteq> rg_base ` set (xs @ ys)"
    using o x(1) by (auto simp: owned_def)
  moreover have "filter (\<lambda>q. rg_base q \<noteq> rg_base r \<and> rg_base q \<notin> set bs) zs = filter (\<lambda>q. rg_base q \<notin> set bs) zs"
    if "set zs \<subseteq> set (xs @ ys)" for zs
    using that b by (intro filter_cong) auto
  ultimately show "owned R (bs @ [rg_base r]) rs s'"
    using o x i assms(4) by (auto simp: owned_def)
  have "region_ok (aspace s') r" "0 < as_base (aspace s')"
    using w x(2) by (simp_all add: aspace_wf_def)
  then show "rg_base r \<noteq> 0"
    by (auto simp: region_ok_def word_less_nat_alt)
qed

lemma owned_free:
  assumes o: "owned R (bs1 @ b # bs2) rs s"
  shows "\<exists>s'. vmm_free_region b s = Some (NO_ERROR, s') \<and> owned R (bs1 @ bs2) rs s'"
proof -
  note i = owned_vm_inv [OF o]
  obtain r where r: "r \<in> set (region_list (aspace s))" "rg_base r = b" "rg_pages r = []"
    using o by (auto simp: owned_def)
  then obtain xs ys where l: "region_list (aspace s) = xs @ r # ys"
    by (meson split_list)
  note f = find_base [OF vm_invD(1) [OF i] l]
  have bb: "rg_base q \<noteq> b" if "q \<in> set (xs @ ys)" for q
    using aspace_wf_bases [OF vm_invD(1) [OF i] l, of q] that r(2) by auto
  obtain ret s' where s': "vmm_free_region b s = Some (ret, s')" "vm_inv R s'"
    using vmm_free_region_inv [OF i] by blast
  have e: "ret = NO_ERROR" "region_list (aspace s') = xs @ ys"
    using s'(1) f r(2,3) vm_invD(2) [OF i]
    by (auto simp: vmm_free_region_def free_pages_of_def Let_def arch_mmu_unmap_def)
  have "filter (\<lambda>q. rg_base q \<noteq> b \<and> P q) zs = filter P zs" if "set zs \<subseteq> set (xs @ ys)" for zs P
    using that bb r(2) by (intro filter_cong) auto
  then have "owned R (bs1 @ bs2) rs s'"
    using o s'(2) e(2) l r(2) unfolding owned_def by auto
  then show ?thesis
    using s'(1) e(1) by blast
qed

lemma free_null:
  assumes "owned R bs rs s"
  shows "\<exists>s'. vmm_free_region 0 s = Some (ERR_NOT_FOUND, s') \<and> owned R bs rs s'"
proof -
  note i = owned_vm_inv [OF assms]
  have "0 < rg_base r" if "r \<in> set (region_list (aspace s))" for r
    using that vm_invD(1) [OF i] by (auto simp: aspace_wf_def region_ok_def word_less_nat_alt)
  then have "vmm_find_region (region_list (aspace s)) 0 = None"
    using find_region_split [of "region_list (aspace s)" 0] by (cases "vmm_find_region (region_list (aspace s)) 0") force+
  then show ?thesis
    using vm_invD(2) [OF i] owned_cong [OF assms] by (simp add: vmm_free_region_def)
qed

definition same_shape :: "vqueue_iovs \<Rightarrow> vqueue_iovs \<Rightarrow> bool" where
  "same_shape iv iv' \<longleftrightarrow> iv_cnt iv' = iv_cnt iv \<and> iv_used iv' = iv_used iv \<and> iv_len iv' = iv_len iv \<and>
     iv_phys iv' = iv_phys iv \<and> map ik_len (iv_iovs iv') = map ik_len (iv_iovs iv)"

lemma same_shape_refl [simp]: "same_shape iv iv"
  by (simp add: same_shape_def)

lemma same_shape_trans: "same_shape iv iv' \<Longrightarrow> same_shape iv' iv'' \<Longrightarrow> same_shape iv iv''"
  by (simp add: same_shape_def)

lemma same_shape_length: "same_shape iv iv' \<Longrightarrow> length (iv_iovs iv') = length (iv_iovs iv)"
  by (auto simp: same_shape_def dest: map_eq_imp_length_eq)

lemma same_shape_ik_len: "same_shape iv iv' \<Longrightarrow> j < length (iv_iovs iv) \<Longrightarrow> ik_len (iv_iovs iv' ! j) = ik_len (iv_iovs iv ! j)"
proof -
  assume a: "same_shape iv iv'" "j < length (iv_iovs iv)"
  have "map ik_len (iv_iovs iv') ! j = map ik_len (iv_iovs iv) ! j"
    using a(1) by (simp add: same_shape_def)
  then show ?thesis
    using a(2) same_shape_length [OF a(1)] by simp
qed

lemma set_base_ik_len [simp]: "ik_len (iv_iovs (set_base i a iv) ! j) = ik_len (iv_iovs iv ! j)"
  by (cases "j = i"; cases "i < length (iv_iovs iv)") (auto simp: set_base_def list_update_beyond)

lemma set_base_shape [simp]: "same_shape iv (set_base i a iv)"
  using set_base_ik_len [of i a iv] by (auto simp: same_shape_def set_base_def list_eq_iff_nth_eq)

lemma set_base_sel [simp]:
  "length (iv_iovs (set_base i a iv)) = length (iv_iovs iv)" "iv_phys (set_base i a iv) = iv_phys iv"
  "j \<noteq> i \<Longrightarrow> iv_iovs (set_base i a iv) ! j = iv_iovs iv ! j"
  "i < length (iv_iovs iv) \<Longrightarrow> ik_base (iv_iovs (set_base i a iv) ! i) = a"
  by (auto simp: set_base_def)

lemma iov_base_set [simp]:
  "j \<noteq> i \<Longrightarrow> iov_base (set_base i a iv) j = iov_base iv j"
  "i < length (iv_iovs iv) \<Longrightarrow> iov_base (set_base i a iv) i = of_nat a"
  by (simp_all add: iov_base_def)

definition bases :: "vqueue_iovs \<Rightarrow> nat \<Rightarrow> nat \<Rightarrow> u32 list" where
  "bases iv i n = filter (\<lambda>b. b \<noteq> 0) (map (iov_base iv) [i..<n])"

lemma bases_cong: "(\<And>j. i \<le> j \<Longrightarrow> j < n \<Longrightarrow> iov_base iv' j = iov_base iv j) \<Longrightarrow> bases iv' i n = bases iv i n"
  unfolding bases_def by (metis (mono_tags, lifting) atLeastLessThan_iff map_eq_conv set_upt)

lemma bases_Suc: "i \<le> n \<Longrightarrow> bases iv i (Suc n) = bases iv i n @ (if iov_base iv n = 0 then [] else [iov_base iv n])"
  by (simp add: bases_def)

lemma bases_first: "i < n \<Longrightarrow> bases iv i n = (if iov_base iv i = 0 then [] else [iov_base iv i]) @ bases iv (Suc i) n"
  by (simp add: bases_def upt_conv_Cons)

lemma unmap_down_spec:
  assumes "i \<le> length (iv_iovs iv)" "owned R (bases iv 0 i) rs s"
  shows "\<exists>iv' s'. unmap_down i iv s = Some (iv', s') \<and> same_shape iv iv' \<and> owned R [] rs s'"
  using assms
proof (induction i arbitrary: iv s)
  case 0
  then show ?case by (simp add: bases_def)
next
  case (Suc i)
  have "\<exists>ret s'. vmm_free_region (iov_base iv i) s = Some (ret, s') \<and> owned R (bases iv 0 i) rs s'"
    using Suc.prems(2) owned_free [of R "bases iv 0 i" "iov_base iv i" "[]" rs s] free_null [of R "bases iv 0 i" rs s]
    by (cases "iov_base iv i = 0") (auto simp: bases_Suc)
  then obtain ret s1 where s1: "vmm_free_region (iov_base iv i) s = Some (ret, s1)" "owned R (bases iv 0 i) rs s1"
    by blast
  have "bases (set_base i 0 iv) 0 i = bases iv 0 i"
    by (rule bases_cong) simp
  then obtain iv' s' where "unmap_down i (set_base i 0 iv) s1 = Some (iv', s')" "same_shape (set_base i 0 iv) iv'" "owned R [] rs s'"
    using Suc.IH [of "set_base i 0 iv" s1] Suc.prems(1) s1(2) by auto
  then show ?case
    using s1(1) same_shape_trans [OF set_base_shape] by auto
qed

lemma unmap_up_spec:
  assumes "i + n \<le> length (iv_iovs iv)" "owned R (bases iv i (i + n)) rs s"
    and "\<And>j. i \<le> j \<Longrightarrow> j < i + n \<Longrightarrow> ik_base (iv_iovs iv ! j) \<noteq> 0 \<and> iov_base iv j \<noteq> 0"
  shows "\<exists>iv' s'. unmap_up i n iv s = Some (iv', s') \<and> same_shape iv iv' \<and> owned R [] rs s' \<and>
    (\<forall>j. i \<le> j \<and> j < i + n \<longrightarrow> ik_base (iv_iovs iv' ! j) = 0) \<and> (\<forall>j < i. iv_iovs iv' ! j = iv_iovs iv ! j)"
  using assms
proof (induction n arbitrary: i iv s)
  case 0
  then show ?case by (simp add: bases_def)
next
  case (Suc n)
  have b: "bases iv i (i + Suc n) = iov_base iv i # bases iv (Suc i) (i + Suc n)" "ik_base (iv_iovs iv ! i) \<noteq> 0"
    using Suc.prems(3) [of i] by (simp_all add: bases_first)
  obtain s1 where s1: "vmm_free_region (iov_base iv i) s = Some (NO_ERROR, s1)" "owned R (bases iv (Suc i) (i + Suc n)) rs s1"
    using owned_free [of R "[]" "iov_base iv i" "bases iv (Suc i) (i + Suc n)" rs s] Suc.prems(2) unfolding b(1) by auto
  let ?iv = "set_base i 0 iv"
  have c: "bases ?iv (Suc i) (Suc i + n) = bases iv (Suc i) (i + Suc n)"
    unfolding add_Suc add_Suc_right by (rule bases_cong) simp
  have l: "Suc i + n \<le> length (iv_iovs ?iv)" "i < length (iv_iovs iv)"
    using Suc.prems(1) by simp_all
  have "ik_base (iv_iovs ?iv ! j) \<noteq> 0 \<and> iov_base ?iv j \<noteq> 0" if "Suc i \<le> j" "j < Suc i + n" for j
    using Suc.prems(3) [of j] that by simp
  then obtain iv' s' where r: "unmap_up (Suc i) n ?iv s1 = Some (iv', s')" "same_shape ?iv iv'" "owned R [] rs s'"
      "\<forall>j. Suc i \<le> j \<and> j < Suc i + n \<longrightarrow> ik_base (iv_iovs iv' ! j) = 0" "\<forall>j < Suc i. iv_iovs iv' ! j = iv_iovs ?iv ! j"
    using Suc.IH [of "Suc i" ?iv s1] l(1) s1(2) unfolding c by blast
  have "ik_base (iv_iovs iv' ! j) = 0" if "i \<le> j" "j < i + Suc n" for j
    using r(4,5) l(2) that by (cases "j = i") simp_all
  moreover have "iv_iovs iv' ! j = iv_iovs iv ! j" if "j < i" for j
    using r(5) that by simp
  ultimately show ?case
    using r(1,3) s1(1) b(2) same_shape_trans [OF set_base_shape r(2)] by (simp add: kassert_def)
qed

definition map_size :: "vqueue_iovs \<Rightarrow> nat \<Rightarrow> u32" where
  "map_size iv j = ROUNDUP (of_nat (ik_len (iv_iovs iv ! j))) PAGE_SIZE"

lemma map_size_shape: "same_shape iv iv' \<Longrightarrow> j < length (iv_iovs iv) \<Longrightarrow> map_size iv' j = map_size iv j"
  by (simp add: map_size_def same_shape_ik_len)

text \<open>What one vector adds to the calls of the page tables.\<close>

definition map_call :: "u32 \<Rightarrow> vqueue_iovs \<Rightarrow> nat \<Rightarrow> mmu_call list" where
  "map_call flags iv j = (if map_size iv j = 0 then []
     else [MmuMap (iov_base iv j) (iv_phys iv ! j) (map_size iv j div PAGE_SIZE) flags])"

lemma map_one:
  assumes o: "owned R bs rs s" and p: "IS_PAGE_ALIGNED pa"
  obtains (fails) s' where "sz \<noteq> 0" "vmm_alloc_physical sz (Some 0) PAGE_SIZE_SHIFT pa 0 flags s = Some ((ERR_NO_MEMORY, Some 0), s')" "owned R bs rs s'"
  | (empty) "sz = 0" "vmm_alloc_physical sz (Some 0) PAGE_SIZE_SHIFT pa 0 flags s = Some ((NO_ERROR, Some 0), s)"
  | (maps) b s' where "sz \<noteq> 0" "b \<noteq> 0" "vmm_alloc_physical sz (Some 0) PAGE_SIZE_SHIFT pa 0 flags s = Some ((NO_ERROR, Some b), s')"
      "owned R (bs @ [b]) rs s'" "mmu_calls s' = mmu_calls s @ [MmuMap b pa (sz div PAGE_SIZE) flags]"
  | (unaligned) "\<not> IS_PAGE_ALIGNED sz"
proof -
  have v: "requested_spot 0 (Some 0) = Some 0" by (simp add: requested_spot_def)
  note i = owned_vm_inv [OF o]
  consider "\<not> IS_PAGE_ALIGNED sz" | "IS_PAGE_ALIGNED sz" "sz = 0" | "IS_PAGE_ALIGNED sz" "sz \<noteq> 0" by blast
  then show ?thesis
  proof cases
    case 1
    then show ?thesis by (rule that(4))
  next
    case 2
    then show ?thesis
      using p by (intro that(2)) (simp_all add: vmm_alloc_physical_def kassert_def)
  next
    case 3
    from i p 3 v show ?thesis
    proof (cases rule: vmm_alloc_physical_cases [where align = PAGE_SIZE_SHIFT and mf = flags])
      case (fails al)
      have "owned R bs rs (s\<lparr>vm_alloc := al\<rparr>)"
        using vm_invD(2) [OF i] by (intro owned_cong [OF o]) simp_all
      then show ?thesis using fails 3(2) by (intro that(1))
    next
      case (maps r as al)
      let ?s = "arch_mmu_map (rg_base r) pa (sz div PAGE_SIZE) flags (s\<lparr>vm_alloc := al, aspace := as\<rparr>)"
      have "vm_inv R ?s"
        using vmm_alloc_physical_inv [OF i p 3(1), of "Some 0" PAGE_SIZE_SHIFT 0 flags] maps(1) by simp
      moreover have "placed (aspace s) r (aspace ?s)"
        using maps(2) by (simp add: arch_mmu_map_def)
      ultimately have "owned R (bs @ [rg_base r]) rs ?s" "rg_base r \<noteq> 0"
        using owned_placed [OF o] maps(5) by blast+
      then show ?thesis
        using maps(1) 3(2) by (intro that(3) [of "rg_base r" ?s]) (simp_all add: arch_mmu_map_def)
    qed
  qed
qed

lemma map_size_set [simp]: "map_size (set_base i a iv) j = map_size iv j"
  by (simp add: map_size_def)

lemma bases_set_base: "bases (set_base i a iv) 0 i = bases iv 0 i"
  by (rule bases_cong) simp

text \<open>What the loop leaves, started at vector \<open>i\<close> with \<open>n\<close> vectors to go.\<close>

definition mapped_up :: "vm_page set \<Rightarrow> vmm_region list \<Rightarrow> u32 \<Rightarrow> nat \<Rightarrow> nat \<Rightarrow> vqueue_iovs \<Rightarrow> vm_state \<Rightarrow> vqueue_iovs \<Rightarrow> vm_state \<Rightarrow> bool" where
  "mapped_up R rs flags i n iv s iv' s' \<longleftrightarrow> same_shape iv iv' \<and> owned R (bases iv' 0 (i + n)) rs s' \<and> (\<forall>j < i. iv_iovs iv' ! j = iv_iovs iv ! j) \<and>
     (\<forall>j. i \<le> j \<and> j < i + n \<longrightarrow> (ik_base (iv_iovs iv' ! j) = 0 \<longleftrightarrow> map_size iv j = 0) \<and> (iov_base iv' j = 0 \<longleftrightarrow> map_size iv j = 0)) \<and>
     mmu_calls s' = mmu_calls s @ concat (map (map_call flags iv') [i..<i + n])"

lemma map_up_Suc:
  assumes "i < length (iv_iovs iv)"
  shows "map_up flags i (Suc n) iv s = do {
     ((ret, ptr), s) \<leftarrow> vmm_alloc_physical (map_size iv i) (Some 0) PAGE_SIZE_SHIFT (iv_phys iv ! i) 0 flags s;
     base \<leftarrow> ptr;
     let iv = set_base i (unat base) (set_base i 0 iv);
     (if ret \<noteq> 0 then do { (iv, s) \<leftarrow> unmap_down i iv s; Some ((ret, iv), s) } else map_up flags (Suc i) n iv s)
   }"
  using assms by (simp add: map_size_def)

lemma mapped_up_Suc:
  assumes m: "mapped_up R rs flags (Suc i) n (set_base i (unat b) (set_base i 0 iv)) s1 iv' s'" and i: "i < length (iv_iovs iv)"
    and b: "b = 0 \<longleftrightarrow> map_size iv i = 0"
    and mc: "mmu_calls s1 = mmu_calls s @ (if b = 0 then [] else [MmuMap b (iv_phys iv ! i) (map_size iv i div PAGE_SIZE) flags])"
  shows "mapped_up R rs flags i (Suc n) iv s iv' s'"
proof -
  let ?iv = "set_base i (unat b) (set_base i 0 iv)"
  have t: "same_shape ?iv iv'" "owned R (bases iv' 0 (Suc i + n)) rs s'" "\<And>j. j < Suc i \<Longrightarrow> iv_iovs iv' ! j = iv_iovs ?iv ! j"
    "\<And>j. Suc i \<le> j \<Longrightarrow> j < Suc i + n \<Longrightarrow> (ik_base (iv_iovs iv' ! j) = 0 \<longleftrightarrow> map_size iv j = 0) \<and> (iov_base iv' j = 0 \<longleftrightarrow> map_size iv j = 0)"
    "mmu_calls s' = mmu_calls s1 @ concat (map (map_call flags iv') [Suc i..<Suc i + n])"
    using m by (simp_all add: mapped_up_def)
  have sh: "same_shape iv iv'"
    using t(1) same_shape_trans set_base_shape by blast
  have ib: "ik_base (iv_iovs iv' ! i) = unat b" "iov_base iv' i = b"
    using t(3) [of i] i by (simp_all add: iov_base_def)
  have "(ik_base (iv_iovs iv' ! j) = 0 \<longleftrightarrow> map_size iv j = 0) \<and> (iov_base iv' j = 0 \<longleftrightarrow> map_size iv j = 0)"
    if "i \<le> j" "j < i + Suc n" for j
    using that t(4) [of j] ib b by (cases "j = i") (simp_all add: unat_eq_0)
  moreover have "iv_iovs iv' ! j = iv_iovs iv ! j" if "j < i" for j
    using t(3) [of j] that by simp
  moreover have "map_call flags iv' i = (if b = 0 then [] else [MmuMap b (iv_phys iv ! i) (map_size iv i div PAGE_SIZE) flags])"
    using ib(2) b map_size_shape [OF sh i] sh by (simp add: map_call_def same_shape_def)
  then have "mmu_calls s' = mmu_calls s @ concat (map (map_call flags iv') [i..<i + Suc n])"
    using t(5) mc by (simp add: upt_conv_Cons del: upt_Suc)
  ultimately show ?thesis
    using sh t(2) by (simp add: mapped_up_def)
qed

lemma map_up_spec:
  assumes "i + n \<le> length (iv_iovs iv)" "owned R (bases iv 0 i) rs s" "\<And>j. j < i + n \<Longrightarrow> IS_PAGE_ALIGNED (iv_phys iv ! j)"
  shows "\<exists>ret iv' s'. map_up flags i n iv s = Some ((ret, iv'), s') \<and>
    (ret = ERR_NO_MEMORY \<and> same_shape iv iv' \<and> owned R [] rs s' \<or> ret = NO_ERROR \<and> mapped_up R rs flags i n iv s iv' s')"
  using assms
proof (induction n arbitrary: i iv s)
  case 0
  then show ?case by (auto simp: mapped_up_def)
next
  case (Suc n)
  have i: "i < length (iv_iovs iv)" "IS_PAGE_ALIGNED (iv_phys iv ! i)"
    using Suc.prems(1,3) by simp_all
  have rest: ?case
    if v: "vmm_alloc_physical (map_size iv i) (Some 0) PAGE_SIZE_SHIFT (iv_phys iv ! i) 0 flags s = Some ((NO_ERROR, Some b), s1)"
      and o: "owned R (bases iv 0 i @ (if b = 0 then [] else [b])) rs s1" and b: "b = 0 \<longleftrightarrow> map_size iv i = 0"
      and mc: "mmu_calls s1 = mmu_calls s @ (if b = 0 then [] else [MmuMap b (iv_phys iv ! i) (map_size iv i div PAGE_SIZE) flags])" for b s1
  proof -
    let ?iv = "set_base i (unat b) (set_base i 0 iv)"
    have "bases ?iv 0 (Suc i) = bases iv 0 i @ (if b = 0 then [] else [b])"
      using i(1) by (simp add: bases_Suc bases_set_base)
    then obtain ret iv' s' where r: "map_up flags (Suc i) n ?iv s1 = Some ((ret, iv'), s')"
      "ret = ERR_NO_MEMORY \<and> same_shape ?iv iv' \<and> owned R [] rs s' \<or> ret = NO_ERROR \<and> mapped_up R rs flags (Suc i) n ?iv s1 iv' s'"
      using Suc.IH [of "Suc i" ?iv s1] Suc.prems(1,3) o by auto
    have e: "map_up flags i (Suc n) iv s = Some ((ret, iv'), s')"
      unfolding map_up_Suc [OF i(1)] using v r(1) by simp
    have "same_shape ?iv iv' \<Longrightarrow> same_shape iv iv'"
      using same_shape_trans set_base_shape by blast
    then show ?thesis
      using e r(2) mapped_up_Suc [OF _ i(1) b mc] by blast
  qed
  from Suc.prems(2) i(2) show ?case
  proof (cases rule: map_one [where sz = "map_size iv i" and flags = flags])
    case (fails s1)
    let ?iv = "set_base i 0 (set_base i 0 iv)"
    obtain iv' s' where u: "unmap_down i ?iv s1 = Some (iv', s')" "same_shape ?iv iv'" "owned R [] rs s'"
      using unmap_down_spec [of i ?iv R rs s1] fails(3) i(1) by (auto simp: bases_set_base)
    have "map_up flags i (Suc n) iv s = Some ((ERR_NO_MEMORY, iv'), s')"
      unfolding map_up_Suc [OF i(1)] using fails(2) u(1) by simp
    then show ?thesis
      using u(2,3) same_shape_trans set_base_shape by blast
  next
    case empty
    then show ?thesis using rest [of 0 s] Suc.prems(2) by simp
  next
    case (maps b s1)
    then show ?thesis using rest [of b s1] by simp
  next
    case unaligned
    then show ?thesis by (simp add: map_size_def ROUNDUP_aligned)
  qed
qed

lemma ROUNDUP_page_pos:
  assumes "0 < n" "n \<le> 0xfffff000"
  shows "ROUNDUP (of_nat n) PAGE_SIZE \<noteq> (0 :: u32)"
proof -
  have "unat (of_nat n :: u32) = n"
    using assms(2) by (simp add: unat_of_nat)
  then have "unat (ROUNDUP (of_nat n) (2 ^ 12) :: u32) = (n + 2 ^ 12 - 1) div 2 ^ 12 * 2 ^ 12"
    using ROUNDUP_nat [where 'a = 32, of 12 "of_nat n"] assms(2) by simp
  then have "unat (ROUNDUP (of_nat n) (2 ^ 12) :: u32) \<noteq> 0"
    using roundup_ge(1) [of "2 ^ 12" n] assms(1) by simp
  then show ?thesis
    by auto
qed

lemma ROUNDUP_page_room:
  assumes "n \<le> 0xfffff000"
  shows "n \<le> unat (ROUNDUP (of_nat n) PAGE_SIZE div PAGE_SIZE :: u32) * 4096"
proof -
  have "unat (of_nat n :: u32) = n"
    using assms by (simp add: unat_of_nat)
  then have "unat (ROUNDUP (of_nat n) (2 ^ 12) :: u32) = (n + 2 ^ 12 - 1) div 2 ^ 12 * 2 ^ 12"
    using ROUNDUP_nat [where 'a = 32, of 12 "of_nat n"] assms by simp
  then show ?thesis
    using roundup_ge(1) [of "2 ^ 12" n] by (simp add: unat_div)
qed

lemma ROUNDUP_page_wraps:
  assumes "n = 0 \<or> 0xfffff000 < n" "n < 2 ^ 32"
  shows "ROUNDUP (of_nat n) PAGE_SIZE = (0 :: u32)"
proof -
  let ?y = "of_nat n + mask 12 :: u32"
  have "unat ?y < 2 ^ 12"
  proof (cases "n = 0")
    case False
    have "unat ?y = (n + 4095) mod 2 ^ 32"
      using assms(2) by (simp add: unat_word_ariths unat_of_nat mask_eq_exp_minus_1)
    then show ?thesis
      using assms False by (simp add: mod_if) linarith
  qed (simp add: mask_eq_exp_minus_1)
  then have "?y AND mask 12 = ?y"
    by (intro less_mask_eq) (simp add: word_less_nat_alt)
  moreover have "(?y AND mask 12) AND NOT (mask 12) = 0"
    by (rule bit_eqI) (simp add: bit_simps)
  ultimately have "?y AND NOT (mask 12) = 0"
    by simp
  then show ?thesis
    by (simp add: ROUNDUP_def mask_eq_exp_minus_1)
qed

text \<open>The two outcomes of mapping a buffer whose vectors have sizes that do not wrap.\<close>

lemma vqueue_map_iovs_cases:
  assumes "vm_inv R s" "iv_used iv \<le> iv_cnt iv" "length (iv_iovs iv) = iv_cnt iv"
    and "\<And>j. j < iv_used iv \<Longrightarrow> IS_PAGE_ALIGNED (iv_phys iv ! j)"
    and "\<And>j. j < iv_used iv \<Longrightarrow> 0 < ik_len (iv_iovs iv ! j) \<and> ik_len (iv_iovs iv ! j) \<le> 0xfffff000"
  obtains (fails) iv' s' where "vqueue_map_iovs iv flags s = Some ((ERR_NO_MEMORY, iv'), s')" "same_shape iv iv'"
      "owned R [] (region_list (aspace s)) s'"
  | (maps) iv' s' where "vqueue_map_iovs iv flags s = Some ((NO_ERROR, iv'), s')" "same_shape iv iv'"
      "owned R (map (iov_base iv') [0..<iv_used iv]) (region_list (aspace s)) s'"
      "\<And>j. j < iv_used iv \<Longrightarrow> ik_base (iv_iovs iv' ! j) \<noteq> 0 \<and> iov_base iv' j \<noteq> 0"
      "mmu_calls s' = mmu_calls s @ map (\<lambda>j. MmuMap (iov_base iv' j) (iv_phys iv ! j) (map_size iv j div PAGE_SIZE) flags) [0..<iv_used iv]"
proof -
  let ?rs = "region_list (aspace s)" and ?n = "iv_used iv"
  have p: "map_size iv j \<noteq> 0" if "j < ?n" for j
    using ROUNDUP_page_pos [of "ik_len (iv_iovs iv ! j)"] assms(5) [OF that] by (simp add: map_size_def)
  obtain ret iv' s' where m: "map_up flags 0 ?n iv s = Some ((ret, iv'), s')"
    "ret = ERR_NO_MEMORY \<and> same_shape iv iv' \<and> owned R [] ?rs s' \<or> ret = NO_ERROR \<and> mapped_up R ?rs flags 0 ?n iv s iv' s'"
    using map_up_spec [of 0 ?n iv R ?rs s flags] assms(1-4) by (auto simp: bases_def)
  have e: "vqueue_map_iovs iv flags s = Some ((ret, iv'), s')"
    using m(1) assms(2) by (simp add: vqueue_map_iovs_def kassert_def)
  show ?thesis
  proof (cases "ret = NO_ERROR")
    case False
    then show ?thesis using e m(2) that(1) by blast
  next
    case True
    then have u: "same_shape iv iv'" "owned R (bases iv' 0 ?n) ?rs s'"
      "\<And>j. j < ?n \<Longrightarrow> ik_base (iv_iovs iv' ! j) \<noteq> 0 \<and> iov_base iv' j \<noteq> 0"
      "mmu_calls s' = mmu_calls s @ concat (map (map_call flags iv') [0..<?n])"
      using m(2) p by (auto simp: mapped_up_def)
    have "bases iv' 0 ?n = map (iov_base iv') [0..<?n]"
      using u(3) by (auto simp: bases_def intro!: filter_True)
    moreover have "map_call flags iv' j = [MmuMap (iov_base iv' j) (iv_phys iv ! j) (map_size iv j div PAGE_SIZE) flags]" if "j < ?n" for j
      using that p [OF that] map_size_shape [OF u(1), of j] u(1) assms(2,3) by (simp add: map_call_def same_shape_def)
    then have "map (map_call flags iv') [0..<?n] = map (\<lambda>j. [MmuMap (iov_base iv' j) (iv_phys iv ! j) (map_size iv j div PAGE_SIZE) flags]) [0..<?n]"
      by simp
    then have "mmu_calls s' = mmu_calls s @ map (\<lambda>j. MmuMap (iov_base iv' j) (iv_phys iv ! j) (map_size iv j div PAGE_SIZE) flags) [0..<?n]"
      unfolding u(4) by (simp only: concat_map_singleton)
    ultimately show ?thesis
      using that(2) [of iv' s'] e True u(1-3) by simp
  qed
qed

lemma vqueue_unmap_iovs_owned:
  assumes "owned R (map (iov_base iv) [0..<iv_used iv]) rs s" "iv_used iv \<le> iv_cnt iv" "length (iv_iovs iv) = iv_cnt iv"
    and "\<And>j. j < iv_used iv \<Longrightarrow> ik_base (iv_iovs iv ! j) \<noteq> 0 \<and> iov_base iv j \<noteq> 0"
  shows "\<exists>iv' s'. vqueue_unmap_iovs iv s = Some (iv', s') \<and> same_shape iv iv' \<and> owned R [] rs s' \<and> (\<forall>j < iv_used iv. ik_base (iv_iovs iv' ! j) = 0)"
proof -
  let ?n = "iv_used iv"
  have "bases iv 0 ?n = map (iov_base iv) [0..<?n]"
    unfolding bases_def by (rule filter_True) (use assms(4) in simp)
  then obtain iv' s' where "unmap_up 0 ?n iv s = Some (iv', s')" "same_shape iv iv'" "owned R [] rs s'"
    "\<And>j. j < ?n \<Longrightarrow> ik_base (iv_iovs iv' ! j) = 0"
    using unmap_up_spec [of 0 ?n iv R rs s] assms by auto
  then show ?thesis
    using assms(2) by (simp add: vqueue_unmap_iovs_def kassert_def)
qed

lemma vqueue_map_one:
  assumes "vm_inv R s" "iv_used iv = 1" "iv_cnt iv = 1" "length (iv_iovs iv) = 1" "map_size iv 0 \<noteq> 0"
    and m: "vqueue_map_iovs iv flags s = Some ((NO_ERROR, iv'), s')" "vqueue_unmap_iovs iv' s' = Some (iv'', s'')"
  shows "mmu_calls s'' = mmu_calls s @ [MmuMap (iov_base iv' 0) (iv_phys iv ! 0) (map_size iv 0 div PAGE_SIZE) flags,
      MmuUnmap (iov_base iv' 0) (map_size iv 0 div PAGE_SIZE)]"
    and "ik_base (iv_iovs iv' ! 0) = unat (iov_base iv' 0)"
proof -
  have u: "map_up flags 0 (Suc 0) iv s = Some ((NO_ERROR, iv'), s')"
    using m(1) assms(2,3) by (simp add: vqueue_map_iovs_def kassert_def del: map_up.simps)
  obtain b where b: "vmm_alloc_physical (map_size iv 0) (Some 0) PAGE_SIZE_SHIFT (iv_phys iv ! 0) 0 flags s = Some ((NO_ERROR, Some b), s')"
    "iv' = set_base 0 (unat b) (set_base 0 0 iv)"
    using u assms(4) by (subst (asm) map_up_Suc) (auto simp: bind_eq_Some_conv Let_def split: if_splits prod.splits)
  have i: "iov_base iv' 0 = b" "ik_base (iv_iovs iv' ! 0) = unat b" "iv_used iv' = 1" "iv_cnt iv' = 1"
    using assms(2-4) by (simp_all add: b(2) set_base_def iov_base_def)
  then show "ik_base (iv_iovs iv' ! 0) = unat (iov_base iv' 0)"
    by simp
  obtain t where "vmm_free_region b s' = Some (NO_ERROR, t)"
      "mmu_calls t = mmu_calls s @ [MmuMap b (iv_phys iv ! 0) (map_size iv 0 div PAGE_SIZE) flags, MmuUnmap b (map_size iv 0 div PAGE_SIZE)]"
    using vmm_map_free [OF assms(1,5) b(1)] by blast
  then show "mmu_calls s'' = mmu_calls s @ [MmuMap (iov_base iv' 0) (iv_phys iv ! 0) (map_size iv 0 div PAGE_SIZE) flags,
      MmuUnmap (iov_base iv' 0) (map_size iv 0 div PAGE_SIZE)]"
    using m(2) i by (simp add: vqueue_unmap_iovs_def kassert_def split: if_splits)
qed

text \<open>
  C31: Mapping the vectors of a buffer is all or nothing. When it fails the regions are those
  from before the call. When it succeeds each vector is mapped by one call with its physical
  address and its length in whole pages, at distinct addresses, and unmapping the buffer
  succeeds and leaves exactly the regions from before the mapping.
\<close>

theorem vqueue_map_iovs_all_or_nothing:
  assumes "vm_reach R s" "iv_used iv \<le> iv_cnt iv" "length (iv_iovs iv) = iv_cnt iv"
    and "\<And>j. j < iv_used iv \<Longrightarrow> IS_PAGE_ALIGNED (iv_phys iv ! j)"
    and "\<And>j. j < iv_used iv \<Longrightarrow> 0 < ik_len (iv_iovs iv ! j) \<and> ik_len (iv_iovs iv ! j) \<le> 0xfffff000"
  shows "\<exists>ret iv' s'. vqueue_map_iovs iv flags s = Some ((ret, iv'), s') \<and>
    (ret = ERR_NO_MEMORY \<and> region_list (aspace s') = region_list (aspace s) \<or>
     ret = NO_ERROR \<and> distinct (map (iov_base iv') [0..<iv_used iv]) \<and>
     mmu_calls s' = mmu_calls s @ map (\<lambda>j. MmuMap (iov_base iv' j) (iv_phys iv ! j)
       (ROUNDUP (of_nat (ik_len (iv_iovs iv ! j))) PAGE_SIZE div PAGE_SIZE) flags) [0..<iv_used iv] \<and>
     (\<exists>iv'' s''. vqueue_unmap_iovs iv' s' = Some (iv'', s'') \<and> region_list (aspace s'') = region_list (aspace s) \<and>
        (\<forall>j < iv_used iv. ik_base (iv_iovs iv'' ! j) = 0)))"
proof (rule vqueue_map_iovs_cases [of R s iv flags])
  show "vm_inv R s" using vm_reach_inv assms(1) .
next
  fix iv' s' assume "vqueue_map_iovs iv flags s = Some ((ERR_NO_MEMORY, iv'), s')" "owned R [] (region_list (aspace s)) s'"
  then show ?thesis by auto
next
  fix iv' s'
  assume maps: "vqueue_map_iovs iv flags s = Some ((NO_ERROR, iv'), s')" "same_shape iv iv'"
    "owned R (map (iov_base iv') [0..<iv_used iv]) (region_list (aspace s)) s'"
    "\<And>j. j < iv_used iv \<Longrightarrow> ik_base (iv_iovs iv' ! j) \<noteq> 0 \<and> iov_base iv' j \<noteq> 0"
    "mmu_calls s' = mmu_calls s @ map (\<lambda>j. MmuMap (iov_base iv' j) (iv_phys iv ! j) (map_size iv j div PAGE_SIZE) flags) [0..<iv_used iv]"
  have c: "iv_used iv' = iv_used iv" "iv_cnt iv' = iv_cnt iv" "length (iv_iovs iv') = iv_cnt iv"
    using maps(2) same_shape_length [OF maps(2)] assms(3) by (simp_all add: same_shape_def)
  obtain iv'' s'' where "vqueue_unmap_iovs iv' s' = Some (iv'', s'')" "owned R [] (region_list (aspace s)) s''"
    "\<forall>j < iv_used iv. ik_base (iv_iovs iv'' ! j) = 0"
    using vqueue_unmap_iovs_owned [of R iv' "region_list (aspace s)" s'] maps(3,4) assms(2) c by auto
  moreover have "distinct (map (iov_base iv') [0..<iv_used iv])"
    using maps(3) by (simp add: owned_def)
  ultimately show ?thesis
    using maps(1,5) by (simp add: map_size_def)
qed (use assms in auto)

text \<open>
  C33: The lengths and addresses of a buffer come from the other side. Of a buffer of one vector
  an address that is not page aligned fails an assertion while mapping, whatever the length.
  At an aligned address a length of zero, or one that rounds up past the end of the address
  space, is mapped ``successfully'' to a null pointer, and unmapping that buffer fails the
  assertion that the base is set.
\<close>

theorem vqueue_map_iovs_bad_length_panics:
  assumes "iv_used iv = 1" "length (iv_iovs iv) = iv_cnt iv" "1 \<le> iv_cnt iv" "ik_len (iv_iovs iv ! 0) < 2 ^ 32"
  shows "if IS_PAGE_ALIGNED (iv_phys iv ! 0)
    then ik_len (iv_iovs iv ! 0) = 0 \<or> 0xfffff000 < ik_len (iv_iovs iv ! 0) \<longrightarrow>
      (\<exists>iv'. vqueue_map_iovs iv flags s = Some ((NO_ERROR, iv'), s) \<and> ik_base (iv_iovs iv' ! 0) = 0 \<and> vqueue_unmap_iovs iv' s = None)
    else vqueue_map_iovs iv flags s = None"
proof -
  have m: "vqueue_map_iovs iv flags s = map_up flags 0 (Suc 0) iv s" "0 < length (iv_iovs iv)"
    using assms(1-3) by (simp_all add: vqueue_map_iovs_def kassert_def del: map_up.simps)
  have u: "iv_used (set_base 0 a iv') = iv_used iv'" "iv_cnt (set_base 0 a iv') = iv_cnt iv'" for a iv'
    by (simp_all add: set_base_def)
  have n: "vqueue_map_iovs iv flags s = None" if "\<not> IS_PAGE_ALIGNED (iv_phys iv ! 0)"
    unfolding m(1) map_up_Suc [OF m(2)] using that by (simp add: vmm_alloc_physical_def kassert_def)
  have "\<exists>iv'. vqueue_map_iovs iv flags s = Some ((NO_ERROR, iv'), s) \<and> ik_base (iv_iovs iv' ! 0) = 0 \<and> vqueue_unmap_iovs iv' s = None"
    if a: "IS_PAGE_ALIGNED (iv_phys iv ! 0)" and l: "ik_len (iv_iovs iv ! 0) = 0 \<or> 0xfffff000 < ik_len (iv_iovs iv ! 0)"
  proof -
    let ?iv = "set_base 0 0 (set_base 0 0 iv)"
    have "map_size iv 0 = 0"
      using ROUNDUP_page_wraps [OF l assms(4)] by (simp add: map_size_def)
    then have "vqueue_map_iovs iv flags s = Some ((NO_ERROR, ?iv), s)"
      unfolding m(1) map_up_Suc [OF m(2)] using a by (simp add: vmm_alloc_physical_def kassert_def IS_PAGE_ALIGNED_def)
    moreover have "ik_base (iv_iovs ?iv ! 0) = 0" "vqueue_unmap_iovs ?iv s = None"
      using assms(1-3) m(2) by (simp_all add: vqueue_unmap_iovs_def kassert_def u)
    ultimately show ?thesis
      by blast
  qed
  then show ?thesis
    using n by simp
qed

section \<open>The size of a ring\<close>

text \<open>
  C32: For rings of up to 65536 descriptors and alignments of up to 64 KiB the size is that
  of the layout: the descriptors and the available ring, padded to the least multiple of the
  alignment that holds them, then the used ring. The mapping of such a ring holds all of it.
\<close>

theorem vring_size_exact:
  assumes "unat num \<le> 2 ^ 16" "k \<le> 16"
  shows "unat (vring_size num (2 ^ k)) = (16 * unat num + 2 * (3 + unat num) + 2 ^ k - 1) div 2 ^ k * 2 ^ k + 2 * 3 + 8 * unat num \<and>
    unat (vring_size num (2 ^ k)) \<le> unat (ROUNDUP (vring_size num (2 ^ k)) PAGE_SIZE)"
proof -
  let ?x = "16 * num + 2 * (3 + num)" and ?n = "unat num"
  have n: "unat ?x = 16 * ?n + 2 * (3 + ?n)"
    using assms(1) by (simp add: unat_word_ariths)
  have k: "(2::nat) ^ k \<le> 2 ^ 16"
    using assms(2) by (intro power_increasing) simp_all
  have e: "vring_size num (2 ^ k) = ROUNDUP ?x (2 ^ k) + (6 + 8 * num)"
    by (simp add: vring_size_def ROUNDUP_def algebra_simps)
  have r: "unat (ROUNDUP ?x (2 ^ k)) = (16 * ?n + 2 * (3 + ?n) + 2 ^ k - 1) div 2 ^ k * 2 ^ k"
    using ROUNDUP_nat [of k ?x] n k assms by simp
  then have b: "unat (ROUNDUP ?x (2 ^ k)) < 16 * ?n + 2 * (3 + ?n) + 2 ^ k"
    using roundup_ge(2) [of "2 ^ k" "16 * ?n + 2 * (3 + ?n)"] by simp
  have u: "unat (6 + 8 * num) = 6 + 8 * ?n"
    using assms(1) by (simp add: unat_word_ariths)
  have s: "unat (vring_size num (2 ^ k)) = unat (ROUNDUP ?x (2 ^ k)) + (6 + 8 * ?n)"
    unfolding e using b u k assms(1) by (simp add: unat_word_ariths)
  moreover have "unat (vring_size num (2 ^ k)) \<le> unat (ROUNDUP (vring_size num (2 ^ k)) (2 ^ 12))"
    using ROUNDUP_nat [of 12 "vring_size num (2 ^ k)"] roundup_ge(1) [of "2 ^ 12" "unat (vring_size num (2 ^ k))"] s b k assms(1)
    by simp
  ultimately show ?thesis
    using r by simp
qed

theorem vring_size_exact_witness: "unat (vring_size 32 0x1000) = 4096 + 6 + 8 * 32"
  using vring_size_exact [of 32 12] by simp

text \<open>The bytes of a page-aligned ring in the layout of the other side, without wrap-around.\<close>

definition ring_bytes :: "nat \<Rightarrow> nat" where
  "ring_bytes n = (16 * n + 2 * (3 + n) + 4095) div 4096 * 4096 + 6 + 8 * n"

lemma div_mult_mod: "(a mod (c * d)) div c * c = (a div c * c) mod (c * d)" for a c d :: nat
proof (cases "c = 0")
  case False
  have "(a mod (c * d)) div c = a div c mod d"
    unfolding mod_mult2_eq using False by simp
  then show ?thesis
    by (metis mult.commute mult_mod_right)
qed simp

lemma page_floor: "unat (x AND NOT 4095 :: u32) = unat x div 4096 * 4096"
proof -
  have "x AND NOT (mask 12) = push_bit 12 (drop_bit 12 x)"
    by (rule bit_eqI) (auto simp: bit_simps)
  moreover have "unat x div 4096 * 4096 < 2 ^ 32"
    using unsigned_less [where ?'a = nat, of x] div_times_less_eq_dividend [of "unat x" 4096] by (simp add: le_less_trans)
  ultimately show ?thesis
    by (simp add: mask_eq_exp_minus_1 push_bit_eq_mult unat_word_ariths unat_drop_bit_eq drop_bit_eq_div)
qed

lemma vring_size_mod: "unat (vring_size num 4096) = ring_bytes (unat num) mod 2 ^ 32"
proof -
  let ?n = "unat num"
  have "unat (16 * num + 2 * (3 + num) + 4096 - 1) = (16 * ?n + 2 * (3 + ?n) + 4095) mod (4096 * 2 ^ 20)"
  proof -
    have "16 * num + 2 * (3 + num) + 4096 - 1 = of_nat (16 * ?n + 2 * (3 + ?n) + 4095)"
      by simp
    then show ?thesis
      by (simp only: unat_of_nat) simp
  qed
  then have "unat ((16 * num + 2 * (3 + num) + 4096 - 1) AND NOT 4095) = ((16 * ?n + 2 * (3 + ?n) + 4095) div 4096 * 4096) mod 2 ^ 32"
    unfolding page_floor by (simp only: div_mult_mod) simp
  moreover have "unat (x + 2 * 3 + 8 * num) = (unat x + (6 + 8 * ?n)) mod 2 ^ 32" for x :: u32
  proof -
    have "x + 2 * 3 + 8 * num = of_nat (unat x + (6 + 8 * ?n))"
      by simp
    then show ?thesis
      by (simp only: unat_of_nat) simp
  qed
  ultimately show ?thesis
    by (simp add: vring_size_def ring_bytes_def add.assoc mod_simps)
qed

lemma ROUNDUP_page_upto: "unat (ROUNDUP x PAGE_SIZE :: u32) < unat x + 4096"
proof -
  have "unat (x + 4095) \<le> unat x + 4095"
    by (simp add: unat_word_ariths)
  then show ?thesis
    using page_floor [of "x + 4095"] div_times_less_eq_dividend [of "unat (x + 4095)" 4096] by (simp add: ROUNDUP_def add_diff_eq [symmetric])
qed

lemma page_mult: "IS_PAGE_ALIGNED sz \<Longrightarrow> unat (sz div PAGE_SIZE :: u32) * 4096 = unat sz"
  by (simp add: unat_div page_aligned_dvd)

section \<open>Examples\<close>

definition ex_ring :: vring where
  "ex_ring = \<lparr>vr_num = 4, vr_desc = (\<lambda>i. if i = 0 then \<lparr>vd_addr = 0x2000, vd_len = 100, vd_flags = 1, vd_next = 3\<rparr>
     else \<lparr>vd_addr = 0x5000, vd_len = 64, vd_flags = 2, vd_next = 0\<rparr>),
     avail_idx = 1, avail_ring = (\<lambda>_. 0), used_flags = 0, used_idx = 0, used_ring = (\<lambda>_. (0, 0))\<rparr>"

definition ex_vq :: vqueue where
  "ex_vq = \<lparr>vq_id = 0, vq_vring = ex_ring, vring_addr = 0x80001000, vring_sz = 4248, last_avail_idx = 0, avail_event = True,
     has_notify_cb = True, has_kick_cb = False\<rparr>"

definition ex_iovs :: vqueue_iovs where
  "ex_iovs = \<lparr>iv_cnt = 1, iv_used = 0, iv_len = 0, iv_phys = [0], iv_iovs = [\<lparr>ik_base = 0, ik_len = 0\<rparr>]\<rparr>"

definition ex_buf :: vqueue_buf where
  "ex_buf = \<lparr>vb_head = 0, in_iovs = ex_iovs, out_iovs = ex_iovs\<rparr>"

definition ex_taken :: "vqueue \<times> vqueue_buf" where
  "ex_taken = snd (the (vqueue_get_avail_buf 1 ex_vq ex_buf))"

lemmas ex_vq_defs = ex_vq_def ex_ring_def ex_buf_def ex_iovs_def

lemma ex_get: "vqueue_get_avail_buf 1 ex_vq ex_buf = Some (NO_ERROR, ex_taken)"
  by (simp add: ex_taken_def ex_vq_defs vqueue_get_avail_buf_def vqueue_get_avail_buf_locked_def chain_loop.simps put_desc_def)

theorem vqueue_get_avail_buf_chain_witness:
  "\<exists>ds. chain ex_ring (avail_head ex_vq) ds \<and> fits ds (clear_buf ex_buf (avail_head ex_vq))"
  using vqueue_get_avail_buf_chain [of ex_buf 1 ex_vq] ex_get by (cases ex_taken) (auto simp: ex_vq_defs)

theorem vqueue_taken_buf_returned_witness:
  "\<exists>vq''. vqueue_add_buf (fst ex_taken) (snd ex_taken) 20 = (NO_ERROR, vq'') \<and> used_ring (vq_vring vq'') 0 = (0, 20) \<and> used_idx (vq_vring vq'') = 1"
  using vqueue_taken_buf_returned [of 1 ex_vq ex_buf NO_ERROR "fst ex_taken" "snd ex_taken" "snd ex_taken" 20] ex_get
  by (auto simp: ex_vq_defs avail_head_def)

definition ex_in :: "nat \<Rightarrow> vqueue_iovs" where
  "ex_in len = \<lparr>iv_cnt = 1, iv_used = 1, iv_len = of_nat len, iv_phys = [0], iv_iovs = [\<lparr>ik_base = 0, ik_len = len\<rparr>]\<rparr>"

theorem vqueue_map_iovs_all_or_nothing_witness:
  "\<exists>iv' s' iv'' s''. vqueue_map_iovs (ex_in 100) 0 ex_vm = Some ((NO_ERROR, iv'), s') \<and> vqueue_unmap_iovs iv' s' = Some (iv'', s'') \<and>
     region_list (aspace s'') = []"
proof -
  have "ROUNDUP 100 PAGE_SIZE = (PAGE_SIZE :: u32)"
    by (simp add: ROUNDUP_def)
  then obtain iv' s' where m: "vqueue_map_iovs (ex_in 100) 0 ex_vm = Some ((NO_ERROR, iv'), s')"
    using ex_vm_map by (simp add: vqueue_map_iovs_def ex_in_def kassert_def set_base_def iov_base_def)
  have "region_list (aspace ex_vm) = []"
    by (simp add: ex_vm_def vmm_init_def)
  with vqueue_map_iovs_all_or_nothing [OF ex_vm_reach, of "ex_in 100" 0] show ?thesis
    unfolding m by (simp add: ex_in_def IS_PAGE_ALIGNED_def) blast
qed

theorem vqueue_map_iovs_bad_length_panics_witness:
  "\<exists>iv'. vqueue_map_iovs (ex_in 0) 0 ex_vm = Some ((NO_ERROR, iv'), ex_vm) \<and> vqueue_unmap_iovs iv' ex_vm = None"
  using vqueue_map_iovs_bad_length_panics [of "ex_in 0" 0 ex_vm] by (auto simp: ex_in_def IS_PAGE_ALIGNED_def)

text \<open>
  C34: The number of descriptors comes from the other side as well and is not checked. Whenever
  the ring of that number of descriptors takes 4 GiB or more its size wraps in 32 bits, and a
  queue that starts on it has mapped at least 4 GiB less a page too little, possibly nothing
  at all. Every 16-bit index passes the range check against that number all the same, so if
  less than a megabyte is mapped there are indices that pass it whose descriptor starts past
  the end of the mapping.
\<close>

theorem vqueue_init_wrapped_ring:
  assumes "vm_reach R s" "2 ^ 32 \<le> ring_bytes (unat num)"
    and "vqueue_init vq ring_at qid paddr num PAGE_SIZE notify_cb kick_cb s = Some ((ret, vq'), s')"
  shows "\<exists>pages. mmu_calls s' = mmu_calls s @ (if pages = 0 then [] else
        [MmuMap (vring_addr vq') paddr pages (ARCH_MMU_FLAG_NS OR ARCH_MMU_FLAG_PERM_NO_EXECUTE)]) \<and>
     unat pages * 4096 + 2 ^ 32 < ring_bytes (unat num) + 4096 \<and>
     (\<forall>i :: u16. unat i < unat (vr_num (vq_vring vq'))) \<and>
     (unat pages < 256 \<longrightarrow> (\<exists>i :: u16. unat pages * 4096 \<le> 16 * unat i))"
proof -
  let ?sz = "ROUNDUP (vring_size num PAGE_SIZE) PAGE_SIZE" and ?fl = "ARCH_MMU_FLAG_NS OR ARCH_MMU_FLAG_PERM_NO_EXECUTE"
  obtain v where v: "vmm_alloc_physical ?sz (Some 0) PAGE_SIZE_SHIFT paddr 0 ?fl s = Some ((NO_ERROR, Some v), s')"
    "vr_num (vq_vring vq') = num" "vring_addr vq' = v"
    using assms(3) by (auto simp: vqueue_init_def Let_def bind_eq_Some_conv split: if_splits)
  have p: "unat (?sz div PAGE_SIZE) * 4096 = unat ?sz" "?sz div PAGE_SIZE = 0 \<longleftrightarrow> ?sz = 0"
    using page_mult [OF vmm_alloc_physical_args(2) [OF v(1)]] by (auto simp: unat_eq_0)
  have "mmu_calls s' = mmu_calls s @ (if ?sz div PAGE_SIZE = 0 then [] else [MmuMap v paddr (?sz div PAGE_SIZE) ?fl])"
    unfolding p(2) using physical_calls [OF vm_reach_inv [OF assms(1)] v(1)] .
  moreover have "unat (?sz div PAGE_SIZE) * 4096 + 2 ^ 32 < ring_bytes (unat num) + 4096"
  proof -
    have "ring_bytes (unat num) mod 2 ^ 32 \<le> ring_bytes (unat num) - 2 ^ 32"
      unfolding le_mod_geq [OF assms(2)] by (rule mod_less_eq_dividend)
    then show ?thesis
      unfolding p using ROUNDUP_page_upto [of "vring_size num PAGE_SIZE"] assms(2) unfolding vring_size_mod by linarith
  qed
  moreover have "unat i < unat num" for i :: u16
  proof -
    have "2 ^ 16 \<le> unat num"
      using assms(2) div_times_less_eq_dividend [of "16 * unat num + 2 * (3 + unat num) + 4095" 4096] by (simp add: ring_bytes_def)
    then show ?thesis
      using unsigned_less [where ?'a = nat, of i] by simp
  qed
  moreover have "unat (?sz div PAGE_SIZE) < 256 \<Longrightarrow> unat (?sz div PAGE_SIZE) * 4096 \<le> 16 * unat (0xffff :: u16)"
    by simp
  ultimately show ?thesis
    unfolding v(2,3) by blast
qed

theorem vqueue_init_wrapped_ring_witness:
  "\<exists>vq' s'. vqueue_init ex_vq (\<lambda>_. ex_ring) 0 0 165191050 PAGE_SIZE True False ex_vm = Some ((NO_ERROR, vq'), s') \<and>
     mmu_calls s' = [MmuMap (vring_addr vq') 0 1 (ARCH_MMU_FLAG_NS OR ARCH_MMU_FLAG_PERM_NO_EXECUTE)] \<and>
     (\<forall>i :: u16. unat i < unat (vr_num (vq_vring vq'))) \<and> (\<exists>i :: u16. 4096 \<le> 16 * unat i)"
proof -
  let ?r = "vqueue_init ex_vq (\<lambda>_. ex_ring) 0 0 165191050 PAGE_SIZE True False ex_vm"
  have "map_option (\<lambda>((ret, vq'), s'). (ret, mmu_calls s', vring_addr vq')) ?r =
    Some (NO_ERROR, [MmuMap 0x80000000 0 1 (ARCH_MMU_FLAG_NS OR ARCH_MMU_FLAG_PERM_NO_EXECUTE)], 0x80000000)"
    by code_simp
  then obtain vq' s' where r: "?r = Some ((NO_ERROR, vq'), s')"
    "mmu_calls s' = [MmuMap (vring_addr vq') 0 1 (ARCH_MMU_FLAG_NS OR ARCH_MMU_FLAG_PERM_NO_EXECUTE)]"
    by auto
  have "mmu_calls ex_vm = []"
    by (simp add: ex_vm_def vmm_init_def)
  then show ?thesis
    using vqueue_init_wrapped_ring [OF ex_vm_reach _ r(1)] r by (auto simp: ring_bytes_def split: if_splits)
qed

text \<open>
  C35: Starting a queue again does not reset its position. After a queue that took buffers
  was destroyed and is initialised on a new ring of up to 32768 descriptors, which the other
  side starts at index 0, the first look at the ring panics, unless the old position is 0 or
  within a ring's size of wrapping around.
\<close>

theorem vqueue_restart_panics:
  assumes "vqueue_destroy vq s = Some (vq0, s0)"
    and "vqueue_init vq0 ring_at qid paddr num align notify_cb kick_cb s0 = Some ((NO_ERROR, vq1), s1)"
    and "\<And>va. avail_idx (ring_at va) = 0" "vring_addr vq1 \<noteq> 0" "unat num \<le> 2 ^ 15"
    and "0 < unat (last_avail_idx vq)" "unat (last_avail_idx vq) < 2 ^ 16 - unat num"
  shows "vqueue_get_avail_buf idx2 vq1 buf = None"
proof -
  have l: "last_avail_idx vq1 = last_avail_idx vq" "avail_idx (vq_vring vq1) = 0" "vr_num (vq_vring vq1) = num"
    using assms(1-3) by (auto simp: vqueue_destroy_def vqueue_init_def Option.bind_eq_Some_conv split: if_splits)
  have "unat (ucast num :: u16) = unat num"
    using assms(5) by (simp add: unsigned_ucast_eq take_bit_nat_eq_self)
  moreover have "unat (0 - last_avail_idx vq) = 2 ^ 16 - unat (last_avail_idx vq)"
    using assms(6) unsigned_less [where ?'a = nat, of "last_avail_idx vq"]
    by (simp only: unat_sub_if' unsigned_0) simp
  ultimately have "ucast num < 0 - last_avail_idx vq"
    using assms(7) by (simp add: word_less_nat_alt)
  then show ?thesis
    unfolding get_avail_None l using assms(4) by simp
qed

definition ex_old :: vqueue where
  "ex_old = ex_vq\<lparr>last_avail_idx := 5\<rparr>"

definition ex_restart :: "((int \<times> vqueue) \<times> vm_state) option" where
  "ex_restart = do {
     (vq, s) \<leftarrow> vqueue_destroy ex_old ex_vm;
     vqueue_init vq (\<lambda>_. ex_ring\<lparr>avail_idx := 0\<rparr>) 0 0 4 PAGE_SIZE True False s
   }"

theorem vqueue_restart_panics_witness:
  "\<exists>vq1 s1. ex_restart = Some ((NO_ERROR, vq1), s1) \<and> vqueue_get_avail_buf 0 vq1 ex_buf = None"
proof -
  have "map_option (\<lambda>((ret, vq), s). (ret, vring_addr vq)) ex_restart = Some (NO_ERROR, 0x80000000)"
    by code_simp
  then obtain vq0 s0 vq1 s1 where r: "ex_restart = Some ((NO_ERROR, vq1), s1)" "vring_addr vq1 = 0x80000000"
    "vqueue_destroy ex_old ex_vm = Some (vq0, s0)"
    "vqueue_init vq0 (\<lambda>_. ex_ring\<lparr>avail_idx := 0\<rparr>) 0 0 4 PAGE_SIZE True False s0 = Some ((NO_ERROR, vq1), s1)"
    unfolding ex_restart_def by (auto simp: Option.bind_eq_Some_conv)
  have "vqueue_get_avail_buf 0 vq1 ex_buf = None"
    using r(2) by (intro vqueue_restart_panics [OF r(3,4)]) (simp_all add: ex_old_def)
  then show ?thesis
    using r(1) by blast
qed
end
