(* ===== verification/Tipc_Dev.thy ===== *)
theory Tipc_Dev
  imports Uctx Vqueue
begin

text \<open>
  The device of \<^verbatim>\<open>lib/trusty/tipc_dev.c\<close> that joins the channels of the secure kernel to
  clients of the non-secure side. Every client is an endpoint: a slot of a table with the
  address of the client and its channel. Messages arrive in buffers of the receive queue,
  whose memory and ring belong to the other side; messages of the channels and control
  messages leave in buffers of the transmit queue. The handlers run one at a time, as
  under \<^verbatim>\<open>ept_lock\<close>.
\<close>

section \<open>State\<close>

abbreviation TIPC_CTRL_ADDR :: u32 where "TIPC_CTRL_ADDR \<equiv> 53"
abbreviation TIPC_ADDR_MAX_NUM :: nat where "TIPC_ADDR_MAX_NUM \<equiv> 256"
abbreviation TIPC_ADDR_BASE :: u32 where "TIPC_ADDR_BASE \<equiv> 1000"
abbreviation TIPC_MAX_SRV_NAME_LEN :: nat where "TIPC_MAX_SRV_NAME_LEN \<equiv> 256"
abbreviation TIPC_HDR_SIZE :: nat where "TIPC_HDR_SIZE \<equiv> 16"
abbreviation TIPC_VQ_TX :: nat where "TIPC_VQ_TX \<equiv> 0"
abbreviation TIPC_VQ_RX :: nat where "TIPC_VQ_RX \<equiv> 1"
abbreviation TIPC_VQ_NUM :: nat where "TIPC_VQ_NUM \<equiv> 2"
abbreviation VIRTIO_ID_TIPC :: u32 where "VIRTIO_ID_TIPC \<equiv> 13"
abbreviation RSC_VDEV :: u32 where "RSC_VDEV \<equiv> 3"
abbreviation ARCH_MMU_FLAG_PERM_RO :: u32 where "ARCH_MMU_FLAG_PERM_RO \<equiv> 0x8"

abbreviation TIPC_CTRL_MSGTYPE_GO_ONLINE :: u32 where "TIPC_CTRL_MSGTYPE_GO_ONLINE \<equiv> 1"
abbreviation TIPC_CTRL_MSGTYPE_CONN_REQ :: u32 where "TIPC_CTRL_MSGTYPE_CONN_REQ \<equiv> 3"
abbreviation TIPC_CTRL_MSGTYPE_CONN_RSP :: u32 where "TIPC_CTRL_MSGTYPE_CONN_RSP \<equiv> 4"
abbreviation TIPC_CTRL_MSGTYPE_DISC_REQ :: u32 where "TIPC_CTRL_MSGTYPE_DISC_REQ \<equiv> 5"

datatype vdev_state = VDEV_STATE_RESET | VDEV_STATE_ACTIVE

record tipc_ept =
  ep_remote :: u32
  ep_chan :: "hid option"

text \<open>\<open>epts_ptr\<close> is the address of the table: the cookie of a channel is the address of its entry.\<close>

record tipc_dev =
  vd_state :: vdev_state
  vd_devid :: u32
  td_uuid :: uuid_ptr
  td_vqs :: "vqueue list"
  epts_ptr :: u32
  epts :: "tipc_ept list"
  ept_inuse :: bitmap
  have_handles :: bool
  td_handle_list :: nat
  rx_thread :: bool
  tx_thread :: bool
  tx_stop :: bool
  rx_stop :: bool

text \<open>
  What the other side has done by the time the device looks at a ring again: the contents
  of the ring, the index a second look finds, the contents of the shared buffers, and
  whether the device was told to stop.
\<close>

record ns_turn =
  nt_ring :: vring
  nt_idx :: u16
  nt_mem :: kmem
  nt_stop :: bool

record tipc_sys =
  tdev :: tipc_dev
  tkern :: kern
  tvm :: vm_state
  tmem :: kmem
  turns :: "ns_turn list"

definition set_vq :: "nat \<Rightarrow> vqueue \<Rightarrow> tipc_sys \<Rightarrow> tipc_sys" where
  "set_vq i vq s = s\<lparr>tdev := (tdev s)\<lparr>td_vqs := (td_vqs (tdev s))[i := vq]\<rparr>\<rparr>"

text \<open>The other side writes the ring and the buffers; the number of descriptors is a field of the secure side.\<close>

definition ns_moves :: "ns_turn \<Rightarrow> nat \<Rightarrow> tipc_sys \<Rightarrow> tipc_sys" where
  "ns_moves t i s =
     (let vq = td_vqs (tdev s) ! i;
          s = set_vq i (vq\<lparr>vq_vring := (nt_ring t)\<lparr>vr_num := vr_num (vq_vring vq)\<rparr>\<rparr>) s
      in s\<lparr>tmem := nt_mem t\<rparr>)"

text \<open>Continue after a call that may block.\<close>

fun after :: "('s, 'a) waiting option \<Rightarrow> ('s \<Rightarrow> 'a \<Rightarrow> ('s, 'b) waiting option) \<Rightarrow> ('s, 'b) waiting option" where
  "after None f = None"
| "after (Some (Blocked s)) f = Some (Blocked s)"
| "after (Some (Returned s a)) f = f s a"

section \<open>Endpoints\<close>

definition addr_to_slot :: "u32 \<Rightarrow> u32" where
  "addr_to_slot addr = addr - TIPC_ADDR_BASE"

definition slot_to_addr :: "u32 \<Rightarrow> u32" where
  "slot_to_addr slot = slot + TIPC_ADDR_BASE"

definition alloc_local_addr :: "tipc_dev \<Rightarrow> u32 \<Rightarrow> hid option \<Rightarrow> u32 \<times> tipc_dev" where
  "alloc_local_addr dev remote chan =
     (let slot = bitmap_ffz (ept_inuse dev) TIPC_ADDR_MAX_NUM in
      if slot \<ge> 0 then
        (slot_to_addr (of_nat (nat slot)),
         dev\<lparr>ept_inuse := fst (bitmap_set (ept_inuse dev) (nat slot)),
             epts := (epts dev)[nat slot := \<lparr>ep_remote = remote, ep_chan = chan\<rparr>]\<rparr>)
      else (0, dev))"

text \<open>An endpoint is referred to by its slot.\<close>

definition lookup_ept :: "tipc_dev \<Rightarrow> u32 \<Rightarrow> nat option" where
  "lookup_ept dev local =
     (let slot = unat (addr_to_slot local) in
      if slot < TIPC_ADDR_MAX_NUM \<and> bitmap_test (ept_inuse dev) slot then Some slot else None)"

definition ept_to_addr :: "nat \<Rightarrow> u32" where
  "ept_to_addr slot = slot_to_addr (of_nat slot)"

definition free_local_addr :: "tipc_dev \<Rightarrow> u32 \<Rightarrow> tipc_dev" where
  "free_local_addr dev local =
     (let slot = unat (addr_to_slot local) in
      if slot < TIPC_ADDR_MAX_NUM then
        dev\<lparr>ept_inuse := fst (bitmap_clear (ept_inuse dev) slot), epts := (epts dev)[slot := \<lparr>ep_remote = 0, ep_chan = None\<rparr>]\<rparr>
      else dev)"

text \<open>The address of an entry, 8 bytes each, and the entry an address points to.\<close>

definition ept_cookie :: "tipc_dev \<Rightarrow> nat option \<Rightarrow> u32" where
  "ept_cookie dev ept = (case ept of None \<Rightarrow> 0 | Some slot \<Rightarrow> epts_ptr dev + 8 * of_nat slot)"

definition cookie_ept :: "tipc_dev \<Rightarrow> u32 \<Rightarrow> nat option" where
  "cookie_ept dev c = (if c = 0 then None else Some (unat (c - epts_ptr dev) div 8))"

section \<open>Sending to the other side\<close>

definition le16_bytes :: "u16 \<Rightarrow> u8 list" where
  "le16_bytes w = [ucast w, ucast (drop_bit 8 w)]"

definition tipc_hdr :: "u32 \<Rightarrow> u32 \<Rightarrow> u16 \<Rightarrow> u8 list" where
  "tipc_hdr src dst len = le32_bytes src @ le32_bytes dst @ le32_bytes 0 @ le16_bytes len @ le16_bytes 0"

definition no_iovs :: vqueue_iovs where
  "no_iovs = \<lparr>iv_cnt = 0, iv_used = 0, iv_len = 0, iv_phys = [], iv_iovs = []\<rparr>"

definition one_iov :: vqueue_iovs where
  "one_iov = \<lparr>iv_cnt = 1, iv_used = 0, iv_len = 0, iv_phys = [0], iv_iovs = [\<lparr>ik_base = 0, ik_len = 0\<rparr>]\<rparr>"

text \<open>
  The loop that gets a buffer or waits for one. The script of the other side has one move
  for every look at the ring; when it ends, the thread is still waiting.
\<close>

definition tx_turn :: "ns_turn \<Rightarrow> ns_turn list \<Rightarrow> bool \<Rightarrow> tipc_sys \<Rightarrow> tipc_sys" where
  "tx_turn t ts waited s =
     (let s = (ns_moves t TIPC_VQ_TX s)\<lparr>turns := ts\<rparr>
      in if waited then s\<lparr>tdev := (tdev s)\<lparr>tx_stop := tx_stop (tdev s) \<or> nt_stop t\<rparr>\<rparr> else s)"

primrec get_tx_buf :: "ns_turn list \<Rightarrow> bool \<Rightarrow> bool \<Rightarrow> vqueue_buf \<Rightarrow> tipc_sys \<Rightarrow> (tipc_sys, int \<times> vqueue_buf) waiting option" where
  "get_tx_buf [] waited wait buf s = Some (Blocked s)"
| "get_tx_buf (t # ts) waited wait buf s =
     (let s = tx_turn t ts waited s in
      if waited \<and> tx_stop (tdev s) then Some (Returned s (ERR_CHANNEL_CLOSED, buf))
      else do {
        (ret, vq, buf) \<leftarrow> vqueue_get_avail_buf (nt_idx t) (td_vqs (tdev s) ! TIPC_VQ_TX) buf;
        let s = set_vq TIPC_VQ_TX vq s;
        (if ret = NO_ERROR \<or> ret \<noteq> ERR_NOT_ENOUGH_BUFFER \<or> \<not> wait then Some (Returned s (ret, buf))
         else get_tx_buf ts True wait buf s)
      })"

type_synonym tipc_data_cb = "nat \<Rightarrow> nat \<Rightarrow> tipc_sys \<Rightarrow> (int \<times> tipc_sys) option"

text \<open>Filling the buffer: a null base is a fault. A message that does not fit is cut; its header keeps the whole length.\<close>

definition fill_tx_buf :: "u32 \<Rightarrow> u32 \<Rightarrow> tipc_data_cb \<Rightarrow> u16 \<Rightarrow> vqueue_buf \<Rightarrow> tipc_sys \<Rightarrow> ((int \<times> vqueue_buf) \<times> tipc_sys) option" where
  "fill_tx_buf local remote cb data_len buf s = do {
     let ttl_len = TIPC_HDR_SIZE + unat data_len;
     (if iv_used (out_iovs buf) = 0 then Some ((ERR_NOT_ENOUGH_BUFFER, buf), s)
      else if TIPC_HDR_SIZE > ik_len (iv_iovs (out_iovs buf) ! 0) then Some ((ERR_NOT_ENOUGH_BUFFER, buf), s)
      else do {
        ((ret, iv), vm) \<leftarrow> vqueue_map_iovs (out_iovs buf) (ARCH_MMU_FLAG_NS OR ARCH_MMU_FLAG_PERM_NO_EXECUTE) (tvm s);
        let s = s\<lparr>tvm := vm\<rparr>;
        (if ret \<noteq> NO_ERROR then Some ((ret, buf\<lparr>out_iovs := iv\<rparr>), s)
         else do {
           let iov = iv_iovs iv ! 0;
           kassert (ik_base iov \<noteq> 0);
           let s = s\<lparr>tmem := mem_write (tmem s) (ik_base iov) (tipc_hdr local remote data_len)\<rparr>;
           let data_len = (if ttl_len > ik_len iov then of_nat (ik_len iov - TIPC_HDR_SIZE) else data_len);
           (ret, s) \<leftarrow> cb (ik_base iov + TIPC_HDR_SIZE) (unat data_len) s;
           (iv, vm) \<leftarrow> vqueue_unmap_iovs iv (tvm s);
           Some ((if ret \<ge> 0 then ret + int TIPC_HDR_SIZE else ret, buf\<lparr>out_iovs := iv\<rparr>), s\<lparr>tvm := vm\<rparr>)
         })
      })
   }"

definition tipc_send_data ::
  "u32 \<Rightarrow> u32 \<Rightarrow> tipc_data_cb \<Rightarrow> u16 \<Rightarrow> bool \<Rightarrow> tipc_sys \<Rightarrow> (tipc_sys, int) waiting option" where
  "tipc_send_data local remote cb data_len wait s =
     after (get_tx_buf (turns s) False wait \<lparr>vb_head = 0, in_iovs = no_iovs, out_iovs = one_iov\<rparr> s)
       (\<lambda>s (ret, buf).
          if ret \<noteq> NO_ERROR then Some (Returned s ret)
          else do {
            ((ret, buf), s) \<leftarrow> fill_tx_buf local remote cb data_len buf s;
            let (ret, vq) = vqueue_add_buf (td_vqs (tdev s) ! TIPC_VQ_TX) buf (of_int ret);
            Some (Returned (set_vq TIPC_VQ_TX vq s) ret)
          })"

definition send_buf :: "u8 list \<Rightarrow> tipc_data_cb" where
  "send_buf data dst sz s = do {
     kassert (dst \<noteq> 0);
     kassert (sz \<le> length data);
     Some (int sz, s\<lparr>tmem := mem_write (tmem s) dst (take sz data)\<rparr>)
   }"

definition tipc_send_buf :: "u32 \<Rightarrow> u32 \<Rightarrow> u8 list \<Rightarrow> u16 \<Rightarrow> bool \<Rightarrow> tipc_sys \<Rightarrow> (tipc_sys, int) waiting option" where
  "tipc_send_buf local remote data data_len wait s = tipc_send_data local remote (send_buf data) data_len wait s"

definition go_online :: "tipc_sys \<Rightarrow> (tipc_sys, int) waiting option" where
  "go_online s = tipc_send_buf TIPC_CTRL_ADDR TIPC_CTRL_ADDR (le32_bytes TIPC_CTRL_MSGTYPE_GO_ONLINE @ le32_bytes 0) 8 True s"

definition send_conn_rsp :: "u32 \<Rightarrow> u32 \<Rightarrow> u32 \<Rightarrow> u32 \<Rightarrow> u32 \<Rightarrow> tipc_sys \<Rightarrow> (tipc_sys, int) waiting option" where
  "send_conn_rsp local remote status msg_sz msg_cnt s =
     tipc_send_buf TIPC_CTRL_ADDR TIPC_CTRL_ADDR
       (le32_bytes TIPC_CTRL_MSGTYPE_CONN_RSP @ le32_bytes 20 @
        le32_bytes remote @ le32_bytes status @ le32_bytes local @ le32_bytes msg_sz @ le32_bytes msg_cnt) 28 True s"

definition send_disc_req :: "u32 \<Rightarrow> u32 \<Rightarrow> tipc_sys \<Rightarrow> (tipc_sys, int) waiting option" where
  "send_disc_req local remote s =
     tipc_send_buf local TIPC_CTRL_ADDR (le32_bytes TIPC_CTRL_MSGTYPE_DISC_REQ @ le32_bytes 4 @ le32_bytes remote) 12 True s"


section \<open>Requests of the other side\<close>

text \<open>
  The bytes \<^verbatim>\<open>strncpy\<close> of the kernel's C library writes: the string with its
  terminator, cut at the given size. Unlike the standard one it does not fill the rest of the
  destination with zeros; nothing reads past the terminator.
\<close>

definition strncpy :: "u8 list \<Rightarrow> nat \<Rightarrow> u8 list" where
  "strncpy src n = take (Suc (length (takeWhile (\<lambda>b. b \<noteq> 0) src))) (take n src)"

definition handle_conn_req :: "u32 \<Rightarrow> nat \<Rightarrow> tipc_sys \<Rightarrow> (tipc_sys, int) waiting option" where
  "handle_conn_req remote ns_req s = do {
     let name = strncpy (mem_read (tmem s) ns_req TIPC_MAX_SRV_NAME_LEN) TIPC_MAX_SRV_NAME_LEN;
     ((err, chan), k) \<leftarrow> ipc_port_connect_async (td_uuid (tdev s)) (chars_of name) TIPC_MAX_SRV_NAME_LEN 0 (tkern s);
     let s = s\<lparr>tkern := k\<rparr>;
     (local, chan, s) \<leftarrow> (if err = NO_ERROR then do {
          let (local, dev) = alloc_local_addr (tdev s) remote chan;
          let s = s\<lparr>tdev := dev\<rparr>;
          (if local = 0 then do {
             h \<leftarrow> chan;
             k \<leftarrow> handle_close ipc_shutdown ipc_destroy h (tkern s);
             Some (local, None, s\<lparr>tkern := k\<rparr>)
           } else Some (local, chan, s))
        } else Some (0, chan, s));
     (case chan of
        Some h \<Rightarrow> do {
          k \<leftarrow> handle_set_cookie h (ept_cookie (tdev s) (lookup_ept (tdev s) local)) (tkern s);
          k \<leftarrow> handle_list_add ipc_poll (td_handle_list (tdev s)) h k;
          Some (Returned (s\<lparr>tkern := k, tdev := (tdev s)\<lparr>have_handles := True\<rparr>\<rparr>) NO_ERROR)
        }
      | None \<Rightarrow> send_conn_rsp local remote (of_int ERR_NO_RESOURCES) 0 0 s)
   }"

text \<open>The search over all endpoints in use for the address of the client.\<close>

definition search_ept :: "tipc_dev \<Rightarrow> u32 \<Rightarrow> nat option" where
  "search_ept dev remote =
     find (\<lambda>slot. bitmap_test (ept_inuse dev) slot \<and> ep_remote (epts dev ! slot) = remote) [0..<TIPC_ADDR_MAX_NUM]"

definition find_ept :: "tipc_dev \<Rightarrow> u32 \<Rightarrow> u32 \<Rightarrow> nat option" where
  "find_ept dev target remote = (case lookup_ept dev target of
     Some slot \<Rightarrow> if ep_remote (epts dev ! slot) = remote then Some slot else search_ept dev remote
   | None \<Rightarrow> search_ept dev remote)"

definition close_ept_chan :: "nat \<Rightarrow> hid \<Rightarrow> kern \<Rightarrow> kern option" where
  "close_ept_chan l h k = do {
     k \<leftarrow> handle_list_del ipc_destroy l h k;
     k \<leftarrow> handle_set_cookie h 0 k;
     handle_close ipc_shutdown ipc_destroy h k
   }"

definition handle_disc_req :: "u32 \<Rightarrow> nat \<Rightarrow> tipc_sys \<Rightarrow> (tipc_sys, int) waiting option" where
  "handle_disc_req remote ns_req s = do {
     let target = le32 (mem_read (tmem s) ns_req 4);
     (case find_ept (tdev s) target remote of
        None \<Rightarrow> Some (Returned s NO_ERROR)
      | Some slot \<Rightarrow> do {
          k \<leftarrow> (case ep_chan (epts (tdev s) ! slot) of
                  Some h \<Rightarrow> close_ept_chan (td_handle_list (tdev s)) h (tkern s)
                | None \<Rightarrow> Some (tkern s));
          Some (Returned (s\<lparr>tkern := k, tdev := free_local_addr (tdev s) (ept_to_addr slot)\<rparr>) NO_ERROR)
        })
   }"

definition handle_ctrl_msg :: "u32 \<Rightarrow> nat \<Rightarrow> nat \<Rightarrow> tipc_sys \<Rightarrow> (tipc_sys, int) waiting option" where
  "handle_ctrl_msg remote ns_data msg_len s = do {
     kassert (ns_data \<noteq> 0);
     (if msg_len < 8 then Some (Returned s ERR_NOT_VALID)
      else
        let msg_type = le32 (mem_read (tmem s) ns_data 4);
            msg_body_len = le32 (mem_read (tmem s) (ns_data + 4) 4);
            ns_msg_body = ns_data + 8 in
        if 8 + msg_body_len \<noteq> of_nat msg_len then Some (Returned s ERR_NOT_VALID)
        else if msg_type = TIPC_CTRL_MSGTYPE_CONN_REQ \<and> msg_body_len = 256 then handle_conn_req remote ns_msg_body s
        else if msg_type = TIPC_CTRL_MSGTYPE_DISC_REQ \<and> msg_body_len = 4 then handle_disc_req remote ns_msg_body s
        else Some (Returned s ERR_NOT_VALID))
   }"

definition handle_chan_msg :: "u32 \<Rightarrow> u32 \<Rightarrow> nat \<Rightarrow> nat \<Rightarrow> tipc_sys \<Rightarrow> (tipc_sys, int) waiting option" where
  "handle_chan_msg remote local ns_data len s = (case lookup_ept (tdev s) local of
     None \<Rightarrow> Some (Returned s ERR_NOT_FOUND)
   | Some slot \<Rightarrow>
       let ept = epts (tdev s) ! slot in
       if ep_remote ept = remote \<and> ep_chan ept \<noteq> None then do {
         (ret, k) \<leftarrow> ipc_send_msg (tmem s) (ep_chan ept) (Some (Some [\<lparr>ik_base = ns_data, ik_len = len\<rparr>], 1, 0)) (tkern s);
         Some (Returned (s\<lparr>tkern := k\<rparr>) ret)
       } else Some (Returned s ERR_NOT_FOUND))"

text \<open>Between mapping and unmapping: the first vector holds the header and the data. A null base is a fault.\<close>

definition rx_dispatch :: "iovec_kern \<Rightarrow> tipc_sys \<Rightarrow> (tipc_sys, int) waiting option" where
  "rx_dispatch iov s =
     (if ik_len iov < TIPC_HDR_SIZE then Some (Returned s ERR_INVALID_ARGS)
      else do {
        kassert (ik_base iov \<noteq> 0);
        let ns_hdr = ik_base iov;
        let ns_data = ik_base iov + TIPC_HDR_SIZE;
        let ns_data_len = unat (le32 (mem_read (tmem s) (ns_hdr + 12) 2));
        let src_addr = le32 (mem_read (tmem s) ns_hdr 4);
        let dst_addr = le32 (mem_read (tmem s) (ns_hdr + 4) 4);
        (if ns_data_len + TIPC_HDR_SIZE \<noteq> ik_len iov then Some (Returned s ERR_INVALID_ARGS)
         else if dst_addr = TIPC_CTRL_ADDR then handle_ctrl_msg src_addr ns_data ns_data_len s
         else handle_chan_msg src_addr dst_addr ns_data ns_data_len s)
      })"

definition handle_rx_msg :: "vqueue_buf \<Rightarrow> tipc_sys \<Rightarrow> (tipc_sys, int \<times> vqueue_buf) waiting option" where
  "handle_rx_msg buf s =
     (if iv_used (in_iovs buf) = 0 then Some (Returned s (ERR_INVALID_ARGS, buf))
      else do {
        ((ret, iv), vm) \<leftarrow> vqueue_map_iovs (in_iovs buf)
          (ARCH_MMU_FLAG_NS OR ARCH_MMU_FLAG_PERM_NO_EXECUTE OR ARCH_MMU_FLAG_PERM_RO) (tvm s);
        let s = s\<lparr>tvm := vm\<rparr>;
        (if ret \<noteq> NO_ERROR then Some (Returned s (ret, buf\<lparr>in_iovs := iv\<rparr>))
         else after (rx_dispatch (iv_iovs iv ! 0) s) (\<lambda>s ret. do {
           (iv, vm) \<leftarrow> vqueue_unmap_iovs iv (tvm s);
           Some (Returned (s\<lparr>tvm := vm\<rparr>) (ret, buf\<lparr>in_iovs := iv\<rparr>))
         }))
      })"

text \<open>One round of the receive thread; the result says if the thread goes on.\<close>

definition tipc_rx_step :: "ns_turn \<Rightarrow> vqueue_buf \<Rightarrow> tipc_sys \<Rightarrow> (tipc_sys, bool \<times> vqueue_buf) waiting option" where
  "tipc_rx_step t buf s = do {
     let s = ns_moves t TIPC_VQ_RX s;
     let s = s\<lparr>tdev := (tdev s)\<lparr>rx_stop := rx_stop (tdev s) \<or> nt_stop t\<rparr>\<rparr>;
     (ret, vq, buf) \<leftarrow> vqueue_get_avail_buf (nt_idx t) (td_vqs (tdev s) ! TIPC_VQ_RX) buf;
     let s = set_vq TIPC_VQ_RX vq s;
     (if ret = ERR_CHANNEL_CLOSED then Some (Returned s (False, buf))
      else if ret = ERR_NOT_ENOUGH_BUFFER then Some (Returned s (True, buf))
      else after (if ret = NO_ERROR then handle_rx_msg buf s else Some (Returned s (ret, buf))) (\<lambda>s (ret, buf). do {
        let (ret, vq) = vqueue_add_buf (td_vqs (tdev s) ! TIPC_VQ_RX) buf (of_int ret);
        let s = set_vq TIPC_VQ_RX vq s;
        (if ret = ERR_CHANNEL_CLOSED then Some (Returned s (False, buf))
         else do { kassert (ret = NO_ERROR); Some (Returned s (True, buf)) })
      }))
   }"

primrec tipc_rx_loop :: "ns_turn list \<Rightarrow> vqueue_buf \<Rightarrow> tipc_sys \<Rightarrow> (tipc_sys, int) waiting option" where
  "tipc_rx_loop [] buf s = (if rx_stop (tdev s) then Some (Returned s 0) else Some (Blocked s))"
| "tipc_rx_loop (t # ts) buf s =
     (if rx_stop (tdev s) then Some (Returned s 0)
      else after (tipc_rx_step t buf s) (\<lambda>s (go_on, buf).
        if go_on then tipc_rx_loop ts buf s else Some (Returned s 0)))"

definition tipc_rx_thread_func :: "ns_turn list \<Rightarrow> tipc_sys \<Rightarrow> (tipc_sys, int) waiting option" where
  "tipc_rx_thread_func ts s = tipc_rx_loop ts \<lparr>vb_head = 0, in_iovs = one_iov, out_iovs = no_iovs\<rparr> s"

section \<open>Messages and events of the channels\<close>

definition tx_data_cb :: "hid \<Rightarrow> ipc_msg_info \<Rightarrow> tipc_data_cb" where
  "tx_data_cb h info buf buf_len s = do {
     kassert (buf \<noteq> 0);
     (ret, m) \<leftarrow> ipc_read_msg (tmem s) (Some h) (info_id info) 0 (Some (Some [\<lparr>ik_base = buf, ik_len = buf_len\<rparr>], 1, 0)) (tkern s);
     Some (ret, s\<lparr>tmem := m\<rparr>)
   }"

text \<open>The number of messages that wait in the queue of a channel.\<close>

definition filled_msgs :: "hid \<Rightarrow> kern \<Rightarrow> nat" where
  "filled_msgs h k = (case containerof_chan (Some h) of
     None \<Rightarrow> 0
   | Some c \<Rightarrow> (case chans k c of
       None \<Rightarrow> 0
     | Some ch \<Rightarrow> (case msg_queue ch of None \<Rightarrow> 0 | Some mq \<Rightarrow> length (filled_list mq))))"

text \<open>
  The loop over the messages of a channel; the address of the sender is never assigned and
  stays 0. The fuel is one more than the number of messages when the loop starts.
\<close>

primrec tx_msg_loop :: "nat \<Rightarrow> hid \<Rightarrow> u32 \<Rightarrow> ipc_msg_info \<Rightarrow> tipc_sys \<Rightarrow> (tipc_sys, unit) waiting option" where
  "tx_msg_loop 0 h remote info s = Some (Blocked s)"
| "tx_msg_loop (Suc n) h remote info s = do {
     ((ret, info), k) \<leftarrow> ipc_get_msg (Some h) info (tkern s);
     let s = s\<lparr>tkern := k\<rparr>;
     (if ret = ERR_NO_MSG then Some (Returned s ())
      else do {
        kassert (ret = NO_ERROR);
        after (tipc_send_data 0 remote (tx_data_cb h info) (ucast (info_len info)) True s) (\<lambda>s ret. do {
          (ret, k) \<leftarrow> ipc_put_msg (Some h) (info_id info) (tkern s);
          tx_msg_loop n h remote info (s\<lparr>tkern := k\<rparr>)
        })
      })
   }"

definition handle_tx_msg :: "hid \<Rightarrow> tipc_sys \<Rightarrow> (tipc_sys, unit) waiting option" where
  "handle_tx_msg h s = do {
     c \<leftarrow> handle_get_cookie h (tkern s);
     (case cookie_ept (tdev s) c of
        None \<Rightarrow> Some (Returned s ())
      | Some slot \<Rightarrow>
          tx_msg_loop (Suc (filled_msgs h (tkern s))) h (ep_remote (epts (tdev s) ! slot)) \<lparr>info_len = 0, info_id = 0\<rparr> s)
   }"

definition handle_hup :: "hid \<Rightarrow> tipc_sys \<Rightarrow> (tipc_sys, unit) waiting option" where
  "handle_hup h s = do {
     c \<leftarrow> handle_get_cookie h (tkern s);
     (case cookie_ept (tdev s) c of
        None \<Rightarrow> Some (Returned s ())
      | Some slot \<Rightarrow> do {
          let remote = ep_remote (epts (tdev s) ! slot);
          let local = ept_to_addr slot;
          k \<leftarrow> close_ept_chan (td_handle_list (tdev s)) h (tkern s);
          after (send_disc_req local remote (s\<lparr>tkern := k, tdev := free_local_addr (tdev s) local\<rparr>))
            (\<lambda>s ret. Some (Returned s ()))
        })
   }"

definition handle_ready :: "hid \<Rightarrow> tipc_sys \<Rightarrow> (tipc_sys, unit) waiting option" where
  "handle_ready h s = do {
     c \<leftarrow> handle_get_cookie h (tkern s);
     (case cookie_ept (tdev s) c of
        None \<Rightarrow> Some (Returned s ())
      | Some slot \<Rightarrow>
          after (send_conn_rsp (ept_to_addr slot) (ep_remote (epts (tdev s) ! slot)) 0 (of_nat IPC_CHAN_MAX_BUF_SIZE) 1 s)
            (\<lambda>s ret. Some (Returned s ())))
   }"

text \<open>One round of the transmit loop; the result says if there were handles left.\<close>

definition handle_tx_step ::
  "int \<Rightarrow> (int \<times> (kern \<Rightarrow> int \<times> kern)) list \<Rightarrow> tipc_sys \<Rightarrow> (tipc_sys, bool) waiting option" where
  "handle_tx_step uninit ws s = do {
     w \<leftarrow> handle_list_wait ipc_poll ipc_finalize uninit ws (td_handle_list (tdev s)) (tkern s);
     (case w of
        Blocked k \<Rightarrow> Some (Blocked (s\<lparr>tkern := k\<rparr>))
      | Returned k (ret, found) \<Rightarrow>
          let s = s\<lparr>tkern := k\<rparr> in
          if ret = ERR_NOT_FOUND then Some (Returned s False)
          else do {
            kassert (\<not> ret < 0);
            (h, chan_event) \<leftarrow> found;
            is_chan \<leftarrow> ipc_is_channel h (tkern s);
            kassert is_chan;
            after (if chan_event AND IPC_HANDLE_POLL_READY \<noteq> 0 then handle_ready h s
                   else if chan_event AND IPC_HANDLE_POLL_MSG \<noteq> 0 then handle_tx_msg h s
                   else if chan_event AND IPC_HANDLE_POLL_HUP \<noteq> 0 then handle_hup h s
                   else Some (Returned s ()))
              (\<lambda>s u. do {
                 k \<leftarrow> handle_decref ipc_destroy h (tkern s);
                 Some (Returned (s\<lparr>tkern := k\<rparr>) True)
               })
          })
   }"

primrec handle_tx ::
  "(int \<times> (int \<times> (kern \<Rightarrow> int \<times> kern)) list) list \<Rightarrow> tipc_sys \<Rightarrow> (tipc_sys, unit) waiting option" where
  "handle_tx [] s = Some (Blocked s)"
| "handle_tx (w # ws) s = after (handle_tx_step (fst w) (snd w) s) (\<lambda>s more.
     if more then handle_tx ws s else Some (Returned s ()))"

text \<open>The event that there are handles resets itself when the thread wakes up.\<close>

primrec tipc_tx_thread_func ::
  "(int \<times> (int \<times> (kern \<Rightarrow> int \<times> kern)) list) list list \<Rightarrow> tipc_sys \<Rightarrow> (tipc_sys, int) waiting option" where
  "tipc_tx_thread_func [] s = (if tx_stop (tdev s) then Some (Returned s 0) else Some (Blocked s))"
| "tipc_tx_thread_func (w # ws) s =
     (if tx_stop (tdev s) then Some (Returned s 0)
      else if \<not> have_handles (tdev s) then Some (Blocked s)
      else after (handle_tx w (s\<lparr>tdev := (tdev s)\<lparr>have_handles := False\<rparr>\<rparr>)) (\<lambda>s u. tipc_tx_thread_func ws s))"

section \<open>Starting and stopping the device\<close>

primrec reset_epts :: "nat list \<Rightarrow> tipc_dev \<Rightarrow> kern \<Rightarrow> (tipc_dev \<times> kern) option" where
  "reset_epts [] dev k = Some (dev, k)"
| "reset_epts (slot # slots) dev k =
     (if \<not> bitmap_test (ept_inuse dev) slot then reset_epts slots dev k
      else case ep_chan (epts dev ! slot) of
        None \<Rightarrow> reset_epts slots dev k
      | Some h \<Rightarrow> do {
          k \<leftarrow> close_ept_chan (td_handle_list dev) h k;
          reset_epts slots (free_local_addr dev (ept_to_addr slot)) k
        })"

definition update_vq :: "nat \<Rightarrow> (vqueue \<Rightarrow> vqueue) \<Rightarrow> tipc_dev \<Rightarrow> tipc_dev" where
  "update_vq i f dev = dev\<lparr>td_vqs := (td_vqs dev)[i := f (td_vqs dev ! i)]\<rparr>"

text \<open>What the joins of the two threads return are parameters.\<close>

definition tipc_dev_reset :: "int \<Rightarrow> int \<Rightarrow> tipc_sys \<Rightarrow> (int \<times> tipc_sys) option" where
  "tipc_dev_reset rx_rc tx_rc s =
     (if vd_state (tdev s) = VDEV_STATE_RESET then Some (NO_ERROR, s)
      else do {
        let dev = update_vq TIPC_VQ_RX vqueue_signal_avail ((tdev s)\<lparr>rx_stop := True\<rparr>);
        kassert (rx_rc = NO_ERROR);
        let dev = dev\<lparr>rx_thread := False, rx_stop := False, tx_stop := True\<rparr>;
        (dev, k) \<leftarrow> reset_epts [0..<TIPC_ADDR_MAX_NUM] dev (tkern s);
        let dev = update_vq TIPC_VQ_TX vqueue_signal_avail (dev\<lparr>have_handles := True\<rparr>);
        kassert (tx_rc = NO_ERROR);
        let dev = dev\<lparr>tx_thread := False, tx_stop := False\<rparr>;
        (rx, vm) \<leftarrow> vqueue_destroy (td_vqs dev ! TIPC_VQ_RX) (tvm s);
        (tx, vm) \<leftarrow> vqueue_destroy (td_vqs dev ! TIPC_VQ_TX) vm;
        Some (NO_ERROR, s\<lparr>tdev := dev\<lparr>td_vqs := [tx, rx], vd_state := VDEV_STATE_RESET\<rparr>, tkern := k, tvm := vm\<rparr>)
      })"

record fw_rsc_vdev_vring =
  rv_da :: u32
  rv_align :: u32
  rv_num :: u32
  rv_notifyid :: u32
  rv_reserved :: u32

record tipc_vdev_descr =
  rsc_type :: u32
  rsc_id :: u32
  rsc_notifyid :: u32
  rsc_status :: u8
  num_of_vrings :: u8
  rsc_vrings :: "fw_rsc_vdev_vring list"

text \<open>The template with the identity of the device.\<close>

definition tipc_get_vdev_descr :: "tipc_vdev_descr \<Rightarrow> tipc_dev \<Rightarrow> tipc_vdev_descr" where
  "tipc_get_vdev_descr descr_ptr dev = descr_ptr\<lparr>rsc_notifyid := vd_devid dev\<rparr>"

definition validate_descr :: "tipc_vdev_descr \<Rightarrow> int" where
  "validate_descr d =
     (if rsc_type d \<noteq> RSC_VDEV then ERR_INVALID_ARGS
      else if rsc_id d \<noteq> VIRTIO_ID_TIPC then ERR_INVALID_ARGS
      else if num_of_vrings d \<noteq> of_nat TIPC_VQ_NUM then ERR_INVALID_ARGS
      else if rsc_status d \<noteq> 1 OR 2 OR 4 then ERR_INVALID_ARGS
      else NO_ERROR)"

primrec destroy_vqs :: "nat \<Rightarrow> vqueue list \<Rightarrow> vm_state \<Rightarrow> (vqueue list \<times> vm_state) option" where
  "destroy_vqs 0 vqs vm = Some (vqs, vm)"
| "destroy_vqs (Suc n) vqs vm = do {
     (vq, vm) \<leftarrow> vqueue_destroy (vqs ! n) vm;
     destroy_vqs n (vqs[n := vq]) vm
   }"

text \<open>\<open>ring_at\<close> is what the memory of a ring holds at the address it is mapped to.\<close>

primrec probe_vrings ::
  "(u32 \<Rightarrow> vring) \<Rightarrow> fw_rsc_vdev_vring list \<Rightarrow> nat \<Rightarrow> vqueue list \<Rightarrow> vm_state \<Rightarrow> ((int \<times> vqueue list) \<times> vm_state) option" where
  "probe_vrings ring_at [] cnt vqs vm = Some ((NO_ERROR, vqs), vm)"
| "probe_vrings ring_at (v # vs) cnt vqs vm =
     (let pa64 = push_bit 32 (ucast (rv_reserved v)) OR ucast (rv_da v) :: u64 in
      if pa64 \<noteq> ucast (ucast pa64 :: u32) then do {
        (vqs, vm) \<leftarrow> destroy_vqs cnt vqs vm;
        Some ((ERR_INVALID_ARGS, vqs), vm)
      } else do {
        ((ret, vq), vm) \<leftarrow> vqueue_init (vqs ! cnt) ring_at (rv_notifyid v) (ucast pa64) (rv_num v) (rv_align v) True False vm;
        (if ret \<noteq> NO_ERROR then do {
           (vqs, vm) \<leftarrow> destroy_vqs cnt (vqs[cnt := vq]) vm;
           Some ((ret, vqs), vm)
         } else probe_vrings ring_at vs (Suc cnt) (vqs[cnt := vq]) vm)
      })"

text \<open>\<open>rx_ok\<close> and \<open>tx_ok\<close> say if the threads could be created; the code goes on without them.\<close>

definition tipc_dev_probe ::
  "bool \<Rightarrow> bool \<Rightarrow> (u32 \<Rightarrow> vring) \<Rightarrow> tipc_vdev_descr \<Rightarrow> tipc_sys \<Rightarrow> (tipc_sys, int) waiting option" where
  "tipc_dev_probe rx_ok tx_ok ring_at d s =
     (if vd_state (tdev s) \<noteq> VDEV_STATE_RESET then Some (Returned s ERR_BAD_STATE)
      else if validate_descr d \<noteq> NO_ERROR then Some (Returned s (validate_descr d))
      else do {
        ((ret, vqs), vm) \<leftarrow> probe_vrings ring_at (take (unat (num_of_vrings d)) (rsc_vrings d)) 0 (td_vqs (tdev s)) (tvm s);
        let s = s\<lparr>tdev := (tdev s)\<lparr>td_vqs := vqs\<rparr>, tvm := vm\<rparr>;
        (if ret \<noteq> NO_ERROR then Some (Returned s ret)
         else after (go_online (s\<lparr>tdev := (tdev s)\<lparr>rx_thread := rx_ok, tx_thread := tx_ok\<rparr>\<rparr>)) (\<lambda>s ret.
           Some (Returned (if ret = NO_ERROR then s\<lparr>tdev := (tdev s)\<lparr>vd_state := VDEV_STATE_ACTIVE\<rparr>\<rparr> else s) ret)))
      })"

definition tipc_vq_notify_cb :: "vqueue \<Rightarrow> int \<times> vqueue" where
  "tipc_vq_notify_cb vq = (0, vqueue_signal_avail vq)"

definition tipc_vdev_kick_vq :: "u32 \<Rightarrow> tipc_dev \<Rightarrow> int \<times> tipc_dev" where
  "tipc_vdev_kick_vq vqid dev =
     (if vqid = vqueue_id (td_vqs dev ! TIPC_VQ_TX) then
        let (ret, vq) = vqueue_notify tipc_vq_notify_cb (td_vqs dev ! TIPC_VQ_TX) in (ret, dev\<lparr>td_vqs := (td_vqs dev)[TIPC_VQ_TX := vq]\<rparr>)
      else if vqid = vqueue_id (td_vqs dev ! TIPC_VQ_RX) then
        let (ret, vq) = vqueue_notify tipc_vq_notify_cb (td_vqs dev ! TIPC_VQ_RX) in (ret, dev\<lparr>td_vqs := (td_vqs dev)[TIPC_VQ_RX := vq]\<rparr>)
      else (ERR_NOT_FOUND, dev))"

definition zero_vq :: vqueue where
  "zero_vq = \<lparr>vq_id = 0, vq_vring = \<lparr>vr_num = 0, vr_desc = (\<lambda>_. \<lparr>vd_addr = 0, vd_len = 0, vd_flags = 0, vd_next = 0\<rparr>),
     avail_idx = 0, avail_ring = (\<lambda>_. 0), used_flags = 0, used_idx = 0, used_ring = (\<lambda>_. (0, 0))\<rparr>,
     vring_addr = 0, vring_sz = 0, last_avail_idx = 0, avail_event = False, has_notify_cb = False, has_kick_cb = False\<rparr>"

text \<open>The state of a device of zeroed memory, before it is registered with the bus.\<close>

definition create_tipc_device :: "uuid_ptr \<Rightarrow> nat \<Rightarrow> u32 \<Rightarrow> kern \<Rightarrow> tipc_dev \<times> kern" where
  "create_tipc_device uuid l ptr k =
     (\<lparr>vd_state = VDEV_STATE_RESET, vd_devid = 0, td_uuid = uuid, td_vqs = replicate TIPC_VQ_NUM zero_vq,
       epts_ptr = ptr, epts = replicate TIPC_ADDR_MAX_NUM \<lparr>ep_remote = 0, ep_chan = None\<rparr>,
       ept_inuse = bitmap_empty TIPC_ADDR_MAX_NUM, have_handles = False, td_handle_list = l,
       rx_thread = False, tx_thread = False, tx_stop = False, rx_stop = False\<rparr>, handle_list_init l k)"
end
