(* ===== verification/Tipc_System.thy ===== *)
theory Tipc_System
  imports Tipc_Dev
begin

text \<open>
  Properties of the device of \<open>Tipc_Dev\<close>: the endpoint table, the delivery of received
  messages to channels, the return of every buffer, and what is sent to the other side.
\<close>

section \<open>The endpoint table\<close>

definition epts_ok :: "tipc_dev \<Rightarrow> bool" where
  "epts_ok dev \<longleftrightarrow> bitmap_wf TIPC_ADDR_MAX_NUM (ept_inuse dev) \<and> length (epts dev) = TIPC_ADDR_MAX_NUM"

lemma addr_slot [simp]: "addr_to_slot (slot_to_addr x) = x" "slot_to_addr (addr_to_slot a) = a"
  by (simp_all add: addr_to_slot_def slot_to_addr_def)

lemma unat_addr_slot [simp]: "n < TIPC_ADDR_MAX_NUM \<Longrightarrow> unat (addr_to_slot (ept_to_addr n)) = n"
  by (simp add: ept_to_addr_def unat_of_nat)

lemma slot_addr_eq: "unat (addr_to_slot a) = n \<longleftrightarrow> a = ept_to_addr n" if "n < TIPC_ADDR_MAX_NUM"
proof
  assume "unat (addr_to_slot a) = n"
  then have "of_nat n = addr_to_slot a"
    by auto
  then show "a = ept_to_addr n"
    by (simp add: ept_to_addr_def)
qed (use that in simp)

lemma ept_to_addr_range: "n < TIPC_ADDR_MAX_NUM \<Longrightarrow> unat (ept_to_addr n) = n + 1000"
  by (simp add: ept_to_addr_def slot_to_addr_def unat_word_ariths unat_of_nat)

lemma ept_to_addr_inj: "m < TIPC_ADDR_MAX_NUM \<Longrightarrow> n < TIPC_ADDR_MAX_NUM \<Longrightarrow> ept_to_addr m = ept_to_addr n \<Longrightarrow> m = n"
  using unat_addr_slot by metis

lemma lookup_ept_Some:
  "lookup_ept dev a = Some slot \<longleftrightarrow> a = ept_to_addr slot \<and> slot \<in> bm.slots TIPC_ADDR_MAX_NUM (ept_inuse dev)"
proof (cases "slot < TIPC_ADDR_MAX_NUM")
  case True
  then show ?thesis
    by (auto simp: lookup_ept_def Let_def bm.slots_def slot_addr_eq)
next
  case False
  then show ?thesis
    by (auto simp: lookup_ept_def Let_def bm.slots_def)
qed

lemma lookup_ept_cong:
  "(\<And>slot. slot \<in> bm.slots TIPC_ADDR_MAX_NUM (ept_inuse dev) \<longleftrightarrow> slot \<in> bm.slots TIPC_ADDR_MAX_NUM (ept_inuse dev')) \<Longrightarrow>
    lookup_ept dev a = lookup_ept dev' a"
  by (metis lookup_ept_Some not_None_eq)

text \<open>
  C39: A new endpoint gets an address of its own: one from 1000 to 1255 that was not in use
  and then leads to the endpoint with the given client and channel, while every other address
  leads where it led before. The table refuses exactly if all 256 slots are in use. Freeing
  the address gives the device from before the allocation back, with the bitmap and every entry
  as they were and the entry of the freed slot cleared; if that entry was clear
  before, the device is exactly the one from before.
\<close>

theorem tipc_addr_alloc_free:
  assumes "epts_ok dev" "alloc_local_addr dev remote chan = (local, dev')"
  shows "if card (bm.slots TIPC_ADDR_MAX_NUM (ept_inuse dev)) < TIPC_ADDR_MAX_NUM
    then 1000 \<le> unat local \<and> unat local < 1256 \<and> lookup_ept dev local = None \<and>
      (\<exists>slot. lookup_ept dev' local = Some slot \<and> epts dev' ! slot = \<lparr>ep_remote = remote, ep_chan = chan\<rparr> \<and>
        free_local_addr dev' local = dev\<lparr>epts := (epts dev)[slot := \<lparr>ep_remote = 0, ep_chan = None\<rparr>]\<rparr> \<and>
        (epts dev ! slot = \<lparr>ep_remote = 0, ep_chan = None\<rparr> \<longrightarrow> free_local_addr dev' local = dev)) \<and>
      (\<forall>a. a \<noteq> local \<longrightarrow> lookup_ept dev' a = lookup_ept dev a) \<and>
      (\<forall>a slot. a \<noteq> local \<and> lookup_ept dev a = Some slot \<longrightarrow> epts dev' ! slot = epts dev ! slot) \<and>
      (\<forall>a. lookup_ept (free_local_addr dev' local) a = lookup_ept dev a) \<and> epts_ok dev' \<and> epts_ok (free_local_addr dev' local)
    else local = 0 \<and> dev' = dev"
proof (cases "card (bm.slots TIPC_ADDR_MAX_NUM (ept_inuse dev)) < TIPC_ADDR_MAX_NUM")
  case True
  have w: "bitmap_wf TIPC_ADDR_MAX_NUM (ept_inuse dev)" "length (epts dev) = TIPC_ADDR_MAX_NUM"
    using assms(1) by (simp_all add: epts_ok_def)
  have f: "0 \<le> bitmap_ffz (ept_inuse dev) TIPC_ADDR_MAX_NUM"
    using True by (simp only: bm.first_free_iff [OF w(1)])
  define n where "n = nat (bitmap_ffz (ept_inuse dev) TIPC_ADDR_MAX_NUM)"
  have n: "n < TIPC_ADDR_MAX_NUM" "n \<notin> bm.slots TIPC_ADDR_MAX_NUM (ept_inuse dev)"
    unfolding n_def by (rule bm.first_free_nonneg [OF w(1) f])+
  have d: "local = ept_to_addr n" "dev' = dev\<lparr>ept_inuse := fst (bitmap_set (ept_inuse dev) n), epts := (epts dev)[n := \<lparr>ep_remote = remote, ep_chan = chan\<rparr>]\<rparr>"
    using assms(2) f by (simp_all add: alloc_local_addr_def n_def ept_to_addr_def Let_def)
  have s: "bm.slots TIPC_ADDR_MAX_NUM (ept_inuse dev') = insert n (bm.slots TIPC_ADDR_MAX_NUM (ept_inuse dev))"
    unfolding d(2) using bm.slots_set [OF w(1) n(1)] by simp
  have w': "bitmap_wf TIPC_ADDR_MAX_NUM (ept_inuse dev')"
    unfolding d(2) using bm.invar_set [OF w(1)] by simp
  let ?f = "free_local_addr dev' local"
  have fr: "ept_inuse ?f = fst (bitmap_clear (ept_inuse dev') n)" "length (epts ?f) = length (epts dev')"
    using n(1) by (simp_all add: free_local_addr_def d(1))
  have s': "bm.slots TIPC_ADDR_MAX_NUM (ept_inuse ?f) = bm.slots TIPC_ADDR_MAX_NUM (ept_inuse dev)"
    unfolding fr using bm.slots_clear [OF w' n(1)] s n(2) by simp
  have "fst (bitmap_clear (fst (bitmap_set (ept_inuse dev) n)) n) = ept_inuse dev"
    using n by (intro bitmap_clear_set [OF w(1) n(1)]) (simp add: bm.slots_def)
  then have fe: "?f = dev\<lparr>epts := (epts dev)[n := \<lparr>ep_remote = 0, ep_chan = None\<rparr>]\<rparr>"
    using n(1) by (simp add: free_local_addr_def d(1)) (simp add: d(2))
  have fid: "?f = dev" if "epts dev ! n = \<lparr>ep_remote = 0, ep_chan = None\<rparr>"
    unfolding fe using that list_update_id [of "epts dev" n] by simp
  have inj: "slot = n" if "slot \<in> bm.slots TIPC_ADDR_MAX_NUM b" "ept_to_addr slot = ept_to_addr n" for slot b
    using that n(1) by (auto simp: bm.slots_def intro: ept_to_addr_inj)
  have "lookup_ept dev' local = Some n"
    using s by (simp add: lookup_ept_Some d(1))
  moreover have "lookup_ept dev local \<noteq> Some slot" for slot
    using inj n(2) by (auto simp: lookup_ept_Some d(1))
  moreover have "lookup_ept dev' a = lookup_ept dev a" if "a \<noteq> local" for a
    using that s by (metis d(1) insert_iff lookup_ept_Some not_None_eq)
  moreover have "epts dev' ! slot = epts dev ! slot" if "a \<noteq> local" "lookup_ept dev a = Some slot" for a slot
  proof -
    have "slot \<noteq> n"
      using that by (auto simp: d(1) lookup_ept_Some)
    then show ?thesis
      by (simp add: d(2))
  qed
  moreover have "lookup_ept ?f a = lookup_ept dev a" for a
    by (rule lookup_ept_cong) (simp add: s')
  moreover have "epts_ok dev'" "epts_ok ?f"
    using w w' fr bm.invar_clear [OF w'] by (simp_all add: epts_ok_def d(2))
  moreover have "epts dev' ! n = \<lparr>ep_remote = remote, ep_chan = chan\<rparr>"
    using n(1) w(2) by (simp add: d(2))
  moreover note fe fid
  ultimately show ?thesis
    using True n(1) unfolding d(1) by (simp add: ept_to_addr_range del: list_update_id) blast
next
  case False
  then have "\<not> 0 \<le> bitmap_ffz (ept_inuse dev) TIPC_ADDR_MAX_NUM"
    using bm.first_free_iff [of TIPC_ADDR_MAX_NUM "ept_inuse dev"] assms(1) by (simp only: epts_ok_def simp_thms)
  then show ?thesis
    using False assms(2) by (simp add: alloc_local_addr_def Let_def)
qed

section \<open>The queues\<close>

lemma after_Returned:
  "after m f = Some (Returned s' b) \<longleftrightarrow> (\<exists>s1 a. m = Some (Returned s1 a) \<and> f s1 a = Some (Returned s' b))"
  by (cases "(m, f)" rule: after.cases) auto

lemma set_vq_sel [simp]:
  "tkern (set_vq i vq s) = tkern s" "tvm (set_vq i vq s) = tvm s" "tmem (set_vq i vq s) = tmem s" "turns (set_vq i vq s) = turns s"
  "td_vqs (tdev (set_vq i vq s)) = (td_vqs (tdev s))[i := vq]" "epts (tdev (set_vq i vq s)) = epts (tdev s)"
  "ept_inuse (tdev (set_vq i vq s)) = ept_inuse (tdev s)" "tx_stop (tdev (set_vq i vq s)) = tx_stop (tdev s)"
  "rx_stop (tdev (set_vq i vq s)) = rx_stop (tdev s)"
  by (simp_all add: set_vq_def)

lemma ns_moves_sel [simp]:
  "tkern (ns_moves t i s) = tkern s" "tvm (ns_moves t i s) = tvm s" "tmem (ns_moves t i s) = nt_mem t"
  "td_vqs (tdev (ns_moves t i s)) = (td_vqs (tdev s))[i := (td_vqs (tdev s) ! i)
     \<lparr>vq_vring := (nt_ring t)\<lparr>vr_num := vr_num (vq_vring (td_vqs (tdev s) ! i))\<rparr>\<rparr>]"
  "epts (tdev (ns_moves t i s)) = epts (tdev s)" "ept_inuse (tdev (ns_moves t i s)) = ept_inuse (tdev s)"
  by (simp_all add: ns_moves_def Let_def)

text \<open>Nothing a handler does touches the receive queue.\<close>

definition keeps_rx :: "tipc_sys \<Rightarrow> tipc_sys \<Rightarrow> bool" where
  "keeps_rx s s' \<longleftrightarrow> length (td_vqs (tdev s')) = length (td_vqs (tdev s)) \<and> td_vqs (tdev s') ! TIPC_VQ_RX = td_vqs (tdev s) ! TIPC_VQ_RX"

lemma keeps_rx_refl [simp]: "keeps_rx s s"
  by (simp add: keeps_rx_def)

lemma keeps_rx_trans: "keeps_rx s s' \<Longrightarrow> keeps_rx s' s'' \<Longrightarrow> keeps_rx s s''"
  by (simp add: keeps_rx_def)

lemma keeps_rx_vqs: "td_vqs (tdev s') = td_vqs (tdev s) \<Longrightarrow> keeps_rx s s'"
  by (simp add: keeps_rx_def)

lemma keeps_rx_tx: "td_vqs (tdev s') = (td_vqs (tdev s))[TIPC_VQ_TX := vq] \<Longrightarrow> keeps_rx s s'"
  by (simp add: keeps_rx_def)

lemma tx_turn_sel [simp]:
  "tkern (tx_turn t ts waited s) = tkern s" "tvm (tx_turn t ts waited s) = tvm s" "turns (tx_turn t ts waited s) = ts"
  "td_vqs (tdev (tx_turn t ts waited s)) = (td_vqs (tdev s))[TIPC_VQ_TX := (td_vqs (tdev s) ! TIPC_VQ_TX)
     \<lparr>vq_vring := (nt_ring t)\<lparr>vr_num := vr_num (vq_vring (td_vqs (tdev s) ! TIPC_VQ_TX))\<rparr>\<rparr>]"
  by (simp_all add: tx_turn_def Let_def)

lemma tx_turn_rx: "keeps_rx s (tx_turn t ts waited s)"
  by (rule keeps_rx_tx, rule tx_turn_sel)

lemma get_tx_buf_Cons:
  "get_tx_buf (t # ts) waited wait buf s =
     (if waited \<and> tx_stop (tdev (tx_turn t ts waited s)) then Some (Returned (tx_turn t ts waited s) (ERR_CHANNEL_CLOSED, buf))
      else case vqueue_get_avail_buf (nt_idx t) (td_vqs (tdev (tx_turn t ts waited s)) ! TIPC_VQ_TX) buf of
        None \<Rightarrow> None
      | Some (ret, vq, b) \<Rightarrow>
          if ret = ERR_NOT_ENOUGH_BUFFER \<and> wait then get_tx_buf ts True wait b (set_vq TIPC_VQ_TX vq (tx_turn t ts waited s))
          else Some (Returned (set_vq TIPC_VQ_TX vq (tx_turn t ts waited s)) (ret, b)))"
  by (auto simp: Let_def split: option.split)

lemma get_tx_buf_rx: "get_tx_buf ts waited wait buf s = Some (Returned s' r) \<Longrightarrow> keeps_rx s s'"
proof (induction ts arbitrary: waited buf s)
  case (Cons t ts)
  let ?s = "tx_turn t ts waited s"
  have k: "keeps_rx s (set_vq TIPC_VQ_TX vq ?s)" for vq
    by (rule keeps_rx_trans [OF tx_turn_rx]) (rule keeps_rx_tx, simp)
  have r: "get_tx_buf ts True wait b (set_vq TIPC_VQ_TX vq ?s) = Some (Returned s' r) \<Longrightarrow> keeps_rx s s'" for b vq
    by (rule keeps_rx_trans [OF k Cons.IH])
  show ?case
    using Cons.prems k tx_turn_rx [of s t ts waited] r
    unfolding get_tx_buf_Cons by (auto simp del: tx_turn_sel split: if_splits option.splits prod.splits)
qed simp

lemma send_buf_dev: "send_buf data dst sz s = Some (r, s') \<Longrightarrow> tdev s' = tdev s"
  by (auto simp: send_buf_def split: if_splits)

lemma fill_tx_buf_dev:
  assumes "fill_tx_buf local remote cb data_len buf s = Some (r, s')" "\<And>dst sz s r s'. cb dst sz s = Some (r, s') \<Longrightarrow> tdev s' = tdev s"
  shows "tdev s' = tdev s"
  using assms(1) by (auto simp: fill_tx_buf_def Let_def bind_eq_Some_conv split: if_splits prod.splits dest!: assms(2))

abbreviation tx_buf0 :: vqueue_buf where
  "tx_buf0 \<equiv> \<lparr>vb_head = 0, in_iovs = no_iovs, out_iovs = one_iov\<rparr>"

lemma tipc_send_data_returned:
  assumes "tipc_send_data local remote cb data_len wait s = Some (Returned s' r)"
  obtains (no_buffer) buf where "get_tx_buf (turns s) False wait tx_buf0 s = Some (Returned s' (r, buf))" "r \<noteq> NO_ERROR"
  | (sent) s1 buf r1 b1 s2 vq where "get_tx_buf (turns s) False wait tx_buf0 s = Some (Returned s1 (NO_ERROR, buf))"
      "fill_tx_buf local remote cb data_len buf s1 = Some ((r1, b1), s2)"
      "vqueue_add_buf (td_vqs (tdev s2) ! TIPC_VQ_TX) b1 (of_int r1) = (r, vq)" "s' = set_vq TIPC_VQ_TX vq s2"
proof -
  obtain s1 ret buf where g: "get_tx_buf (turns s) False wait tx_buf0 s = Some (Returned s1 (ret, buf))"
    "(if ret \<noteq> NO_ERROR then Some (Returned s1 ret)
      else do {
        ((ret, buf), s) \<leftarrow> fill_tx_buf local remote cb data_len buf s1;
        let (ret, vq) = vqueue_add_buf (td_vqs (tdev s) ! TIPC_VQ_TX) buf (of_int ret);
        Some (Returned (set_vq TIPC_VQ_TX vq s) ret)
      }) = Some (Returned s' r)"
    using assms by (auto simp: tipc_send_data_def after_Returned)
  show ?thesis
  proof (cases "ret = NO_ERROR")
    case False
    then show ?thesis using g that(1) by simp
  next
    case True
    then obtain r1 b1 s2 where f: "fill_tx_buf local remote cb data_len buf s1 = Some ((r1, b1), s2)"
      "(let (ret, vq) = vqueue_add_buf (td_vqs (tdev s2) ! TIPC_VQ_TX) b1 (of_int r1) in
        Some (Returned (set_vq TIPC_VQ_TX vq s2) ret)) = Some (Returned s' r)"
      using g(2) by (auto simp: bind_eq_Some_conv)
    obtain vq where "vqueue_add_buf (td_vqs (tdev s2) ! TIPC_VQ_TX) b1 (of_int r1) = (r, vq)" "s' = set_vq TIPC_VQ_TX vq s2"
      using f(2) by (cases "vqueue_add_buf (td_vqs (tdev s2) ! TIPC_VQ_TX) b1 (of_int r1)") simp
    then show ?thesis
      using that(2) g(1) f(1) True by blast
  qed
qed

lemma tipc_send_data_rx:
  assumes "tipc_send_data local remote cb data_len wait s = Some (Returned s' r)"
    and "\<And>dst sz s r s'. cb dst sz s = Some (r, s') \<Longrightarrow> tdev s' = tdev s"
  shows "keeps_rx s s'"
  using assms(1)
proof (cases rule: tipc_send_data_returned)
  case (no_buffer buf)
  then show ?thesis by (blast intro: get_tx_buf_rx)
next
  case (sent s1 buf r1 b1 s2 vq)
  have "keeps_rx s1 s'"
    using fill_tx_buf_dev [OF sent(2) assms(2)] sent(4) by (intro keeps_rx_tx) simp
  then show ?thesis
    using get_tx_buf_rx [OF sent(1)] keeps_rx_trans by blast
qed

lemma send_conn_rsp_rx: "send_conn_rsp local remote st sz n s = Some (Returned s' r) \<Longrightarrow> keeps_rx s s'"
  unfolding send_conn_rsp_def tipc_send_buf_def by (erule tipc_send_data_rx) (rule send_buf_dev)

lemma handle_conn_req_rx: "handle_conn_req remote ns_req s = Some (Returned s' r) \<Longrightarrow> keeps_rx s s'"
  unfolding handle_conn_req_def
  by (auto simp: bind_eq_Some_conv alloc_local_addr_def Let_def keeps_rx_vqs split: if_splits option.splits prod.splits
      dest!: send_conn_rsp_rx) (auto simp: keeps_rx_def)

lemma handle_disc_req_rx: "handle_disc_req remote ns_req s = Some (Returned s' r) \<Longrightarrow> keeps_rx s s'"
  unfolding handle_disc_req_def
  by (auto simp: bind_eq_Some_conv free_local_addr_def Let_def keeps_rx_def split: if_splits option.splits)

lemma handle_ctrl_msg_rx: "handle_ctrl_msg remote ns_data len s = Some (Returned s' r) \<Longrightarrow> keeps_rx s s'"
  unfolding handle_ctrl_msg_def by (auto simp: Let_def split: if_splits dest: handle_conn_req_rx handle_disc_req_rx)

lemma handle_chan_msg_rx: "handle_chan_msg remote local ns_data len s = Some (Returned s' r) \<Longrightarrow> keeps_rx s s'"
  unfolding handle_chan_msg_def by (auto simp: bind_eq_Some_conv Let_def keeps_rx_def split: if_splits option.splits)

lemma rx_dispatch_rx: "rx_dispatch iov s = Some (Returned s' r) \<Longrightarrow> keeps_rx s s'"
  unfolding rx_dispatch_def by (auto simp: Let_def split: if_splits dest: handle_ctrl_msg_rx handle_chan_msg_rx)

lemma handle_rx_msg_rx: "handle_rx_msg buf s = Some (Returned s' (r, buf')) \<Longrightarrow> keeps_rx s s' \<and> vb_head buf' = vb_head buf"
  unfolding handle_rx_msg_def
  by (auto simp: bind_eq_Some_conv after_Returned Let_def keeps_rx_def split: if_splits dest!: rx_dispatch_rx)

section \<open>Every buffer is returned\<close>

definition buf_sized :: "vqueue_buf \<Rightarrow> bool" where
  "buf_sized buf \<longleftrightarrow> length (iv_iovs (in_iovs buf)) = iv_cnt (in_iovs buf) \<and> length (iv_phys (in_iovs buf)) = iv_cnt (in_iovs buf) \<and>
     length (iv_iovs (out_iovs buf)) = iv_cnt (out_iovs buf) \<and> length (iv_phys (out_iovs buf)) = iv_cnt (out_iovs buf)"

lemma get_avail_loop:
  assumes "vqueue_get_avail_buf idx2 vq buf = Some (ret, vq', buf')" "vring_addr vq \<noteq> 0" "\<not> no_avail idx2 vq"
  shows "\<exists>vr. chain_loop vr (avail_head vq) (clear_buf buf (avail_head vq)) = (ret, buf') \<and>
    unat (avail_head vq) < unat (vr_num (vq_vring vq)) \<and>
    vring_addr vq' = vring_addr vq \<and> last_avail_idx vq' = last_avail_idx vq + 1 \<and> vr_num (vq_vring vq') = vr_num (vq_vring vq) \<and>
    used_ring (vq_vring vq') = used_ring (vq_vring vq) \<and> used_idx (vq_vring vq') = used_idx (vq_vring vq)"
  using assms
  by (auto simp: vqueue_get_avail_buf_def vqueue_get_avail_buf_locked_def no_avail_def avail_head_def clear_buf_def Let_def
      split: prod.splits if_splits)

lemma get_avail_taken:
  assumes "vqueue_get_avail_buf idx2 vq buf = Some (ret, vq', buf')" "vring_addr vq \<noteq> 0" "\<not> no_avail idx2 vq" "buf_sized buf"
  shows "ret \<in> {NO_ERROR, ERR_NOT_VALID, ERR_TOO_BIG}" "vb_head buf' = avail_head vq" "unat (avail_head vq) < unat (vr_num (vq_vring vq))"
    "vring_addr vq' \<noteq> 0" "last_avail_idx vq' = last_avail_idx vq + 1" "vr_num (vq_vring vq') = vr_num (vq_vring vq)"
    "used_ring (vq_vring vq') = used_ring (vq_vring vq)" "used_idx (vq_vring vq') = used_idx (vq_vring vq)" "buf_ok buf'"
proof -
  have k: "buf_ok (clear_buf buf (avail_head vq))"
    using assms(4) by (simp add: buf_sized_def buf_ok_def iovs_ok_def clear_buf_def)
  obtain vr where "chain_loop vr (avail_head vq) (clear_buf buf (avail_head vq)) = (ret, buf')"
    and l: "unat (avail_head vq) < unat (vr_num (vq_vring vq))" "vring_addr vq' = vring_addr vq" "last_avail_idx vq' = last_avail_idx vq + 1"
      "vr_num (vq_vring vq') = vr_num (vq_vring vq)" "used_ring (vq_vring vq') = used_ring (vq_vring vq)" "used_idx (vq_vring vq') = used_idx (vq_vring vq)"
    using get_avail_loop [OF assms(1-3)] by blast
  from chain_loop_spec [OF k this(1)]
  show "ret \<in> {NO_ERROR, ERR_NOT_VALID, ERR_TOO_BIG}" "vb_head buf' = avail_head vq" "buf_ok buf'"
    unfolding vb_head_clear by (blast, blast, blast)
  show "unat (avail_head vq) < unat (vr_num (vq_vring vq))" "vring_addr vq' \<noteq> 0" "last_avail_idx vq' = last_avail_idx vq + 1"
    "vr_num (vq_vring vq') = vr_num (vq_vring vq)" "used_ring (vq_vring vq') = used_ring (vq_vring vq)" "used_idx (vq_vring vq') = used_idx (vq_vring vq)"
    using l assms(2) by simp_all
qed

text \<open>The receive queue as the device finds it after the other side has moved.\<close>

definition rx_queue :: "ns_turn \<Rightarrow> tipc_sys \<Rightarrow> vqueue" where
  "rx_queue t s = (let vq = td_vqs (tdev s) ! TIPC_VQ_RX in vq\<lparr>vq_vring := (nt_ring t)\<lparr>vr_num := vr_num (vq_vring vq)\<rparr>\<rparr>)"

text \<open>
  C37: The receive thread gives every buffer back. A round that takes a buffer and neither
  panics nor blocks ends with the head of that buffer in the next slot of the used ring, and in no other,
  and with both positions one further, whatever the descriptors and the message in the buffer
  were and whatever the handlers did; and the thread goes on.
\<close>

theorem tipc_rx_returns_buffer:
  assumes "tipc_rx_step t buf s = Some (Returned s' (go_on, buf'))" "length (td_vqs (tdev s)) = TIPC_VQ_NUM" "buf_sized buf"
    and "vring_addr (rx_queue t s) \<noteq> 0" "\<not> no_avail (nt_idx t) (rx_queue t s)"
  shows "go_on \<and> (\<exists>len. used_ring (vq_vring (td_vqs (tdev s') ! TIPC_VQ_RX)) = (used_ring (nt_ring t))
      (unat (used_idx (nt_ring t)) mod unat (vr_num (vq_vring (rx_queue t s))) := (ucast (avail_head (rx_queue t s)), len))) \<and>
    used_idx (vq_vring (td_vqs (tdev s') ! TIPC_VQ_RX)) = used_idx (nt_ring t) + 1 \<and>
    last_avail_idx (td_vqs (tdev s') ! TIPC_VQ_RX) = last_avail_idx (rx_queue t s) + 1"
proof -
  let ?q = "rx_queue t s"
  define s1 where "s1 = (ns_moves t TIPC_VQ_RX s)\<lparr>tdev := (tdev (ns_moves t TIPC_VQ_RX s))\<lparr>rx_stop := rx_stop (tdev (ns_moves t TIPC_VQ_RX s)) \<or> nt_stop t\<rparr>\<rparr>"
  have q: "td_vqs (tdev s1) ! TIPC_VQ_RX = ?q" "length (td_vqs (tdev s1)) = TIPC_VQ_NUM"
    using assms(2) by (simp_all add: s1_def rx_queue_def Let_def)
  have u: "used_ring (vq_vring ?q) = used_ring (nt_ring t)" "used_idx (vq_vring ?q) = used_idx (nt_ring t)"
    by (simp_all add: rx_queue_def Let_def)
  obtain ret vq b where g: "vqueue_get_avail_buf (nt_idx t) ?q buf = Some (ret, vq, b)"
    using assms(1) unfolding tipc_rx_step_def s1_def [symmetric] Let_def q(1) by (auto simp: bind_eq_Some_conv)
  note tk = get_avail_taken [OF g assms(4,5,3)]
  let ?s2 = "set_vq TIPC_VQ_RX vq s1"
  have st: "after (if ret = NO_ERROR then handle_rx_msg b ?s2 else Some (Returned ?s2 (ret, b))) (\<lambda>s (ret, buf). do {
        let (ret, vq) = vqueue_add_buf (td_vqs (tdev s) ! TIPC_VQ_RX) buf (of_int ret);
        let s = set_vq TIPC_VQ_RX vq s;
        (if ret = ERR_CHANNEL_CLOSED then Some (Returned s (False, buf))
         else do { kassert (ret = NO_ERROR); Some (Returned s (True, buf)) })
      }) = Some (Returned s' (go_on, buf'))"
    using assms(1) tk(1) unfolding tipc_rx_step_def s1_def [symmetric] Let_def q(1) g by auto
  then obtain s3 r3 b3 where h: "(if ret = NO_ERROR then handle_rx_msg b ?s2 else Some (Returned ?s2 (ret, b))) = Some (Returned s3 (r3, b3))"
    "(let (ret, vq) = vqueue_add_buf (td_vqs (tdev s3) ! TIPC_VQ_RX) b3 (of_int r3) in
        (if ret = ERR_CHANNEL_CLOSED then Some (Returned (set_vq TIPC_VQ_RX vq s3) (False, b3))
         else do { kassert (ret = NO_ERROR); Some (Returned (set_vq TIPC_VQ_RX vq s3) (True, b3)) })) = Some (Returned s' (go_on, buf'))"
    by (auto simp: after_Returned Let_def simp del: One_nat_def)
  have k: "keeps_rx ?s2 s3 \<and> vb_head b3 = vb_head b"
    using h(1) handle_rx_msg_rx by (auto split: if_splits)
  then have v: "td_vqs (tdev s3) ! TIPC_VQ_RX = vq" "length (td_vqs (tdev s3)) = TIPC_VQ_NUM"
    using q(2) by (simp_all add: keeps_rx_def)
  have "vqueue_add_buf vq b3 (of_int r3) = (NO_ERROR, vq\<lparr>vq_vring := (vq_vring vq)\<lparr>used_ring := (used_ring (vq_vring vq))
      (unat (used_idx (vq_vring vq)) mod unat (vr_num (vq_vring vq)) := (ucast (avail_head ?q), of_int r3)), used_idx := used_idx (vq_vring vq) + 1\<rparr>\<rparr>)"
    using tk(2-4,6) k by (simp add: vqueue_add_buf_def vqueue_add_buf_locked_def Let_def)
  then show ?thesis
    using h(2) v tk(5-8) u by (auto simp: Let_def)
qed

section \<open>Examples\<close>

definition ex_dev :: tipc_dev where
  "ex_dev = (fst (create_tipc_device ZeroUuid 0 0x1000 ex_connected))\<lparr>td_vqs := [ex_vq, ex_vq]\<rparr>"

lemma ex_dev_ok: "epts_ok ex_dev" "bm.slots TIPC_ADDR_MAX_NUM (ept_inuse ex_dev) = {}" "td_vqs ex_dev = [ex_vq, ex_vq]"
  by (simp_all add: ex_dev_def create_tipc_device_def epts_ok_def)

theorem tipc_addr_alloc_free_witness:
  "\<exists>local dev'. alloc_local_addr ex_dev 77 (Some (ChanH 0)) = (local, dev') \<and> 1000 \<le> unat local \<and> lookup_ept dev' local \<noteq> None \<and>
     lookup_ept (free_local_addr dev' local) local = None \<and> free_local_addr dev' local = ex_dev"
proof -
  obtain local dev' where a: "alloc_local_addr ex_dev 77 (Some (ChanH 0)) = (local, dev')"
    by fastforce
  obtain slot where s: "lookup_ept dev' local = Some slot"
    "epts ex_dev ! slot = \<lparr>ep_remote = 0, ep_chan = None\<rparr> \<longrightarrow> free_local_addr dev' local = ex_dev"
    "1000 \<le> unat local" "lookup_ept ex_dev local = None" "lookup_ept (free_local_addr dev' local) local = lookup_ept ex_dev local"
    using tipc_addr_alloc_free [OF ex_dev_ok(1) a] by (auto simp: ex_dev_ok(2))
  have "slot < TIPC_ADDR_MAX_NUM"
    using s(1) by (auto simp: lookup_ept_def Let_def split: if_splits)
  then have "epts ex_dev ! slot = \<lparr>ep_remote = 0, ep_chan = None\<rparr>"
    by (simp add: ex_dev_def create_tipc_device_def)
  then show ?thesis
    using a s by auto
qed

definition ex_turn :: ns_turn where
  "ex_turn = \<lparr>nt_ring = ex_ring\<lparr>vr_desc := (\<lambda>_. \<lparr>vd_addr = 0x2000, vd_len = 18, vd_flags = 0, vd_next = 0\<rparr>)\<rparr>, nt_idx = 1, nt_mem = (\<lambda>_. 0), nt_stop = False\<rparr>"

definition ex_sys :: tipc_sys where
  "ex_sys = \<lparr>tdev = ex_dev, tkern = ex_connected, tvm = ex_vm, tmem = (\<lambda>_. 0), turns = [ex_turn]\<rparr>"

definition ex_rx_vec :: vqueue_iovs where
  "ex_rx_vec = \<lparr>iv_cnt = 1, iv_used = 1, iv_len = 18, iv_phys = [0x2000], iv_iovs = [\<lparr>ik_base = 0, ik_len = 18\<rparr>]\<rparr>"

lemma ex_rx_queue: "rx_queue ex_turn ex_sys = ex_vq\<lparr>vq_vring := nt_ring ex_turn\<rparr>"
  by (simp add: rx_queue_def ex_sys_def ex_dev_ok ex_turn_def ex_vq_defs)

lemma ex_rx_facts:
  "vring_addr (rx_queue ex_turn ex_sys) \<noteq> 0" "\<not> no_avail (nt_idx ex_turn) (rx_queue ex_turn ex_sys)" "avail_head (rx_queue ex_turn ex_sys) = 0"
  "vr_num (vq_vring (rx_queue ex_turn ex_sys)) = 4" "used_idx (nt_ring ex_turn) = 0" "length (td_vqs (tdev ex_sys)) = TIPC_VQ_NUM"
  "buf_sized \<lparr>vb_head = 0, in_iovs = one_iov, out_iovs = no_iovs\<rparr>"
  unfolding ex_rx_queue
  by (simp_all add: ex_turn_def ex_vq_defs no_avail_def avail_head_def ex_sys_def ex_dev_ok buf_sized_def one_iov_def no_iovs_def)

lemma ex_rx_get:
  "\<exists>vq. vqueue_get_avail_buf 1 (rx_queue ex_turn ex_sys) \<lparr>vb_head = 0, in_iovs = one_iov, out_iovs = no_iovs\<rparr> =
     Some (NO_ERROR, vq, \<lparr>vb_head = 0, in_iovs = ex_rx_vec, out_iovs = no_iovs\<rparr>)"
  unfolding ex_rx_queue by (simp add: ex_turn_def ex_vq_defs vqueue_get_avail_buf_def vqueue_get_avail_buf_locked_def chain_loop.simps put_desc_def one_iov_def no_iovs_def ex_rx_vec_def add_iov_def)

text \<open>A vector of 18 bytes whose header announces none: the message is malformed.\<close>

lemma ex_rx_map: "map_option (fst \<circ> fst) (vqueue_map_iovs ex_rx_vec 56 ex_vm) = Some NO_ERROR"
proof -
  have "map_option fst (vmm_alloc_physical PAGE_SIZE (Some 0) 12 0x2000 0 56 ex_vm) = Some (NO_ERROR, Some 0x80000000)"
    by code_simp
  then obtain vm where "vmm_alloc_physical PAGE_SIZE (Some 0) 12 0x2000 0 56 ex_vm = Some ((NO_ERROR, Some 0x80000000), vm)"
    by auto
  moreover have "ROUNDUP 18 PAGE_SIZE = (PAGE_SIZE :: u32)"
    by (simp add: ROUNDUP_def)
  ultimately show ?thesis
    by (simp add: vqueue_map_iovs_def ex_rx_vec_def kassert_def set_base_def iov_base_def)
qed

lemma ex_rx_handle:
  assumes "tvm s = ex_vm" "tmem s = (\<lambda>_. 0)"
  shows "\<exists>s' b. handle_rx_msg \<lparr>vb_head = 0, in_iovs = ex_rx_vec, out_iovs = no_iovs\<rparr> s = Some (Returned s' (ERR_INVALID_ARGS, b))"
proof (rule vqueue_map_iovs_cases [of "{(0, 0), (0, 1)}" ex_vm ex_rx_vec 56])
  show "vm_inv {(0, 0), (0, 1)} ex_vm"
    by (rule vm_reach_inv [OF ex_vm_reach])
next
  fix iv' s' assume "vqueue_map_iovs ex_rx_vec 56 ex_vm = Some ((ERR_NO_MEMORY, iv'), s')"
  then show ?thesis using ex_rx_map by simp
next
  fix iv' vm'
  assume m: "vqueue_map_iovs ex_rx_vec 56 ex_vm = Some ((NO_ERROR, iv'), vm')" "same_shape ex_rx_vec iv'"
    "owned {(0, 0), (0, 1)} (map (iov_base iv') [0..<iv_used ex_rx_vec]) (region_list (aspace ex_vm)) vm'"
    "\<And>j. j < iv_used ex_rx_vec \<Longrightarrow> ik_base (iv_iovs iv' ! j) \<noteq> 0 \<and> iov_base iv' j \<noteq> 0"
  have c: "iv_used iv' = iv_used ex_rx_vec" "iv_cnt iv' = 1" "length (iv_iovs iv') = 1" "iv_used ex_rx_vec = 1"
    using m(2) same_shape_length [OF m(2)] by (simp_all add: same_shape_def ex_rx_vec_def)
  have l: "ik_len (iv_iovs iv' ! 0) = 18"
    using m(2) c(3) by (cases "iv_iovs iv'") (simp_all add: same_shape_def ex_rx_vec_def)
  obtain iv'' vm'' where u: "vqueue_unmap_iovs iv' vm' = Some (iv'', vm'')"
    using vqueue_unmap_iovs_owned [of "{(0, 0), (0, 1)}" iv' "region_list (aspace ex_vm)" vm'] m(3,4) c by auto
  have "rx_dispatch (iv_iovs iv' ! 0) (s\<lparr>tvm := vm'\<rparr>) = Some (Returned (s\<lparr>tvm := vm'\<rparr>) ERR_INVALID_ARGS)"
    using l m(4) [of 0] c(4) assms(2) by (simp add: rx_dispatch_def kassert_def mem_read_def upt_conv_Cons)
  then show ?thesis
    using m(1) u c(4) assms(1) by (simp add: handle_rx_msg_def)
qed (simp_all add: ex_rx_vec_def IS_PAGE_ALIGNED_def)

lemma ex_rx_step:
  "\<exists>s' r. tipc_rx_step ex_turn \<lparr>vb_head = 0, in_iovs = one_iov, out_iovs = no_iovs\<rparr> ex_sys = Some (Returned s' r)"
proof -
  let ?b = "\<lparr>vb_head = 0, in_iovs = one_iov, out_iovs = no_iovs\<rparr>" and ?b' = "\<lparr>vb_head = 0, in_iovs = ex_rx_vec, out_iovs = no_iovs\<rparr>"
  define s1 where "s1 = (ns_moves ex_turn TIPC_VQ_RX ex_sys)\<lparr>tdev := (tdev (ns_moves ex_turn TIPC_VQ_RX ex_sys))
    \<lparr>rx_stop := rx_stop (tdev (ns_moves ex_turn TIPC_VQ_RX ex_sys)) \<or> nt_stop ex_turn\<rparr>\<rparr>"
  have q: "td_vqs (tdev s1) ! TIPC_VQ_RX = rx_queue ex_turn ex_sys" "length (td_vqs (tdev s1)) = TIPC_VQ_NUM" "tvm s1 = ex_vm" "tmem s1 = (\<lambda>_. 0)"
    by (simp_all add: s1_def rx_queue_def Let_def ex_sys_def ex_dev_ok ex_turn_def)
  obtain vq where g: "vqueue_get_avail_buf (nt_idx ex_turn) (rx_queue ex_turn ex_sys) ?b = Some (NO_ERROR, vq, ?b')"
    using ex_rx_get by (auto simp: ex_turn_def)
  have v: "vring_addr vq \<noteq> 0" "vr_num (vq_vring vq) = 4"
    using get_avail_taken(4,6) [OF g ex_rx_facts(1,2,7)] by (simp_all add: ex_rx_facts)
  obtain s3 b3 where h: "handle_rx_msg ?b' (set_vq TIPC_VQ_RX vq s1) = Some (Returned s3 (ERR_INVALID_ARGS, b3))"
    using ex_rx_handle [of "set_vq TIPC_VQ_RX vq s1"] q by auto
  have k: "td_vqs (tdev s3) ! TIPC_VQ_RX = vq" "vb_head b3 = 0"
    using handle_rx_msg_rx [OF h] q(2) by (simp_all add: keeps_rx_def)
  have "fst (vqueue_add_buf vq b3 (of_int ERR_INVALID_ARGS)) = NO_ERROR"
    using v k(2) by (simp add: vqueue_add_buf_def vqueue_add_buf_locked_def Let_def)
  then obtain vq' where "vqueue_add_buf vq b3 (of_int ERR_INVALID_ARGS) = (NO_ERROR, vq')"
    by (cases "vqueue_add_buf vq b3 (of_int ERR_INVALID_ARGS)") simp
  then show ?thesis
    unfolding tipc_rx_step_def s1_def [symmetric] Let_def q(1) g using h k(1) by (simp add: Let_def kassert_def) blast
qed

theorem tipc_rx_returns_buffer_witness:
  "\<exists>s' buf' len. tipc_rx_step ex_turn \<lparr>vb_head = 0, in_iovs = one_iov, out_iovs = no_iovs\<rparr> ex_sys = Some (Returned s' (True, buf')) \<and>
     used_ring (vq_vring (td_vqs (tdev s') ! TIPC_VQ_RX)) 0 = (0, len) \<and> used_idx (vq_vring (td_vqs (tdev s') ! TIPC_VQ_RX)) = 1"
proof -
  let ?b = "\<lparr>vb_head = 0, in_iovs = one_iov, out_iovs = no_iovs\<rparr>"
  obtain s' go_on b' where r: "tipc_rx_step ex_turn ?b ex_sys = Some (Returned s' (go_on, b'))"
    using ex_rx_step by auto
  from tipc_rx_returns_buffer [OF r ex_rx_facts(6,7,1,2)] show ?thesis
    using r by (auto simp: ex_rx_facts)
qed
end
