(* ===== verification/Tipc_Msg.thy ===== *)
theory Tipc_Msg
  imports Tipc_System
begin

text \<open>
  Messages through the device of \<open>Tipc_Dev\<close>: the delivery of received messages to the
  channels of their endpoints, and what is put into the buffers of the other side.
\<close>

section \<open>Delivery to channels\<close>

lemma kern_gather_one:
  assumes "base \<noteq> 0"
  shows "kern_gather (m, Some [\<lparr>ik_base = base, ik_len = len\<rparr>], 1) buf sz =
    (int (min len sz), overwrite 0 (mem_read m base (min len sz)) buf)"
  using assms by (auto simp: kern_gather_def kern_iovec_to_membuf_def min_def overwrite_def)

lemma mq_send_one:
  assumes "mq_wf mq" "base \<noteq> 0"
  shows "fst (mq_send (m, um, KernMsg (Some [\<lparr>ik_base = base, ik_len = len\<rparr>]) 1 0) mq) =
    (if ipc_msg_queue.free_list mq = [] then None else Some (mem_read m base (min len (item_sz mq))))" (is "fst (mq_send (m, um, ?msg) mq) = _")
proof -
  have g: "msg_gather m um ?msg (i * item_sz mq) mq =
      (int (min len (item_sz mq)), mq\<lparr>mq_buf := take (i * item_sz mq) (mq_buf mq) @
         overwrite 0 (mem_read m base (min len (item_sz mq))) (drop (i * item_sz mq) (mq_buf mq))\<rparr>)" for i
    using kern_gather_one [OF assms(2), of m len "drop (i * item_sz mq) (mq_buf mq)" "item_sz mq"] by (simp add: msg_gather_def)
  from assms(1) show ?thesis
  proof (cases rule: msg_queue_write_cases [where m = m and um = um and msg = ?msg])
    case full
    then show ?thesis by (simp add: mq_send_def)
  next
    case (failed i fs r mq')
    then show ?thesis using g [of i] by simp
  next
    case (written i fs n mq')
    have "i * item_sz mq \<le> length (mq_buf mq)"
      using item_window_bound [OF written(2), of "item_sz mq"] mq_wfD(3) [OF assms(1)] by linarith
    then have "gathered m um ?msg i mq = mem_read m base (min len (item_sz mq))"
      unfolding gathered_def g by (simp add: window_def overwrite_def min_absorb2)
    then show ?thesis
      using written(1,6) by (simp add: mq_send_def)
  qed
qed

text \<open>
  C36: A message in a received buffer reaches the channel of its endpoint and no other. If the
  destination is an endpoint in use by the sender whose channel is connected, the bytes after
  the header, cut at the size of a message of that channel, become the last pending message of
  the channel's peer, whose waiter is woken; if its queue is full nothing becomes pending. The
  queue of the channel itself and all other channels are as they were.
  If the destination is not in use, or belongs to another client, nothing changes.
\<close>

theorem tipc_chan_msg_delivered:
  assumes "reachable (tkern s)" "ik_base iov \<noteq> 0" "ik_len iov = TIPC_HDR_SIZE + n"
    and "unat (le32 (mem_read (tmem s) (ik_base iov + 12) 2)) = n"
    and src: "src = le32 (mem_read (tmem s) (ik_base iov) 4)"
    and dst: "dst = le32 (mem_read (tmem s) (ik_base iov + 4) 4)" "dst \<noteq> TIPC_CTRL_ADDR"
  shows "((\<forall>slot. lookup_ept (tdev s) dst = Some slot \<longrightarrow> ep_remote (epts (tdev s) ! slot) \<noteq> src) \<longrightarrow>
      rx_dispatch iov s = Some (Returned s ERR_NOT_FOUND)) \<and>
    (\<forall>slot c ch. lookup_ept (tdev s) dst = Some slot \<and> epts (tdev s) ! slot = \<lparr>ep_remote = src, ep_chan = Some (ChanH c)\<rparr> \<and>
        has_handle (tkern s) c \<and> chans (tkern s) c = Some ch \<and> ch_state ch = IPC_CHAN_STATE_CONNECTED \<longrightarrow>
      (\<exists>d dh mq hn r k' dh' mq'. peer ch = Some d \<and> chans (tkern s) d = Some dh \<and> msg_queue dh = Some mq \<and>
        handles (tkern s) (ChanH d) = Some hn \<and> rx_dispatch iov s = Some (Returned (s\<lparr>tkern := k'\<rparr>) r) \<and>
        chans k' d = Some dh' \<and> msg_queue dh' = Some mq' \<and>
        (\<forall>e. e \<noteq> d \<and> e \<noteq> c \<longrightarrow> chans k' e = chans (tkern s) e) \<and> map_option msg_queue (chans k' c) = Some (msg_queue ch) \<and>
        (if ipc_msg_queue.free_list mq = [] then r = ERR_NOT_ENOUGH_BUFFER \<and> mq_pending mq' = mq_pending mq
         else 0 \<le> r \<and> woken hn (events k') \<and>
           mq_pending mq' = mq_pending mq @ [mem_read (tmem s) (ik_base iov + TIPC_HDR_SIZE) (min n (item_sz mq))])))"
proof -
  have e: "rx_dispatch iov s = handle_chan_msg src dst (ik_base iov + TIPC_HDR_SIZE) n s"
    using assms(2-4) dst by (simp add: rx_dispatch_def src Let_def)
  have "rx_dispatch iov s = Some (Returned s ERR_NOT_FOUND)"
    if "\<forall>slot. lookup_ept (tdev s) dst = Some slot \<longrightarrow> ep_remote (epts (tdev s) ! slot) \<noteq> src"
    using that unfolding e by (auto simp: handle_chan_msg_def Let_def split: option.split)
  moreover have "\<exists>d dh mq hn r k' dh' mq'. peer ch = Some d \<and> chans (tkern s) d = Some dh \<and> msg_queue dh = Some mq \<and>
        handles (tkern s) (ChanH d) = Some hn \<and> rx_dispatch iov s = Some (Returned (s\<lparr>tkern := k'\<rparr>) r) \<and>
        chans k' d = Some dh' \<and> msg_queue dh' = Some mq' \<and>
        (\<forall>e. e \<noteq> d \<and> e \<noteq> c \<longrightarrow> chans k' e = chans (tkern s) e) \<and> map_option msg_queue (chans k' c) = Some (msg_queue ch) \<and>
        (if ipc_msg_queue.free_list mq = [] then r = ERR_NOT_ENOUGH_BUFFER \<and> mq_pending mq' = mq_pending mq
         else 0 \<le> r \<and> woken hn (events k') \<and>
           mq_pending mq' = mq_pending mq @ [mem_read (tmem s) (ik_base iov + TIPC_HDR_SIZE) (min n (item_sz mq))])"
    if l: "lookup_ept (tdev s) dst = Some slot" "epts (tdev s) ! slot = \<lparr>ep_remote = src, ep_chan = Some (ChanH c)\<rparr>"
      and c: "has_handle (tkern s) c" "chans (tkern s) c = Some ch" "ch_state ch = IPC_CHAN_STATE_CONNECTED" for slot c ch
  proof -
    let ?k = "tkern s" and ?msg = "KernMsg (Some [\<lparr>ik_base = ik_base iov + TIPC_HDR_SIZE, ik_len = n\<rparr>]) 1 0"
    note inv = reachable_inv [OF assms(1)]
    obtain d dh mq hn where d: "peer ch = Some d" "c \<noteq> d" "chans ?k d = Some dh" "msg_queue dh = Some mq" "mq_wf mq" "handles ?k (ChanH d) = Some hn"
      by (rule connected_peer [OF inv c(2,3)])
    obtain r mq' e where s: "send_locked (tmem s) Map.empty (Some (ChanH c)) ?msg ?k =
        Some (r, ?k\<lparr>chans := (chans ?k)(d \<mapsto> dh\<lparr>msg_queue := Some mq'\<rparr>, c \<mapsto> ch\<lparr>aux_state :=
          (if ipc_msg_queue.free_list mq = [] then aux_state ch OR IPC_CHAN_AUX_STATE_SEND_BLOCKED else aux_state ch)\<rparr>), events := e\<rparr>)" (is "_ = Some (r, ?k')")
      "0 \<le> r \<longrightarrow> woken hn e" "0 \<le> r \<longleftrightarrow> fst (mq_send (tmem s, Map.empty, ?msg) mq) \<noteq> None" "mq' = snd (mq_send (tmem s, Map.empty, ?msg) mq)"
      "ipc_msg_queue.free_list mq = [] \<longrightarrow> r = ERR_NOT_ENOUGH_BUFFER"
      by (rule send_ok [OF inv c d(1,3,4,6)])
    have law: "mq_pending mq' = mq_pending mq @ (case fst (mq_send (tmem s, Map.empty, ?msg) mq) of None \<Rightarrow> [] | Some x \<Rightarrow> [x])"
      using mqf.send_law [OF d(5), of "(tmem s, Map.empty, ?msg)"] s(4) by (cases "mq_send (tmem s, Map.empty, ?msg) mq") auto
    note one = mq_send_one [OF d(5), of "ik_base iov + TIPC_HDR_SIZE" "tmem s" Map.empty n]
    have x: "rx_dispatch iov s = Some (Returned (s\<lparr>tkern := ?k'\<rparr>) r)" "chans ?k' d = Some (dh\<lparr>msg_queue := Some mq'\<rparr>)" "events ?k' = e"
      "msg_queue (dh\<lparr>msg_queue := Some mq'\<rparr>) = Some mq'"
      "\<forall>e. e \<noteq> d \<and> e \<noteq> c \<longrightarrow> chans ?k' e = chans ?k e" "map_option msg_queue (chans ?k' c) = Some (msg_queue ch)"
      unfolding e using l s(1) d(2) by (simp_all add: handle_chan_msg_def ipc_send_msg_def)
    have "if ipc_msg_queue.free_list mq = [] then r = ERR_NOT_ENOUGH_BUFFER \<and> mq_pending mq' = mq_pending mq
      else 0 \<le> r \<and> woken hn (events ?k') \<and>
        mq_pending mq' = mq_pending mq @ [mem_read (tmem s) (ik_base iov + TIPC_HDR_SIZE) (min n (item_sz mq))]"
      unfolding x(3) using s(2,3,5) law one by (cases "ipc_msg_queue.free_list mq = []") simp_all
    then show ?thesis
      using d(1,3,4,6) x(1,2,4-6) by (intro exI conjI)
  qed
  ultimately show ?thesis
    by blast
qed

subsection \<open>What is written into a transmit buffer\<close>

lemma tipc_hdr_length [simp]: "length (tipc_hdr src dst len) = TIPC_HDR_SIZE"
  by (simp add: tipc_hdr_def le32_bytes_def le16_bytes_def)

lemma mem_write_append: "mem_write (mem_write m a xs) (a + length xs) ys = mem_write m a (xs @ ys)"
  by (rule ext) (auto simp: mem_write_def nth_append)

lemma mem_write_outside: "a < x \<or> x + length ys \<le> a \<Longrightarrow> mem_write m x ys a = m a"
  by (auto simp: mem_write_def)

text \<open>The bytes of a message that fit a buffer of a given length: its header, and as much of its data as there is room for.\<close>

definition tx_bytes :: "u32 \<Rightarrow> u32 \<Rightarrow> u8 list \<Rightarrow> nat \<Rightarrow> u8 list" where
  "tx_bytes local remote data room = take room (tipc_hdr local remote (of_nat (length data)) @ data)"

lemma fill_tx_buf_mapped:
  assumes "iv_used (out_iovs buf) = 1" "iv_iovs (out_iovs buf) = [\<lparr>ik_base = b, ik_len = room\<rparr>]" "TIPC_HDR_SIZE \<le> room"
    and "vqueue_map_iovs (out_iovs buf) (ARCH_MMU_FLAG_NS OR ARCH_MMU_FLAG_PERM_NO_EXECUTE) (tvm s) = Some ((NO_ERROR, iv), vm)"
    and "ik_base (iv_iovs iv ! 0) \<noteq> 0" "ik_len (iv_iovs iv ! 0) = room"
  shows "fill_tx_buf local remote cb n buf s = do {
    (ret, s) \<leftarrow> cb (ik_base (iv_iovs iv ! 0) + TIPC_HDR_SIZE) (if room < TIPC_HDR_SIZE + unat n then unat (of_nat (room - TIPC_HDR_SIZE) :: u16) else unat n)
      (s\<lparr>tvm := vm, tmem := mem_write (tmem s) (ik_base (iv_iovs iv ! 0)) (tipc_hdr local remote n)\<rparr>);
    (iv, vm) \<leftarrow> vqueue_unmap_iovs iv (tvm s);
    Some ((if ret \<ge> 0 then ret + int TIPC_HDR_SIZE else ret, buf\<lparr>out_iovs := iv\<rparr>), s\<lparr>tvm := vm\<rparr>)
  }"
  using assms by (simp add: fill_tx_buf_def kassert_def Let_def if_distrib [of unat] cong: if_cong)

text \<open>
  C38: A message never leaves the buffer the other side gave for it. Filling a transmit buffer of
  one page-aligned vector with room for at least a header either fails for want of address
  space, writing nothing, or maps the vector's physical address once, as many pages as the
  vector takes, writes the header followed by the data, cut at the end of the vector, from the
  first byte of that mapping on, and unmaps the same pages. No byte outside the vector's
  place in the mapping changes; the result is the number of bytes written. In both cases the
  kernel's regions are afterwards those from before, and so are the queues, the endpoints and
  the kernel.
\<close>

theorem tipc_fill_tx_buf_confined:
  assumes "vm_reach R (tvm s)" "iv_used (out_iovs buf) = 1" "iv_cnt (out_iovs buf) = 1"
    and "iv_iovs (out_iovs buf) = [\<lparr>ik_base = b, ik_len = room\<rparr>]" "IS_PAGE_ALIGNED (iv_phys (out_iovs buf) ! 0)"
    and "TIPC_HDR_SIZE \<le> room" "room \<le> 0xfffff000" "length data < 2 ^ 16"
  shows "\<exists>r iv s'. fill_tx_buf local remote (send_buf data) (of_nat (length data)) buf s = Some ((r, buf\<lparr>out_iovs := iv\<rparr>), s') \<and>
    tdev s' = tdev s \<and> tkern s' = tkern s \<and> turns s' = turns s \<and> region_list (aspace (tvm s')) = region_list (aspace (tvm s)) \<and>
    (r = ERR_NO_MEMORY \<and> tmem s' = tmem s \<or>
     r = int (length (tx_bytes local remote data room)) \<and>
     (\<exists>va pages. va \<noteq> 0 \<and> room \<le> unat pages * 4096 \<and> pages = ROUNDUP (of_nat room) PAGE_SIZE div PAGE_SIZE \<and>
        mmu_calls (tvm s') = mmu_calls (tvm s) @
          [MmuMap va (iv_phys (out_iovs buf) ! 0) pages (ARCH_MMU_FLAG_NS OR ARCH_MMU_FLAG_PERM_NO_EXECUTE), MmuUnmap va pages] \<and>
        tmem s' = mem_write (tmem s) (unat va) (tx_bytes local remote data room) \<and>
        (\<forall>a. a < unat va \<or> unat va + room \<le> a \<longrightarrow> tmem s' a = tmem s a)))"
proof -
  let ?iv = "out_iovs buf" and ?fl = "ARCH_MMU_FLAG_NS OR ARCH_MMU_FLAG_PERM_NO_EXECUTE" and ?h = "tipc_hdr local remote (of_nat (length data))"
  let ?n = "min (length data) (room - TIPC_HDR_SIZE)"
  have u: "unat (of_nat (length data) :: u16) = length data"
    using assms(8) by (simp add: unat_of_nat take_bit_nat_eq_self)
  have t: "tx_bytes local remote data room = ?h @ take ?n data"
    using assms(6) by (simp add: tx_bytes_def min_def)
  have z: "unat (of_nat (room - TIPC_HDR_SIZE) :: u16) = room - TIPC_HDR_SIZE" if "room < TIPC_HDR_SIZE + length data"
    unfolding unat_of_nat by (rule mod_less) (use that assms(8) in simp)
  have y: "int (room - TIPC_HDR_SIZE) + 16 = int room" "room < TIPC_HDR_SIZE + length data \<Longrightarrow> room - TIPC_HDR_SIZE \<le> length data"
    using assms(6) by auto
  show ?thesis
  proof (rule vqueue_map_iovs_cases [of R "tvm s" ?iv ?fl])
    show "vm_inv R (tvm s)" using vm_reach_inv assms(1) .
  next
    fix iv' vm' assume "vqueue_map_iovs ?iv ?fl (tvm s) = Some ((ERR_NO_MEMORY, iv'), vm')" "owned R [] (region_list (aspace (tvm s))) vm'"
    then show ?thesis
      using assms(2,4,6) by (auto simp: fill_tx_buf_def)
  next
    fix iv' vm'
    assume maps: "vqueue_map_iovs ?iv ?fl (tvm s) = Some ((NO_ERROR, iv'), vm')" "same_shape ?iv iv'"
      "owned R (map (iov_base iv') [0..<iv_used ?iv]) (region_list (aspace (tvm s))) vm'"
      "\<And>j. j < iv_used ?iv \<Longrightarrow> ik_base (iv_iovs iv' ! j) \<noteq> 0 \<and> iov_base iv' j \<noteq> 0"
    have c: "iv_used iv' = 1" "iv_cnt iv' = 1" "length (iv_iovs iv') = 1"
      using maps(2) same_shape_length [OF maps(2)] assms(2-4) by (simp_all add: same_shape_def)
    have l: "ik_len (iv_iovs iv' ! 0) = room"
      using maps(2) c(3) assms(4) by (cases "iv_iovs iv'") (simp_all add: same_shape_def)
    obtain iv'' vm'' where w: "vqueue_unmap_iovs iv' vm' = Some (iv'', vm'')" "owned R [] (region_list (aspace (tvm s))) vm''"
      using vqueue_unmap_iovs_owned [of R iv' "region_list (aspace (tvm s))" vm'] maps(3,4) assms(2) c by auto
    let ?b = "ik_base (iv_iovs iv' ! 0)"
    have m: "mem_write (mem_write (tmem s) ?b ?h) (?b + TIPC_HDR_SIZE) (take ?n data) = mem_write (tmem s) ?b (tx_bytes local remote data room)"
      using mem_write_append [of "tmem s" ?b ?h "take ?n data"] unfolding t by simp
    let ?s' = "s\<lparr>tvm := vm'', tmem := mem_write (tmem s) ?b (tx_bytes local remote data room)\<rparr>"
    have f: "fill_tx_buf local remote (send_buf data) (of_nat (length data)) buf s =
      Some ((int (length (tx_bytes local remote data room)), buf\<lparr>out_iovs := iv''\<rparr>),
        ?s')"
      using fill_tx_buf_mapped [of buf b room s iv' vm' local remote "send_buf data" "of_nat (length data)"] assms(2,4,6) maps(1) maps(4) [of 0] w(1) c l
      unfolding u m [symmetric] by (cases "room < TIPC_HDR_SIZE + length data") (simp_all add: send_buf_def kassert_def u z t y del: of_nat_diff One_nat_def)
    have ms: "map_size ?iv 0 = ROUNDUP (of_nat room) PAGE_SIZE" "map_size ?iv 0 \<noteq> 0" "length (iv_iovs ?iv) = 1"
      using ROUNDUP_page_pos [of room] assms(4,6,7) by (simp_all add: map_size_def)
    note one = vqueue_map_one [OF vm_reach_inv [OF assms(1)] assms(2,3) ms(3,2) maps(1) w(1), unfolded ms(1)]
    have "\<forall>a. a < ?b \<or> ?b + room \<le> a \<longrightarrow> tmem ?s' a = tmem s a"
      using mem_write_outside [of _ ?b "tx_bytes local remote data room" "tmem s"] by (auto simp: tx_bytes_def)
    moreover have "iov_base iv' 0 \<noteq> 0" "region_list (aspace (tvm ?s')) = region_list (aspace (tvm s))"
      using w(2) maps(4) [of 0] assms(2) by simp_all
    ultimately show ?thesis
      using f one ROUNDUP_page_room [OF assms(7)] by auto
  qed (use assms in auto)
qed


subsection \<open>A transmit buffer that is lost\<close>

text \<open>The transmit queue as the device finds it after the other side has moved.\<close>

definition tx_queue :: "ns_turn \<Rightarrow> tipc_sys \<Rightarrow> vqueue" where
  "tx_queue t s = (let vq = td_vqs (tdev s) ! TIPC_VQ_TX in vq\<lparr>vq_vring := (nt_ring t)\<lparr>vr_num := vr_num (vq_vring vq)\<rparr>\<rparr>)"

text \<open>
  C40: Unlike the receive thread, sending does not give a buffer back when its descriptors are
  bad: a chain that is malformed or has more vectors than expected is taken from the queue,
  the error is returned, and the used ring is as it was. The other side never gets that
  buffer back, and the message is dropped.
\<close>

theorem tipc_send_drops_bad_buffer:
  assumes "turns s = t # ts" "length (td_vqs (tdev s)) = TIPC_VQ_NUM" "vring_addr (tx_queue t s) \<noteq> 0" "\<not> no_avail (nt_idx t) (tx_queue t s)"
    and "vqueue_get_avail_buf (nt_idx t) (tx_queue t s) \<lparr>vb_head = 0, in_iovs = no_iovs, out_iovs = one_iov\<rparr> = Some (ret, vq, b)" "ret \<noteq> NO_ERROR"
  shows "ret \<in> {ERR_NOT_VALID, ERR_TOO_BIG} \<and>
    (\<exists>s'. tipc_send_data local remote cb n wait s = Some (Returned s' ret) \<and>
      last_avail_idx (td_vqs (tdev s') ! TIPC_VQ_TX) = last_avail_idx (td_vqs (tdev s) ! TIPC_VQ_TX) + 1 \<and>
      used_idx (vq_vring (td_vqs (tdev s') ! TIPC_VQ_TX)) = used_idx (nt_ring t) \<and>
      used_ring (vq_vring (td_vqs (tdev s') ! TIPC_VQ_TX)) = used_ring (nt_ring t) \<and>
      tkern s' = tkern s \<and> tmem s' = nt_mem t)"
proof -
  have z: "buf_sized \<lparr>vb_head = 0, in_iovs = no_iovs, out_iovs = one_iov\<rparr>"
    by (simp add: buf_sized_def no_iovs_def one_iov_def)
  note tk = get_avail_taken [OF assms(5,3,4) z]
  have q: "td_vqs (tdev (tx_turn t ts False s)) ! TIPC_VQ_TX = tx_queue t s"
    using assms(2) by (simp add: tx_queue_def Let_def)
  have m: "tmem (tx_turn t ts False s) = nt_mem t"
    by (simp add: tx_turn_def Let_def)
  have e: "tipc_send_data local remote cb n wait s = Some (Returned (set_vq TIPC_VQ_TX vq (tx_turn t ts False s)) ret)"
    using assms(1,5,6) tk(1) unfolding tipc_send_data_def get_tx_buf_Cons assms(1) q by auto
  have u: "last_avail_idx (tx_queue t s) = last_avail_idx (td_vqs (tdev s) ! TIPC_VQ_TX)" "used_idx (vq_vring (tx_queue t s)) = used_idx (nt_ring t)"
    "used_ring (vq_vring (tx_queue t s)) = used_ring (nt_ring t)"
    by (simp_all add: tx_queue_def Let_def)
  have l: "td_vqs (tdev (set_vq TIPC_VQ_TX vq (tx_turn t ts False s))) ! TIPC_VQ_TX = vq"
    using assms(2) by simp
  have "ret \<in> {ERR_NOT_VALID, ERR_TOO_BIG}"
    using tk(1) assms(6) by blast
  moreover have "last_avail_idx vq = last_avail_idx (td_vqs (tdev s) ! TIPC_VQ_TX) + 1 \<and> used_idx (vq_vring vq) = used_idx (nt_ring t) \<and>
      used_ring (vq_vring vq) = used_ring (nt_ring t)"
    using tk(5,7,8) u by simp
  ultimately show ?thesis
    using e l m by auto
qed

section \<open>Examples\<close>

definition ex_msg_sys :: tipc_sys where
  "ex_msg_sys = ex_sys\<lparr>tdev := snd (alloc_local_addr ex_dev 77 (Some (ChanH 0))),
     tmem := mem_write (\<lambda>_. 0) 4096 (tipc_hdr 77 1000 2 @ [5, 6])\<rparr>"

theorem tipc_send_drops_bad_buffer_witness:
  "\<exists>s'. tipc_send_data 0 77 (send_buf [5, 6]) 2 True (ex_sys\<lparr>turns := [ex_turn]\<rparr>) = Some (Returned s' ERR_TOO_BIG)"
proof -
  let ?s = "ex_sys\<lparr>turns := [ex_turn]\<rparr>"
  have q: "tx_queue ex_turn ?s = rx_queue ex_turn ex_sys"
    by (simp add: tx_queue_def rx_queue_def Let_def ex_sys_def ex_dev_ok)
  obtain vq b where "vqueue_get_avail_buf (nt_idx ex_turn) (rx_queue ex_turn ex_sys) tx_buf0 = Some (ERR_TOO_BIG, vq, b)"
    unfolding ex_rx_queue
    by (simp add: ex_turn_def ex_vq_defs vqueue_get_avail_buf_def vqueue_get_avail_buf_locked_def chain_loop.simps put_desc_def one_iov_def no_iovs_def)
  then show ?thesis
    using tipc_send_drops_bad_buffer [of ?s ex_turn "[]" ERR_TOO_BIG vq b 0 77 "send_buf [5, 6]" 2 True] ex_rx_facts unfolding q by auto
qed

definition ex_tx_buf :: vqueue_buf where
  "ex_tx_buf = \<lparr>vb_head = 0, in_iovs = no_iovs, out_iovs = ex_rx_vec\<rparr>"

lemma ex_tx_map: "map_option (fst \<circ> fst) (vqueue_map_iovs ex_rx_vec 48 ex_vm) = Some NO_ERROR"
proof -
  have "map_option fst (vmm_alloc_physical PAGE_SIZE (Some 0) 12 0x2000 0 48 ex_vm) = Some (NO_ERROR, Some 0x80000000)"
    by code_simp
  then obtain vm where "vmm_alloc_physical PAGE_SIZE (Some 0) 12 0x2000 0 48 ex_vm = Some ((NO_ERROR, Some 0x80000000), vm)"
    by auto
  moreover have "ROUNDUP 18 PAGE_SIZE = (PAGE_SIZE :: u32)"
    by (simp add: ROUNDUP_def)
  ultimately show ?thesis
    by (simp add: vqueue_map_iovs_def ex_rx_vec_def kassert_def set_base_def iov_base_def)
qed

lemma ex_tx_filled:
  assumes "fill_tx_buf 0 77 (send_buf [5, 6, 7]) 3 ex_tx_buf ex_sys = Some ((r, b), s')"
  shows "r \<noteq> ERR_NO_MEMORY"
proof -
  have v: "tvm ex_sys = ex_vm" "iv_used ex_rx_vec = 1" "ik_len (iv_iovs ex_rx_vec ! 0) = 18"
    by (simp_all add: ex_sys_def ex_rx_vec_def)
  obtain iv vm where "vqueue_map_iovs ex_rx_vec 48 ex_vm = Some ((NO_ERROR, iv), vm)"
    using ex_tx_map by auto
  moreover have "21 + uint x \<noteq> 0" for x :: u16
    using unsigned_greater_eq [where ?'a = int, of x] by linarith
  ultimately show ?thesis
    using assms v by (auto simp: fill_tx_buf_def ex_tx_buf_def send_buf_def Let_def bind_eq_Some_conv split: if_splits)
qed

text \<open>Three bytes of data and a buffer with room for two.\<close>

theorem tipc_fill_tx_buf_confined_witness:
  "\<exists>b s' va. fill_tx_buf 0 77 (send_buf [5, 6, 7]) 3 ex_tx_buf ex_sys = Some ((18, b), s') \<and> region_list (aspace (tvm s')) = [] \<and>
     mmu_calls (tvm s') = [MmuMap va 0x2000 1 48, MmuUnmap va 1] \<and> tmem s' = mem_write (tmem ex_sys) (unat va) (tipc_hdr 0 77 3 @ [5, 6])"
proof -
  have r: "ROUNDUP 18 PAGE_SIZE = (PAGE_SIZE :: u32)"
    by (simp add: ROUNDUP_def)
  have "vm_reach {(0, 0), (0, 1)} (tvm ex_sys)" "region_list (aspace (tvm ex_sys)) = []" "mmu_calls (tvm ex_sys) = []"
    using ex_vm_reach by (simp_all add: ex_sys_def ex_vm_def vmm_init_def)
  then show ?thesis
    using tipc_fill_tx_buf_confined [of "{(0, 0), (0, 1)}" ex_sys ex_tx_buf 0 18 "[5, 6, 7]" 0 77] ex_tx_filled
    by (fastforce simp: ex_tx_buf_def ex_rx_vec_def IS_PAGE_ALIGNED_def tx_bytes_def r)
qed

lemma ex_msg_lookup: "lookup_ept (tdev ex_msg_sys) 1000 = Some 0" "epts (tdev ex_msg_sys) ! 0 = \<lparr>ep_remote = 77, ep_chan = Some (ChanH 0)\<rparr>"
  by code_simp+

lemma ex_msg_header:
  "le32 (mem_read (tmem ex_msg_sys) (4096 + 12) 2) = 2" "le32 (mem_read (tmem ex_msg_sys) 4096 4) = 77"
  "le32 (mem_read (tmem ex_msg_sys) (4096 + 4) 4) = 1000" "mem_read (tmem ex_msg_sys) (4096 + TIPC_HDR_SIZE) 2 = [5, 6]"
  by (simp_all add: ex_msg_sys_def mem_read_def mem_write_def upt_conv_Cons tipc_hdr_def le32_bytes_def le16_bytes_def)

theorem tipc_chan_msg_delivered_witness:
  "\<exists>r s' dh' mq'. rx_dispatch \<lparr>ik_base = 4096, ik_len = 18\<rparr> ex_msg_sys = Some (Returned s' r) \<and> 0 \<le> r \<and>
     chans (tkern s') (Suc 0) = Some dh' \<and> msg_queue dh' = Some mq' \<and> mq_pending mq' = [[5, 6]]"
proof -
  have k: "tkern ex_msg_sys = ex_connected"
    by (simp add: ex_msg_sys_def ex_sys_def)
  note t = tipc_chan_msg_delivered [of ex_msg_sys "\<lparr>ik_base = 4096, ik_len = 18\<rparr>" 2 77 1000, THEN conjunct2, rule_format, of 0 0
      "(ex_client IPC_CHAN_STATE_CONNECTED)\<lparr>aux_state := IPC_CHAN_AUX_STATE_CONNECTED\<rparr>"]
  show ?thesis
    using t ex_reachable(4) ex_msg_lookup ex_connected_facts(1) ex_connected_chans
    by (auto simp: k ex_msg_header [simplified] ex_client_def ex_server_def ex_queue_def mq_pending_def)
qed
end
