(* ===== verification/Spec2Isabelle.thy ===== *)
theory Spec2Isabelle
  imports Tipc_Msg
begin

text \<open>
  A verification development for the Trusty kernel of \<^verbatim>\<open>src/AndroidTrustyOS\<close>: the
  inter-process communication of the secure kernel (\<^verbatim>\<open>lk/trusty/lib/trusty\<close>), the memory
  managers of LK below it (\<^verbatim>\<open>external/lk/kernel/vm\<close>), and the virtio device through which
  clients of the non-secure side reach the services of the secure side.

  \<^bold>\<open>The program.\<close> A service publishes a \<^emph>\<open>port\<close> under a path; a client that connects to the
  path gets one end of a \<^emph>\<open>channel\<close>, and the service gets the other when it accepts. Each end
  has a \<^emph>\<open>message queue\<close> of a fixed number of buffers. Ports and channels are reached through
  reference counted \<^emph>\<open>handles\<close>, on which a thread can wait, alone or in a \<^emph>\<open>handle list\<close>. An
  application names its handles by small integers, the slots of its \<^emph>\<open>user context\<close>, and calls
  the kernel with pointers into its own memory. For the clients of the non-secure side the
  \<^emph>\<open>Trusty IPC device\<close> plays the part of the application: it takes requests and messages out of
  buffers of one \<^emph>\<open>virtqueue\<close> and puts responses and messages into buffers of another. The
  buffers are mapped by the \<^emph>\<open>virtual memory manager\<close>, whose memory comes from the
  \<^emph>\<open>physical page allocator\<close>.

  \<^bold>\<open>Conventions.\<close> A definition has the name of the C function it translates; one with a suffix
  such as \<open>_loop\<close> or \<open>_one\<close> is a loop or a part of that function. \<open>None\<close> is a failed assertion,
  a panic or the use of a null or dangling pointer (\<^const>\<open>kassert\<close>); error codes are
  integers returned next to the new state. Machine words are \<open>32 word\<close> where they can
  wrap, as on the 32-bit ARM build. Heap allocation reads a list of outcomes that is part of the
  state, so every failure of \<^verbatim>\<open>malloc\<close> is covered. A call that can sleep returns \<open>Blocked\<close> or
  \<open>Returned\<close>; what happens while it sleeps is a list of moves given to it. Each routine that
  holds a lock is one step. Kernel memory is a function of the address, user memory a
  partial one.

  \<^bold>\<open>Theories, and what they show.\<close>
    \<^item> \<open>Trusty_Base\<close> is the prelude: types, error codes, assertions, memory, user copies.
    \<^item> \<open>Bitmap\<close> (\<^verbatim>\<open>bits.h\<close>): the word-wise bitmap is a set of slots and \<^const>\<open>bitmap_ffz\<close>
      finds the lowest free one; the locale \<open>slot_bitmap\<close> is what users of bitmaps rely on.
    \<^item> \<open>Iovec\<close> (\<^verbatim>\<open>iovec.c\<close>): scattering and gathering are inverse, and confined to the window
      they are given, also when user memory faults; the locale \<open>gather\<close> is what a message queue
      relies on, interpreted for kernel and for user vectors.
    \<^item> \<open>Msg_Queue\<close> (\<^verbatim>\<open>ipc_msg.c\<close>, the queue): the free, filled and read lists implement a
      first-in first-out queue; the locale \<open>msg_fifo\<close> has the abstract queue and the theorem
      on all runs, interpreted on the operations of the code.
    \<^item> \<open>Handle\<close> (\<^verbatim>\<open>handle.c\<close>, \<^verbatim>\<open>refcount.h\<close>): reference counts, events, waiting; the locale
      \<open>pollable\<close> is the part of the poll operation that a wait relies on.
    \<^item> \<open>Ipc\<close> (\<^verbatim>\<open>ipc.c\<close>, \<^verbatim>\<open>reflist.h\<close>) has ports and channels. \<open>Ipc_Inv\<close> states their invariant
      \<open>ipc_inv\<close>, and \<open>Ipc_Chan\<close>, \<open>Ipc_Ops\<close>, \<open>Ipc_Port\<close>, \<open>Ipc_Accept\<close>, \<open>Ipc_Shutdown\<close> and
      \<open>Ipc_Publish\<close> show that each routine keeps it and returns.
    \<^item> \<open>Ipc_Msg\<close> (\<^verbatim>\<open>ipc_msg.c\<close>, the channel half): sending, getting, reading and putting back.
    \<^item> \<open>Ipc_System\<close> is the transition system of these routines: the invariant of every reachable
      kernel, that no routine panics, and what connecting, accepting, publishing, sending and
      closing do; with two ways in which the code does panic.
    \<^item> \<open>Ipc_Wait\<close>: waiting on a list is fair, and emptying a list ends.
    \<^item> \<open>Uctx\<close> (\<^verbatim>\<open>uctx.c\<close> and the system calls of \<^verbatim>\<open>ipc.c\<close> and \<^verbatim>\<open>ipc_msg.c\<close>): installing,
      looking up and closing handle ids, with the references that a close gives up, and copying
      strings from the user.
    \<^item> \<open>Pmm\<close> (\<^verbatim>\<open>pmm.c\<close>): each page is free or has one owner in every reachable state, and the
      search for contiguous pages finds the first aligned run.
    \<^item> \<open>Vmm\<close> (\<^verbatim>\<open>vmm.c\<close>, the section rule of \<^verbatim>\<open>arch/arm/arm/mmu.c\<close>): regions are ordered, inside
      the address space and disjoint in every reachable state, freeing undoes mapping, and
      secure and non-secure memory never share a section.
    \<^item> \<open>Vqueue\<close> (\<^verbatim>\<open>vqueue.c\<close>, \<^verbatim>\<open>virtio_ring.h\<close>): which chains of descriptors are accepted, that
      a buffer taken can be returned, that mapping is all or nothing, which values written by the
      other side bring the kernel down, and by how much a ring whose size wraps is mapped short.
    \<^item> \<open>Tipc_Dev\<close> (\<^verbatim>\<open>tipc_dev.c\<close>) is the device; \<open>Tipc_System\<close> shows that addresses of endpoints
      are unique and that every received buffer is returned; \<open>Tipc_Msg\<close> composes the layers: a
      message in a received buffer ends in the queue of the right channel and of no other, and a
      message that is sent stays inside the mapping of the buffer of the other side.

  \<^bold>\<open>Loops and fuel.\<close> Loops over lists are structural. \<^const>\<open>chain_loop\<close> ends because each
  round fills a vector of the buffer. \<^const>\<open>find_run\<close> and \<^const>\<open>strlcpy_loop\<close>, whose ends
  depend on wrapping arithmetic and on the contents of memory, are partial functions in the
  option monad, and that they return is proved. \<^const>\<open>tx_msg_loop\<close> has one unit of fuel per
  message in the queue when it starts and one for the last look, which is the number of rounds of a
  handler that runs alone; a peer that sends at the same time, for which the C loop would go on, is
  not covered. The loops that wait for the other side, or for events, take their bound from the
  list of moves given to them and are \<open>Blocked\<close> at its end.

  \<^bold>\<open>Parameters.\<close> What is outside of the code enters as an argument: the outcomes of allocation,
  the contents of user memory, what other threads and the non-secure side do while a call
  waits, and the value of a variable that the code leaves unassigned. Page tables are the
  log of the calls of \<^verbatim>\<open>arch_mmu_map\<close> and \<^verbatim>\<open>arch_mmu_unmap\<close>.

  \<^bold>\<open>Not modelled.\<close> Of the files above: the console commands, tracing, \<^verbatim>\<open>pmm_alloc_kpages\<close>, user
  address spaces of the memory manager, the notifiers that create contexts when an application
  starts, what the transmit thread still does while \<^const>\<open>tipc_dev_reset\<close> waits for it to end, and
  the interleaving of two routines that hold the same lock, which the lock excludes.
  Of the Trusty kernel: the virtio bus (\<^verbatim>\<open>trusty_virtio.c\<close>), the secure monitor calls
  (\<^verbatim>\<open>lib/sm\<close>), user threads and page tables (\<^verbatim>\<open>lib/uthread\<close>), the loader of applications
  (\<^verbatim>\<open>trusty_app.c\<close>), the log buffer (\<^verbatim>\<open>lib/memlog\<close>). Outside of the kernel: the storage,
  keymaster and gatekeeper applications, the drivers of the non-secure side, the rest of LK, and
  the imported trees of QEMU, OpenSSL and the tool chains, which the kernel does not call.
\<close>

end
